(* ===== verification/Prelude.thy ===== *)
theory Prelude
  imports Main "HOL-Library.Word" "HOL-Library.Multiset"
begin

text \<open>
  The development's shared vocabulary: the collections of rewrite rules the components
  fill, byte strings and their line terminator, the generic facts on lists the parser and
  the serializer share, and the invariant principle of the components that are step
  relations (the descriptor store, the thread pool).
\<close>

section \<open>Collections of facts\<close>

named_theorems parser_simps \<open>field equations of the parser's small state updates\<close>
named_theorems net_simps \<open>behaviour of the system-call wrappers on each result\<close>
named_theorems pool_simps \<open>thread-pool bookkeeping\<close>

section \<open>Bytes and lines\<close>

type_synonym bytes = string
type_synonym size_t = "64 word"
type_synonym uint16_t = "16 word"

abbreviation CR :: char where "CR \<equiv> CHR 0x0D"
abbreviation LF :: char where "LF \<equiv> CHR 0x0A"
abbreviation CRLF :: string where "CRLF \<equiv> [CR, LF]"
abbreviation SP :: char where "SP \<equiv> CHR '' ''"

definition ends_cr :: "string \<Rightarrow> bool" where
  "ends_cr s = (s \<noteq> [] \<and> last s = CR)"

lemma ends_cr_Nil [simp]: "\<not> ends_cr []"
  by (simp add: ends_cr_def)

lemma ends_cr_append: "t \<noteq> [] \<Longrightarrow> ends_cr (s @ t) = ends_cr t"
  by (simp add: ends_cr_def)

lemma ends_cr_drop: "\<not> ends_cr s \<Longrightarrow> \<not> ends_cr (drop n s)"
  by (auto simp: ends_cr_def)

section \<open>Lists\<close>

lemma takeWhile_append_stop:
  "\<forall>x\<in>set xs. P x \<Longrightarrow> \<not> P y \<Longrightarrow> takeWhile P (xs @ y # ys) = xs"
  by (induction xs) auto

lemma dropWhile_hd_stop: "xs = [] \<or> \<not> P (hd xs) \<Longrightarrow> dropWhile P xs = xs"
  by (cases xs) auto

lemma takeWhile_all: "\<forall>x\<in>set xs. P x \<Longrightarrow> takeWhile P xs = xs"
  by (induction xs) auto

lemma sum_list_map_remove:
  "x \<in> set xs \<Longrightarrow> f x \<le> (sum_list (map f xs) :: nat)"
  by (induction xs) auto

section \<open>Transition systems and invariants\<close>

text \<open>
  The states a system can be in: the start states, closed under the step relation.
\<close>

inductive reach :: "('s \<Rightarrow> bool) \<Rightarrow> ('s \<Rightarrow> 's \<Rightarrow> bool) \<Rightarrow> 's \<Rightarrow> bool"
  for init :: "'s \<Rightarrow> bool" and step :: "'s \<Rightarrow> 's \<Rightarrow> bool"
where
  reach_init: "init s \<Longrightarrow> reach init step s"
| reach_step: "reach init step s \<Longrightarrow> step s t \<Longrightarrow> reach init step t"

text \<open>
  The contract a component owes when it claims an invariant: it holds at the start and
  every step keeps it.
\<close>

locale invariant_system =
  fixes init :: "'s \<Rightarrow> bool"
    and step :: "'s \<Rightarrow> 's \<Rightarrow> bool"
    and inv :: "'s \<Rightarrow> bool"
  assumes inv_init: "init s \<Longrightarrow> inv s"
    and inv_step: "inv s \<Longrightarrow> step s t \<Longrightarrow> inv t"
begin

lemma reach_inv: "reach init step s \<Longrightarrow> inv s"
  by (induction rule: reach.induct) (auto intro: inv_init inv_step)

end

lemma reach_trans_step:
  "reach init step s \<Longrightarrow> step\<^sup>*\<^sup>* s t \<Longrightarrow> reach init step t"
  by (rotate_tac, induction rule: rtranclp_induct) (auto intro: reach_step)

text \<open>
  A stronger contract: a second predicate that the first one supports.  A component
  whose invariant is proved in two layers interprets this locale.
\<close>

locale layered_invariant = base: invariant_system init step inv
  for init :: "'s \<Rightarrow> bool"
    and step :: "'s \<Rightarrow> 's \<Rightarrow> bool"
    and inv :: "'s \<Rightarrow> bool" +
  fixes inv2 :: "'s \<Rightarrow> bool"
  assumes inv2_init: "init s \<Longrightarrow> inv2 s"
    and inv2_step: "inv s \<Longrightarrow> inv2 s \<Longrightarrow> step s t \<Longrightarrow> inv2 t"
begin

lemma reach_inv2: "reach init step s \<Longrightarrow> inv2 s"
  by (induction rule: reach.induct) (auto intro: inv2_init inv2_step base.reach_inv)

end

text \<open>
  A component that runs inside a larger system: every step of the system, seen through \<open>abs\<close>, is a
  step of the component or leaves it alone.  Then what is reachable in the system is reachable in
  the component, and every theorem about the component holds in the system.
\<close>

locale refinement_mapping = conc: invariant_system init step inv
  for init :: "'s \<Rightarrow> bool"
    and step :: "'s \<Rightarrow> 's \<Rightarrow> bool"
    and inv :: "'s \<Rightarrow> bool" +
  fixes ainit :: "'a \<Rightarrow> bool"
    and astep :: "'a \<Rightarrow> 'a \<Rightarrow> bool"
    and abs :: "'s \<Rightarrow> 'a"
  assumes abs_init: "init s \<Longrightarrow> ainit (abs s)"
    and abs_step: "inv s \<Longrightarrow> step s t \<Longrightarrow> abs t = abs s \<or> astep (abs s) (abs t)"
begin

lemma reach_abs: "reach init step s \<Longrightarrow> reach ainit astep (abs s)"
proof (induction rule: reach.induct)
  case (reach_init s)
  then show ?case by (intro reach.reach_init abs_init)
next
  case (reach_step s t)
  from abs_step [OF conc.reach_inv [OF reach_step.hyps(1)] reach_step.hyps(2)] show ?case
  proof
    assume "abs t = abs s"
    with reach_step.IH show ?thesis by simp
  next
    assume "astep (abs s) (abs t)"
    with reach_step.IH show ?thesis by (rule reach.reach_step)
  qed
qed

end

text \<open>A relation whose runs from a state are bounded comes to rest.\<close>

lemma schedule_ends:
  assumes bound: "\<And>k w'. (R ^^ k) w w' \<Longrightarrow> k \<le> b"
  shows "\<exists>k w'. (R ^^ k) w w' \<and> (\<forall>w''. \<not> R w' w'')"
proof (rule ccontr)
  assume no: "\<not> (\<exists>k w'. (R ^^ k) w w' \<and> (\<forall>w''. \<not> R w' w''))"
  have "\<exists>w'. (R ^^ k) w w'" for k
  proof (induction k)
    case (Suc k)
    then obtain w' where "(R ^^ k) w w'" by blast
    moreover from this obtain w'' where "R w' w''" using no by blast
    ultimately show ?case by auto
  qed simp
  then obtain w' where "(R ^^ Suc b) w w'" by blast
  with bound show False by fastforce
qed

end
