(* ===== verification/Cpp_Std.thy ===== *)
theory Cpp_Std
  imports Prelude "HOL-Library.AList" "HOL-Library.Char_ord"
begin

text \<open>
  The part of the C++ standard library the program calls, on byte strings: searching
  (\<open>std::string::find\<close>, \<open>starts_with\<close>), character classes of the C locale
  (\<open>isspace\<close>, \<open>tolower\<close>), number conversion (\<open>stoull\<close>, \<open>stoi\<close>, \<open>to_string\<close>)
  with its two exceptions, and \<open>std::unordered_map\<close>.  These functions are not code of the
  repository; the definitions state what the standard says of the calls the program makes.
\<close>

section \<open>Searching\<close>

fun starts_with :: "string \<Rightarrow> string \<Rightarrow> bool" where
  "starts_with s [] = True"
| "starts_with [] (p # ps) = False"
| "starts_with (c # cs) (p # ps) = (c = p \<and> starts_with cs ps)"

text \<open>\<open>s.find(p)\<close>: the least index at which \<open>p\<close> occurs in \<open>s\<close>; \<open>npos\<close> is None.\<close>

fun find_str :: "string \<Rightarrow> string \<Rightarrow> nat option" where
  "find_str p [] = (if p = [] then Some 0 else None)"
| "find_str p (c # cs) =
     (if starts_with (c # cs) p then Some 0 else map_option Suc (find_str p cs))"

fun find_char :: "char \<Rightarrow> string \<Rightarrow> nat option" where
  "find_char c [] = None"
| "find_char c (x # xs) = (if x = c then Some 0 else map_option Suc (find_char c xs))"

text \<open>\<open>s.find(c, pos)\<close>: the search starts at \<open>pos\<close>.\<close>

definition find_char_from :: "char \<Rightarrow> string \<Rightarrow> nat \<Rightarrow> nat option" where
  "find_char_from c s pos = map_option (\<lambda>i. i + pos) (find_char c (drop pos s))"

definition find_str_from :: "string \<Rightarrow> string \<Rightarrow> nat \<Rightarrow> nat option" where
  "find_str_from p s pos =
     (if pos \<le> length s then map_option (\<lambda>i. i + pos) (find_str p (drop pos s)) else None)"

text \<open>\<open>s.find_last_of(c)\<close>.\<close>

definition find_last_char :: "char \<Rightarrow> string \<Rightarrow> nat option" where
  "find_last_char c s = map_option (\<lambda>i. length s - 1 - i) (find_char c (rev s))"

lemma starts_with_append [simp]: "starts_with (p @ s) p"
  by (induction p) auto

lemma starts_with_iff: "starts_with s p \<longleftrightarrow> take (length p) s = p"
  by (induction s p rule: starts_with.induct) auto

lemma starts_with_ex: "starts_with s p \<longleftrightarrow> (\<exists>t. s = p @ t)"
  by (metis append_take_drop_id starts_with_append starts_with_iff)

lemma starts_with_mono: "starts_with s p \<Longrightarrow> starts_with (s @ t) p"
  by (auto simp: starts_with_ex)

lemma starts_with_append_cut:
  "length p \<le> length s \<Longrightarrow> starts_with (s @ t) p = starts_with s p"
  by (simp add: starts_with_iff)

lemma find_char_None: "find_char c s = None \<longleftrightarrow> c \<notin> set s"
  by (induction s) auto

lemma find_char_NoneD: "c \<notin> set s \<Longrightarrow> find_char c s = None"
  by (simp add: find_char_None)

lemma find_char_Some:
  "find_char c s = Some i \<longleftrightarrow> i < length s \<and> s ! i = c \<and> c \<notin> set (take i s)"
proof (induction s arbitrary: i)
  case Nil
  then show ?case by simp
next
  case (Cons x xs)
  then show ?case by (cases i) auto
qed

lemma find_char_append_notin:
  "c \<notin> set s \<Longrightarrow> find_char c (s @ c # t) = Some (length s)"
  by (induction s) auto

lemma find_str_bound: "find_str p s = Some i \<Longrightarrow> i + length p \<le> length s"
proof (induction s arbitrary: i)
  case Nil
  then show ?case by (simp split: if_splits)
next
  case (Cons c cs)
  then show ?case
    by (auto split: if_splits simp: starts_with_iff dest: arg_cong [where f = length])
qed

lemma find_str_at: "find_str p s = Some i \<Longrightarrow> starts_with (drop i s) p"
proof (induction s arbitrary: i)
  case Nil
  then show ?case by (simp split: if_splits)
next
  case (Cons c cs)
  then show ?case by (auto split: if_splits)
qed

lemma find_str_mono: "find_str p s = Some i \<Longrightarrow> find_str p (s @ t) = Some i"
proof (induction s arbitrary: i)
  case Nil
  then show ?case by (cases t) (auto split: if_splits)
next
  case (Cons c cs)
  then show ?case
  proof (cases "starts_with (c # cs) p")
    case True
    then show ?thesis using Cons.prems starts_with_mono [of "c # cs" p t] by auto
  next
    case False
    then obtain j where j: "find_str p cs = Some j" "i = Suc j"
      using Cons.prems by auto
    then have "length p \<le> length (c # cs)"
      using find_str_bound [of p cs j] by simp
    then have "\<not> starts_with ((c # cs) @ t) p"
      using False by (simp only: starts_with_append_cut) simp
    then show ?thesis using Cons.IH j by simp
  qed
qed

text \<open>\<open>find\<close> as a specification: the first index at which the needle stands.\<close>

lemma find_str_None_iff: "find_str p s = None \<longleftrightarrow> (\<forall>j\<le>length s. \<not> starts_with (drop j s) p)"
proof (induction s)
  case Nil
  then show ?case by (cases p) auto
next
  case (Cons c cs)
  have "(\<forall>j\<le>length (c # cs). \<not> starts_with (drop j (c # cs)) p) \<longleftrightarrow>
      \<not> starts_with (c # cs) p \<and> (\<forall>j\<le>length cs. \<not> starts_with (drop j cs) p)"
    by (auto simp: All_less_Suc2 simp flip: less_Suc_eq_le)
  with Cons.IH show ?case by simp
qed

lemma find_str_Some_iff:
  "find_str p s = Some i \<longleftrightarrow>
     i \<le> length s \<and> starts_with (drop i s) p \<and> (\<forall>j<i. \<not> starts_with (drop j s) p)"
proof (induction s arbitrary: i)
  case Nil
  then show ?case by (cases p) auto
next
  case (Cons c cs)
  show ?case
  proof (cases i)
    case 0
    then show ?thesis by auto
  next
    case (Suc k)
    then show ?thesis using Cons.IH [of k] by (auto simp: All_less_Suc2)
  qed
qed

text \<open>
  The shortcut of a search that has already failed on a prefix: only a match that reaches
  into the new part is possible.
\<close>

lemma find_str_skip:
  assumes early: "\<And>j. j < start \<Longrightarrow> \<not> starts_with (drop j u) p" and le: "start \<le> length u"
  shows "find_str_from p u start = find_str p u"
proof (cases "find_str p (drop start u)")
  case None
  then have late: "\<not> starts_with (drop j (drop start u)) p" if "j \<le> length u - start" for j
    using that by (simp add: find_str_None_iff)
  have "\<not> starts_with (drop j u) p" if "j \<le> length u" for j
    using early late [of "j - start"] that by (cases "j < start") auto
  then have "find_str p u = None" by (simp add: find_str_None_iff)
  with None show ?thesis by (simp add: find_str_from_def)
next
  case (Some i)
  then have i: "i \<le> length u - start" "starts_with (drop (i + start) u) p"
    and before: "\<And>j. j < i \<Longrightarrow> \<not> starts_with (drop (j + start) u) p"
    unfolding find_str_Some_iff by auto
  have "\<not> starts_with (drop j u) p" if "j < i + start" for j
    using early before [of "j - start"] that by (cases "j < start") auto
  with i le have "find_str p u = Some (i + start)"
    unfolding find_str_Some_iff by auto
  with Some le show ?thesis by (simp add: find_str_from_def)
qed

lemma find_str_near_end:
  assumes none: "find_str p s = None"
    and start: "start = (if length p \<le> length s then length s - length p + 1 else 0)"
  shows "find_str_from p (s @ t) start = find_str p (s @ t)"
proof (rule find_str_skip)
  fix j
  assume "j < start"
  with start have j: "j + length p \<le> length s" "j \<le> length s" by (auto split: if_splits)
  then have "\<not> starts_with (drop j s) p" using none by (simp add: find_str_None_iff)
  with j show "\<not> starts_with (drop j (s @ t)) p" by (simp add: starts_with_append_cut)
next
  have "p \<noteq> []"
  proof
    assume "p = []"
    with none show False by (cases s) auto
  qed
  then show "start \<le> length (s @ t)" using start by (cases p) auto
qed

section \<open>The line terminator\<close>

text \<open>
  What the parser needs to know of \<open>find("\<open>\r\n\<close>")\<close>.
\<close>

lemma find_crlf_bound: "find_str CRLF s = Some i \<Longrightarrow> i + 2 \<le> length s"
  using find_str_bound [of CRLF s i] by simp

lemma find_crlf_line:
  "CR \<notin> set l \<Longrightarrow> find_str CRLF (l @ CR # LF # rest) = Some (length l)"
proof (induction l)
  case Nil
  then show ?case by simp
next
  case (Cons x xs)
  then show ?case by (cases xs) auto
qed

lemma find_crlf_None_append:
  "find_str CRLF s = None \<Longrightarrow> find_str CRLF (s @ t) = Some i \<Longrightarrow> length s \<le> Suc i"
proof (induction s arbitrary: i)
  case Nil
  then show ?case by simp
next
  case (Cons c cs)
  show ?case
  proof (cases "starts_with ((c # cs) @ t) CRLF")
    case True
    with Cons.prems show ?thesis by (cases cs) auto
  next
    case False
    with Cons.prems obtain j where "find_str CRLF (cs @ t) = Some j" "i = Suc j"
      by auto
    moreover from Cons.prems(1) have "find_str CRLF cs = None"
      by (auto split: if_splits)
    ultimately show ?thesis using Cons.IH by auto
  qed
qed

lemma find_crlf_None_append_safe:
  assumes none: "find_str CRLF s = None" and some: "find_str CRLF (s @ t) = Some i"
    and safe: "\<not> ends_cr s"
  shows "length s \<le> i"
proof (cases s rule: rev_cases)
  case (snoc b x)
  show ?thesis
  proof (rule ccontr)
    assume "\<not> length s \<le> i"
    with find_crlf_None_append [OF none some] snoc have "i = length b" by simp
    with find_str_at [OF some] snoc have "x = CR" by simp
    with safe snoc show False by (simp add: ends_cr_def)
  qed
qed simp

section \<open>Character classes and case\<close>

text \<open>\<open>std::isspace\<close> and \<open>std::tolower\<close> on an unsigned char, in the C locale.\<close>

definition isspace :: "char \<Rightarrow> bool" where
  "isspace c = (c \<in> {CHR '' '', CHR 0x09, CHR 0x0A, CHR 0x0B, CHR 0x0C, CHR 0x0D})"

definition tolower :: "char \<Rightarrow> char" where
  "tolower c = (if CHR ''A'' \<le> c \<and> c \<le> CHR ''Z'' then char_of (of_char c + (32 :: nat)) else c)"

definition is_digit :: "char \<Rightarrow> bool" where
  "is_digit c = (CHR ''0'' \<le> c \<and> c \<le> CHR ''9'')"

lemma isspace_SP [simp]: "isspace SP"
  by (simp add: isspace_def)

lemma isspace_CR [simp]: "isspace CR"
  by (simp add: isspace_def)

lemma is_digit_code: "is_digit c \<longleftrightarrow> 48 \<le> (of_char c :: nat) \<and> (of_char c :: nat) \<le> 57"
  by (simp add: is_digit_def less_eq_char_def)

lemma is_digit_not_space: "is_digit c \<Longrightarrow> \<not> isspace c"
  by (auto simp: is_digit_def isspace_def less_eq_char_def)

lemma is_digit_not_sign: "is_digit c \<Longrightarrow> c \<noteq> CHR ''-'' \<and> c \<noteq> CHR ''+''"
  by (auto simp: is_digit_def less_eq_char_def)

lemma tolower_code:
  "(of_char (tolower c) :: nat) =
     (if 65 \<le> (of_char c :: nat) \<and> (of_char c :: nat) \<le> 90 then of_char c + 32 else of_char c)"
  by (simp add: tolower_def less_eq_char_def)

lemma tolower_idem [simp]: "tolower (tolower c) = tolower c"
proof -
  have "(of_char (tolower (tolower c)) :: nat) = of_char (tolower c)"
    by (simp add: tolower_code)
  then show ?thesis by simp
qed

lemma tolower_eq_noncase:
  assumes "\<not> (97 \<le> (of_char d :: nat) \<and> (of_char d :: nat) \<le> 122)"
    and "\<not> (65 \<le> (of_char d :: nat) \<and> (of_char d :: nat) \<le> 90)"
  shows "tolower c = d \<longleftrightarrow> c = d"
proof -
  have "tolower c = d \<longleftrightarrow> (of_char (tolower c) :: nat) = of_char d" by simp
  also have "\<dots> \<longleftrightarrow> (of_char c :: nat) = of_char d" using assms by (auto simp: tolower_code)
  finally show ?thesis by simp
qed

section \<open>Numbers\<close>

datatype std_exception = Invalid_argument | Out_of_range

definition digit_value :: "char \<Rightarrow> nat" where
  "digit_value c = of_char c - 48"

definition nat_of_digits :: "string \<Rightarrow> nat" where
  "nat_of_digits ds = foldl (\<lambda>n c. n * 10 + digit_value c) 0 ds"

text \<open>
  The common part of \<open>strtoull\<close> and \<open>strtol\<close> in base 10: skip white space, take one
  optional sign, take the digits.  What follows the digits is not looked at.
\<close>

definition scan_sign :: "string \<Rightarrow> bool \<times> string" where
  "scan_sign s =
     (case s of
        [] \<Rightarrow> (False, [])
      | c # cs \<Rightarrow> if c = CHR ''-'' then (True, cs) else if c = CHR ''+'' then (False, cs)
                  else (False, s))"

definition scan_number :: "string \<Rightarrow> bool \<times> string" where
  "scan_number s =
     (let (neg, t) = scan_sign (dropWhile isspace s) in (neg, takeWhile is_digit t))"

text \<open>
  \<open>std::stoull\<close>: no digits is \<open>invalid_argument\<close>, a magnitude that does not fit
  \<open>unsigned long long\<close> is \<open>out_of_range\<close>, and a minus sign negates modulo \<open>2 ^ 64\<close>.
\<close>

definition stoull :: "string \<Rightarrow> std_exception + size_t" where
  "stoull s =
     (let (neg, ds) = scan_number s in
      if ds = [] then Inl Invalid_argument
      else if nat_of_digits ds \<ge> 2 ^ 64 then Inl Out_of_range
      else Inr (if neg then - of_nat (nat_of_digits ds) else of_nat (nat_of_digits ds)))"

text \<open>\<open>std::stoi\<close>: the value must fit a 32-bit \<open>int\<close>.\<close>

definition stoi :: "string \<Rightarrow> std_exception + int" where
  "stoi s =
     (let (neg, ds) = scan_number s;
          v = (if neg then - int (nat_of_digits ds) else int (nat_of_digits ds)) in
      if ds = [] then Inl Invalid_argument
      else if v < - (2 ^ 31) \<or> 2 ^ 31 \<le> v then Inl Out_of_range
      else Inr v)"

definition digit_char :: "nat \<Rightarrow> char" where
  "digit_char d = char_of (48 + d)"

fun to_string :: "nat \<Rightarrow> string" where
  "to_string n = (if n < 10 then [digit_char n] else to_string (n div 10) @ [digit_char (n mod 10)])"

declare to_string.simps [simp del]

lemma digit_char_code: "d < 10 \<Longrightarrow> (of_char (digit_char d) :: nat) = 48 + d"
  by (simp add: digit_char_def)

lemma to_string_nonempty [simp]: "to_string n \<noteq> []"
  by (subst to_string.simps) simp

lemma to_string_digits: "c \<in> set (to_string n) \<Longrightarrow> is_digit c"
proof (induction n rule: to_string.induct)
  case (1 n)
  show ?case
  proof (cases "n < 10")
    case True
    with "1.prems" show ?thesis
      by (simp add: to_string.simps [of n] is_digit_code digit_char_code)
  next
    case False
    with "1.prems" "1.IH" show ?thesis
      by (auto simp: to_string.simps [of n] is_digit_code digit_char_code)
  qed
qed

lemma nat_of_digits_snoc [simp]:
  "nat_of_digits (ds @ [c]) = nat_of_digits ds * 10 + digit_value c"
  by (simp add: nat_of_digits_def)

lemma nat_of_digits_to_string [simp]: "nat_of_digits (to_string n) = n"
proof (induction n rule: to_string.induct)
  case (1 n)
  show ?case
  proof (cases "n < 10")
    case True
    then show ?thesis
      by (simp add: to_string.simps [of n] nat_of_digits_def digit_value_def digit_char_code)
  next
    case False
    with "1.IH" show ?thesis
      by (simp add: to_string.simps [of n] digit_value_def digit_char_code)
  qed
qed

lemma scan_number_digits:
  assumes "ds \<noteq> []" "\<forall>c\<in>set ds. is_digit c" "rest = [] \<or> \<not> is_digit (hd rest)"
  shows "scan_number (ds @ rest) = (False, ds)"
proof -
  obtain d ds' where ds: "ds = d # ds'" using assms(1) by (cases ds) auto
  then have "is_digit d" using assms(2) by simp
  then have "dropWhile isspace (ds @ rest) = ds @ rest" "scan_sign (ds @ rest) = (False, ds @ rest)"
    using ds is_digit_not_space is_digit_not_sign by (auto simp: scan_sign_def)
  moreover have "takeWhile is_digit (ds @ rest) = ds"
    using assms(2,3) by (cases rest) (auto simp: takeWhile_append takeWhile_all)
  ultimately show ?thesis by (simp add: scan_number_def)
qed

lemma scan_number_to_string: "scan_number (to_string n) = (False, to_string n)"
  using scan_number_digits [of "to_string n" "[]"] by (auto dest: to_string_digits)

lemma stoull_to_string: "n < 2 ^ 64 \<Longrightarrow> stoull (to_string n) = Inr (of_nat n)"
  by (simp add: stoull_def scan_number_to_string)

lemma stoi_to_string: "n < 2 ^ 31 \<Longrightarrow> stoi (to_string n) = Inr (int n)"
  by (simp add: stoi_def scan_number_to_string)

section \<open>\<open>std::unordered_map<std::string, std::string>\<close>\<close>

text \<open>
  A map is the list of its entries in iteration order.  The standard leaves that order
  open; a new key is entered at the end here, and what the development proves of an
  iteration is stated for every list of entries.
\<close>

type_synonym umap = "(string \<times> string) list"

definition umap_find :: "string \<Rightarrow> umap \<Rightarrow> string option" where
  "umap_find k m = map_of m k"

definition umap_put :: "string \<Rightarrow> string \<Rightarrow> umap \<Rightarrow> umap" where
  "umap_put k v m = AList.update k v m"

text \<open>The laws a map owes its clients, and what a sequence of assignments leaves behind.\<close>

locale string_map =
  fixes empty :: "'m"
    and put :: "string \<Rightarrow> string \<Rightarrow> 'm \<Rightarrow> 'm"
    and find :: "string \<Rightarrow> 'm \<Rightarrow> string option"
  assumes find_empty: "find k empty = None"
    and find_put: "find k (put k' v m) = (if k = k' then Some v else find k m)"
begin

lemma find_put_same: "find k (put k v m) = Some v"
  by (simp add: find_put)

lemma find_put_other: "k \<noteq> k' \<Longrightarrow> find k (put k' v m) = find k m"
  by (simp add: find_put)

lemma find_fold_put:
  "find k (fold (\<lambda>(k, v) m. put k v m) kvs m) =
     (case map_of (rev kvs) k of None \<Rightarrow> find k m | Some v \<Rightarrow> Some v)"
proof (induction kvs arbitrary: m)
  case Nil
  then show ?case by simp
next
  case (Cons kv kvs)
  obtain k' v' where "kv = (k', v')" by (cases kv)
  with Cons.IH [of "put k' v' m"] show ?case
    by (auto simp: find_put map_add_def split: option.splits)
qed

end

interpretation um: string_map "[]" umap_put umap_find
  by unfold_locales (auto simp: umap_put_def umap_find_def update_conv')

lemma umap_put_keys: "fst ` set (umap_put k v m) = insert k (fst ` set m)"
  by (simp add: umap_put_def dom_update)

lemma umap_put_distinct: "distinct (map fst m) \<Longrightarrow> distinct (map fst (umap_put k v m))"
  by (simp add: umap_put_def distinct_update)

lemma umap_put_length: "length (umap_put k v m) \<le> Suc (length m)"
  by (induction m) (auto simp: umap_put_def)

lemma umap_put_set: "set (umap_put k v m) \<subseteq> insert (k, v) (set m)"
  by (induction m) (auto simp: umap_put_def)

definition umap_size :: "umap \<Rightarrow> nat" where
  "umap_size m = sum_list (map (\<lambda>(k, v). length k + length v) m)"

lemma umap_size_put: "umap_size (umap_put k v m) \<le> umap_size m + length k + length v"
  by (induction m) (auto simp: umap_put_def umap_size_def)

end
