(* ===== verification/Http_Status.thy ===== *)
theory Http_Status
  imports Cpp_Std
begin

text \<open>
  \<open>include/http/status.hpp\<close> and \<open>src/http/status.cpp\<close>: the status codes, their numbers and
  reason phrases.  The \<open>default\<close> branch of the switch ("Unknown") is for values outside the
  enumeration, which no code of the program makes; the datatype has none.
\<close>

datatype StatusCode =
    OK | NoContent | BadRequest | Forbidden | NotFound | MethodNotAllowed
  | PayloadTooLarge | URITooLong | HeaderFieldsTooLarge | InternalServerError | ServiceUnavailable

fun status_int :: "StatusCode \<Rightarrow> nat" where
  "status_int OK = 200"
| "status_int NoContent = 204"
| "status_int BadRequest = 400"
| "status_int Forbidden = 403"
| "status_int NotFound = 404"
| "status_int MethodNotAllowed = 405"
| "status_int PayloadTooLarge = 413"
| "status_int URITooLong = 414"
| "status_int HeaderFieldsTooLarge = 431"
| "status_int InternalServerError = 500"
| "status_int ServiceUnavailable = 503"

fun reason_phrase :: "StatusCode \<Rightarrow> string" where
  "reason_phrase OK = ''OK''"
| "reason_phrase NoContent = ''No Content''"
| "reason_phrase BadRequest = ''Bad Request''"
| "reason_phrase Forbidden = ''Forbidden''"
| "reason_phrase NotFound = ''Not Found''"
| "reason_phrase MethodNotAllowed = ''Method Not Allowed''"
| "reason_phrase PayloadTooLarge = ''Payload Too Large''"
| "reason_phrase URITooLong = ''URI Too Long''"
| "reason_phrase HeaderFieldsTooLarge = ''Request Header Fields Too Large''"
| "reason_phrase InternalServerError = ''Internal Server Error''"
| "reason_phrase ServiceUnavailable = ''Service Unavailable''"

lemma status_int_inj: "status_int c = status_int d \<longleftrightarrow> c = d"
  by (cases c; cases d) simp_all

lemma status_int_range: "200 \<le> status_int c \<and> status_int c < 600"
  by (cases c) simp_all

lemma reason_phrase_line: "CR \<notin> set (reason_phrase c) \<and> reason_phrase c \<noteq> []"
  by (cases c) simp_all

text \<open>The codes are ordered by number, as the underlying \<open>int\<close> of the enumeration is.\<close>

instantiation StatusCode :: linorder
begin

definition less_eq_StatusCode :: "StatusCode \<Rightarrow> StatusCode \<Rightarrow> bool" where
  "less_eq_StatusCode c d = (status_int c \<le> status_int d)"

definition less_StatusCode :: "StatusCode \<Rightarrow> StatusCode \<Rightarrow> bool" where
  "less_StatusCode c d = (status_int c < status_int d)"

instance
  by standard (auto simp: less_eq_StatusCode_def less_StatusCode_def status_int_inj)

end

text \<open>The codes of client errors.\<close>

definition client_error :: "StatusCode \<Rightarrow> bool" where
  "client_error c = (BadRequest \<le> c \<and> c < InternalServerError)"

lemma client_error_iff:
  "client_error c \<longleftrightarrow> c \<in> {BadRequest, Forbidden, NotFound, MethodNotAllowed, PayloadTooLarge,
     URITooLong, HeaderFieldsTooLarge}"
  by (cases c) (auto simp: client_error_def less_eq_StatusCode_def less_StatusCode_def)

end
