(* ===== verification/Http_Request.thy ===== *)
theory Http_Request
  imports Http_Status
begin

text \<open>
  \<open>include/http/request.hpp\<close> and \<open>src/http/request.cpp\<close>: the request, its header lookup, and
  the two questions the server asks of it (how long is the body, may the connection stay
  open).
\<close>

record Request =
  rq_method :: string
  rq_target :: string
  rq_version :: string
  rq_headers :: umap
  rq_body :: string

definition empty_request :: Request where
  "empty_request = \<lparr>rq_method = [], rq_target = [], rq_version = [], rq_headers = [], rq_body = []\<rparr>"

definition to_lower :: "string \<Rightarrow> string" where
  "to_lower s = map tolower s"

definition header :: "Request \<Rightarrow> string \<Rightarrow> string option" where
  "header r name = umap_find (to_lower name) (rq_headers r)"

definition has_header :: "Request \<Rightarrow> string \<Rightarrow> bool" where
  "has_header r name = (umap_find (to_lower name) (rq_headers r) \<noteq> None)"

definition content_length :: "Request \<Rightarrow> size_t" where
  "content_length r =
     (case header r ''content-length'' of
        Some cl \<Rightarrow> (case stoull cl of Inr n \<Rightarrow> n | Inl _ \<Rightarrow> 0)
      | None \<Rightarrow> 0)"

definition should_keep_alive :: "Request \<Rightarrow> bool" where
  "should_keep_alive r =
     (case header r ''connection'' of
        Some conn \<Rightarrow> if to_lower conn = ''close'' then False else rq_version r = ''HTTP/1.1''
      | None \<Rightarrow> rq_version r = ''HTTP/1.1'')"

section \<open>Case folding\<close>

lemma to_lower_idem [simp]: "to_lower (to_lower s) = to_lower s"
  by (simp add: to_lower_def)

lemma length_to_lower [simp]: "length (to_lower s) = length s"
  by (simp add: to_lower_def)

lemma to_lower_notin:
  assumes "d \<notin> set s" "d \<in> {SP, CHR '':'', CR, LF}"
  shows "d \<notin> set (to_lower s)"
proof -
  have "\<And>c. tolower c = d \<longleftrightarrow> c = d"
    by (rule tolower_eq_noncase) (use assms(2) in auto)
  with assms(1) show ?thesis by (simp add: to_lower_def image_iff) metis
qed

lemma to_lower_literals [simp]:
  "to_lower ''content-length'' = ''content-length''"
  "to_lower ''connection'' = ''connection''"
  by code_simp+

lemma has_header_header: "has_header r name \<longleftrightarrow> header r name \<noteq> None"
  by (simp add: has_header_def header_def)

lemma header_ignores_case: "to_lower n = to_lower m \<Longrightarrow> header r n = header r m"
  by (simp add: header_def)

lemma header_update:
  "header (r\<lparr>rq_headers := umap_put (to_lower n) v (rq_headers r)\<rparr>) m =
     (if to_lower m = to_lower n then Some v else header r m)"
  by (simp add: header_def um.find_put)

lemma content_length_to_string:
  "header r ''content-length'' = Some (to_string n) \<Longrightarrow> n < 2 ^ 64 \<Longrightarrow> content_length r = of_nat n"
  by (simp add: content_length_def stoull_to_string)

lemma content_length_absent: "\<not> has_header r ''content-length'' \<Longrightarrow> content_length r = 0"
  by (simp add: content_length_def has_header_header)

lemma content_length_headers: "rq_headers r = rq_headers r' \<Longrightarrow> content_length r = content_length r'"
  by (simp add: content_length_def header_def)

end
