(* ===== verification/Http_Parser.thy ===== *)
theory Http_Parser
  imports Http_Request
begin

text \<open>
  \<open>include/http/parser.hpp\<close> and \<open>src/http/parser.cpp\<close>: the incremental request parser.  The
  record holds the class's members; every member function is a function on it.  The three
  loops are the one inside \<open>feed\<close> (a state is left at most once), the one inside
  \<open>parse_headers\<close> (every round removes a line from the buffer) and those inside \<open>trim\<close>.
\<close>

section \<open>State\<close>

datatype ParseState = REQUEST_LINE | HEADERS | BODY | COMPLETE | ERROR
datatype ParseResult = R_INCOMPLETE | R_COMPLETE | R_ERROR

record HttpParser =
  p_buffer :: bytes
  p_state :: ParseState
  p_request :: Request
  p_error_code :: StatusCode
  p_headers_size :: nat
  p_header_count :: int

definition MAX_REQUEST_LINE :: nat where "MAX_REQUEST_LINE = 8192"
definition MAX_HEADER_SIZE :: nat where "MAX_HEADER_SIZE = 8192"
definition MAX_TOTAL_HEADERS :: nat where "MAX_TOTAL_HEADERS = 65536"
definition MAX_HEADER_COUNT :: int where "MAX_HEADER_COUNT = 100"
definition MAX_BODY_SIZE :: nat where "MAX_BODY_SIZE = 1048576"

lemmas limits = MAX_REQUEST_LINE_def MAX_HEADER_SIZE_def MAX_TOTAL_HEADERS_def
  MAX_HEADER_COUNT_def MAX_BODY_SIZE_def

definition initial_parser :: HttpParser where
  "initial_parser = \<lparr>p_buffer = [], p_state = REQUEST_LINE, p_request = empty_request,
     p_error_code = OK, p_headers_size = 0, p_header_count = 0\<rparr>"

definition reset :: "HttpParser \<Rightarrow> HttpParser" where
  "reset p = p\<lparr>p_buffer := [], p_state := REQUEST_LINE, p_request := empty_request,
     p_error_code := OK, p_headers_size := 0, p_header_count := 0\<rparr>"

text \<open>\<open>get_request\<close> moves the request out; what stays behind is a request the parser does not
  read again before \<open>reset\<close>, and the strings and the map are left empty here.\<close>

definition get_request :: "HttpParser \<Rightarrow> Request \<times> HttpParser" where
  "get_request p = (p_request p, p\<lparr>p_request := empty_request\<rparr>)"

definition error_code :: "HttpParser \<Rightarrow> StatusCode" where
  [simp]: "error_code p = p_error_code p"

definition parser_state :: "HttpParser \<Rightarrow> ParseState" where
  [simp]: "parser_state p = p_state p"

text \<open>The two assignments every error branch makes.\<close>

definition parse_error :: "StatusCode \<Rightarrow> HttpParser \<Rightarrow> HttpParser" where
  "parse_error code p = p\<lparr>p_state := ERROR, p_error_code := code\<rparr>"

lemma parse_error_fields [parser_simps, simp]:
  "p_state (parse_error c p) = ERROR"
  "p_error_code (parse_error c p) = c"
  "p_buffer (parse_error c p) = p_buffer p"
  "p_request (parse_error c p) = p_request p"
  by (simp_all add: parse_error_def)

section \<open>Operations\<close>

definition trim :: "string \<Rightarrow> string" where
  "trim s = (let start = dropWhile isspace s in rev (dropWhile isspace (rev start)))"

text \<open>The file has a \<open>to_lower\<close> of its own, the same as that of \<open>request.cpp\<close>.\<close>

definition parser_to_lower :: "string \<Rightarrow> string" where
  "parser_to_lower s = map tolower s"

lemma parser_to_lower_eq [simp]: "parser_to_lower = to_lower"
  by (simp add: fun_eq_iff parser_to_lower_def to_lower_def)

text \<open>
  The part of \<open>parse_request_line\<close> that works on the line alone: the three fields are cut at
  the two spaces and stored, then checked; the code of the first check that fails is
  returned next to the request as it stands at that point.
\<close>

definition read_request_line :: "string \<Rightarrow> Request \<Rightarrow> StatusCode option \<times> Request" where
  "read_request_line req_line r0 =
     (case find_char SP req_line of
        None \<Rightarrow> (Some BadRequest, r0)
      | Some m_end \<Rightarrow>
          (case find_char_from SP req_line (m_end + 1) of
             None \<Rightarrow> (Some BadRequest, r0)
           | Some t_end \<Rightarrow>
               let r = r0\<lparr>rq_method := take m_end req_line,
                          rq_target := take (t_end - m_end - 1) (drop (m_end + 1) req_line),
                          rq_version := drop (t_end + 1) req_line\<rparr> in
               if rq_method r \<noteq> ''GET'' \<and> rq_method r \<noteq> ''HEAD'' \<and>
                  rq_method r \<noteq> ''POST'' \<and> rq_method r \<noteq> ''DELETE''
               then (Some MethodNotAllowed, r)
               else if rq_target r = [] \<or> hd (rq_target r) \<noteq> CHR ''/''
               then (Some BadRequest, r)
               else if rq_version r \<noteq> ''HTTP/1.1'' then (Some BadRequest, r)
               else (None, r)))"

definition parse_request_line :: "HttpParser \<Rightarrow> HttpParser" where
  "parse_request_line p =
     (case find_str CRLF (p_buffer p) of
        None \<Rightarrow>
          if length (p_buffer p) > MAX_REQUEST_LINE then parse_error URITooLong p else p
      | Some pos \<Rightarrow>
          if pos > MAX_REQUEST_LINE then parse_error URITooLong p
          else
            (case read_request_line (take pos (p_buffer p)) (p_request p) of
               (Some code, r) \<Rightarrow> parse_error code (p\<lparr>p_request := r\<rparr>)
             | (None, r) \<Rightarrow> p\<lparr>p_request := r, p_buffer := drop (pos + 2) (p_buffer p),
                              p_state := HEADERS\<rparr>))"

text \<open>The part of \<open>parse_headers\<close> that works on one line: None is the 400 of a line without
  a colon or with a space in its name.\<close>

definition read_header_line :: "string \<Rightarrow> (string \<times> string) option" where
  "read_header_line header_line =
     (case find_char CHR '':'' header_line of
        None \<Rightarrow> None
      | Some colon_pos \<Rightarrow>
          let name = take colon_pos header_line in
          if find_char SP name \<noteq> None then None
          else
            let val = drop (colon_pos + 1) header_line in
            Some (parser_to_lower name, trim val))"

text \<open>
  One round of the loop in \<open>parse_headers\<close>: Inl when the round returns, Inr when it runs to
  the end of the loop body.
\<close>

definition header_round :: "HttpParser \<Rightarrow> HttpParser + HttpParser" where
  "header_round p =
     (case find_str CRLF (p_buffer p) of
        None \<Rightarrow>
          Inl (if p_headers_size p + length (p_buffer p) > MAX_TOTAL_HEADERS
               then parse_error HeaderFieldsTooLarge p else p)
      | Some pos \<Rightarrow>
          if pos = 0 then Inl (p\<lparr>p_buffer := drop 2 (p_buffer p), p_state := BODY\<rparr>)
          else if pos > MAX_HEADER_SIZE then Inl (parse_error HeaderFieldsTooLarge p)
          else if p_header_count p \<ge> MAX_HEADER_COUNT then Inl (parse_error HeaderFieldsTooLarge p)
          else
            let p1 = p\<lparr>p_headers_size := p_headers_size p + (pos + 2)\<rparr> in
            if p_headers_size p1 > MAX_TOTAL_HEADERS then Inl (parse_error HeaderFieldsTooLarge p1)
            else
              (case read_header_line (take pos (p_buffer p1)) of
                 None \<Rightarrow> Inl (parse_error BadRequest p1)
               | Some (name_lower, val_trimmed) \<Rightarrow>
                   let r = p_request p1 in
                   Inr (p1\<lparr>p_request := r\<lparr>rq_headers := umap_put name_lower val_trimmed (rq_headers r)\<rparr>,
                           p_header_count := p_header_count p1 + 1,
                           p_buffer := drop (pos + 2) (p_buffer p1)\<rparr>)))"

lemma header_round_shrinks:
  "header_round p = Inr q \<Longrightarrow> length (p_buffer q) < length (p_buffer p)"
  by (auto simp: header_round_def Let_def split: option.splits if_splits dest!: find_crlf_bound)

function parse_headers :: "HttpParser \<Rightarrow> HttpParser" where
  "parse_headers p = (case header_round p of Inl q \<Rightarrow> q | Inr q \<Rightarrow> parse_headers q)"
  by pat_completeness auto
termination
  by (relation "measure (\<lambda>p. length (p_buffer p))") (auto dest: header_round_shrinks)

declare parse_headers.simps [simp del]

definition parse_body :: "HttpParser \<Rightarrow> HttpParser" where
  "parse_body p =
     (let expected_length = content_length (p_request p) in
      if unat expected_length > MAX_BODY_SIZE then parse_error PayloadTooLarge p
      else if rq_method (p_request p) = ''POST'' \<and> \<not> has_header (p_request p) ''content-length''
      then parse_error BadRequest p
      else if length (p_buffer p) \<ge> unat expected_length
      then p\<lparr>p_request := (p_request p)\<lparr>rq_body := take (unat expected_length) (p_buffer p)\<rparr>,
             p_buffer := drop (unat expected_length) (p_buffer p),
             p_state := COMPLETE\<rparr>
      else p)"

text \<open>The dispatch inside the loop of \<open>feed\<close>, and the loop.\<close>

definition parse_step :: "HttpParser \<Rightarrow> HttpParser" where
  "parse_step p =
     (if p_state p = REQUEST_LINE then parse_request_line p
      else if p_state p = HEADERS then parse_headers p
      else if p_state p = BODY then parse_body p
      else p)"

fun state_rank :: "ParseState \<Rightarrow> nat" where
  "state_rank REQUEST_LINE = 3"
| "state_rank HEADERS = 2"
| "state_rank BODY = 1"
| "state_rank COMPLETE = 0"
| "state_rank ERROR = 0"

definition terminal :: "HttpParser \<Rightarrow> bool" where
  "terminal p = (p_state p = COMPLETE \<or> p_state p = ERROR)"

lemma parse_request_line_state:
  "p_state (parse_request_line p) \<in> {p_state p, HEADERS, ERROR}"
  by (simp add: parse_request_line_def split: option.split prod.split)

lemma header_round_state:
  "header_round p = Inl q \<Longrightarrow> p_state q \<in> {p_state p, BODY, ERROR}"
  "header_round p = Inr q \<Longrightarrow> p_state q = p_state p"
  by (auto simp: header_round_def Let_def split: option.splits if_splits)

lemma parse_headers_state: "p_state (parse_headers p) \<in> {p_state p, BODY, ERROR}"
proof (induction p rule: parse_headers.induct)
  case (1 p)
  show ?case
  proof (cases "header_round p")
    case (Inl q)
    then show ?thesis using header_round_state(1) [of p q] by (simp add: parse_headers.simps [of p])
  next
    case (Inr q)
    then show ?thesis
      using "1.IH" [of q] header_round_state(2) [of p q] by (simp add: parse_headers.simps [of p])
  qed
qed

lemma parse_body_state: "p_state (parse_body p) \<in> {p_state p, COMPLETE, ERROR}"
  by (simp add: parse_body_def parse_error_def Let_def)

lemma parse_step_rank:
  assumes "\<not> terminal p" "p_state (parse_step p) \<noteq> p_state p"
  shows "state_rank (p_state (parse_step p)) < state_rank (p_state p)"
proof (cases "p_state p")
  case REQUEST_LINE
  then show ?thesis
    using parse_request_line_state [of p] assms(2) by (auto simp: parse_step_def)
next
  case HEADERS
  then show ?thesis
    using parse_headers_state [of p] assms(2) by (auto simp: parse_step_def)
next
  case BODY
  then show ?thesis
    using parse_body_state [of p] assms(2) by (auto simp: parse_step_def)
qed (use assms(1) in \<open>auto simp: terminal_def\<close>)

function feed_loop :: "HttpParser \<Rightarrow> HttpParser" where
  "feed_loop p =
     (if terminal p then p
      else let q = parse_step p in if p_state q = p_state p then q else feed_loop q)"
  by pat_completeness auto
termination
  by (relation "measure (\<lambda>p. state_rank (p_state p))") (auto intro: parse_step_rank)

declare feed_loop.simps [simp del]

definition parse_result :: "HttpParser \<Rightarrow> ParseResult" where
  "parse_result p =
     (if p_state p = ERROR then R_ERROR
      else if p_state p = COMPLETE then R_COMPLETE
      else R_INCOMPLETE)"

definition feed :: "bytes \<Rightarrow> HttpParser \<Rightarrow> ParseResult \<times> HttpParser" where
  "feed data p =
     (if p_state p = ERROR then (R_ERROR, p)
      else if p_state p = COMPLETE then (R_COMPLETE, p)
      else
        let q = feed_loop (p\<lparr>p_buffer := p_buffer p @ data\<rparr>) in (parse_result q, q))"

section \<open>The states in order\<close>

text \<open>The order of the enumeration is the order in which a parse goes through its states.\<close>

fun state_index :: "ParseState \<Rightarrow> nat" where
  "state_index REQUEST_LINE = 0"
| "state_index HEADERS = 1"
| "state_index BODY = 2"
| "state_index COMPLETE = 3"
| "state_index ERROR = 4"

lemma state_index_inj: "state_index a = state_index b \<longleftrightarrow> a = b"
  by (cases a; cases b) auto

instantiation ParseState :: linorder
begin

definition less_eq_ParseState :: "ParseState \<Rightarrow> ParseState \<Rightarrow> bool" where
  "less_eq_ParseState a b = (state_index a \<le> state_index b)"

definition less_ParseState :: "ParseState \<Rightarrow> ParseState \<Rightarrow> bool" where
  "less_ParseState a b = (state_index a < state_index b)"

instance
  by standard (auto simp: less_eq_ParseState_def less_ParseState_def state_index_inj)

end

lemma ParseState_order [simp]: "REQUEST_LINE \<le> s" "s \<le> ERROR" "HEADERS \<le> BODY" "BODY \<le> COMPLETE"
  by (cases s; simp add: less_eq_ParseState_def)+

lemma parse_step_mono: "p_state p \<le> p_state (parse_step p)"
  using parse_request_line_state [of p] parse_headers_state [of p] parse_body_state [of p]
  by (cases "p_state p") (auto simp: parse_step_def)

lemma feed_loop_mono: "p_state p \<le> p_state (feed_loop p)"
proof (induction p rule: feed_loop.induct)
  case (1 p)
  show ?case
  proof (cases "terminal p \<or> p_state (parse_step p) = p_state p")
    case True
    then show ?thesis by (auto simp: feed_loop.simps [of p] Let_def)
  next
    case False
    then have "p_state (parse_step p) \<le> p_state (feed_loop (parse_step p))" using "1.IH" by blast
    with False parse_step_mono [of p] show ?thesis
      by (auto simp: feed_loop.simps [of p] Let_def intro: order.trans)
  qed
qed

text \<open>\<open>feed\<close> never goes back, and leaves a finished parse alone; only \<open>reset\<close> starts again.\<close>

lemma feed_mono: "p_state p \<le> p_state (snd (feed d p))"
  using feed_loop_mono [of "p\<lparr>p_buffer := p_buffer p @ d\<rparr>"] by (simp add: feed_def Let_def)

lemma feed_finished: "terminal p \<Longrightarrow> feed d p = (parse_result p, p)"
  by (auto simp: feed_def terminal_def parse_result_def)

end
