(* ===== verification/Http_Parser_Inv.thy ===== *)
theory Http_Parser_Inv
  imports Http_Parser
begin

text \<open>
  What the parser keeps true of itself between calls of \<open>feed\<close>: a state-indexed invariant,
  its preservation by every member function, and the bound on what an unfinished parse can
  hold in memory.
\<close>

section \<open>The invariant\<close>

definition allowed_methods :: "string list" where
  "allowed_methods = [''GET'', ''HEAD'', ''POST'', ''DELETE'']"

definition valid_line :: "Request \<Rightarrow> bool" where
  "valid_line r =
     (rq_method r \<in> set allowed_methods \<and>
      rq_target r \<noteq> [] \<and> hd (rq_target r) = CHR ''/'' \<and> SP \<notin> set (rq_target r) \<and>
      rq_version r = ''HTTP/1.1'' \<and>
      length (rq_method r) + length (rq_target r) + 10 \<le> MAX_REQUEST_LINE)"

definition valid_field :: "string \<times> string \<Rightarrow> bool" where
  "valid_field kv =
     (to_lower (fst kv) = fst kv \<and> SP \<notin> set (fst kv) \<and> CHR '':'' \<notin> set (fst kv) \<and>
      trim (snd kv) = snd kv \<and> length (fst kv) + 1 + length (snd kv) \<le> MAX_HEADER_SIZE)"

definition valid_headers :: "HttpParser \<Rightarrow> bool" where
  "valid_headers p =
     (let hs = rq_headers (p_request p) in
      distinct (map fst hs) \<and> (\<forall>kv\<in>set hs. valid_field kv) \<and>
      int (length hs) \<le> p_header_count p \<and> p_header_count p \<le> MAX_HEADER_COUNT \<and>
      umap_size hs \<le> p_headers_size p \<and> p_headers_size p \<le> MAX_TOTAL_HEADERS)"

definition valid_body :: "Request \<Rightarrow> bool" where
  "valid_body r =
     (length (rq_body r) = unat (content_length r) \<and> length (rq_body r) \<le> MAX_BODY_SIZE \<and>
      (rq_method r = ''POST'' \<longrightarrow> has_header r ''content-length''))"

definition parse_error_codes :: "StatusCode set" where
  "parse_error_codes =
     {BadRequest, MethodNotAllowed, PayloadTooLarge, URITooLong, HeaderFieldsTooLarge}"

definition parser_inv :: "HttpParser \<Rightarrow> bool" where
  "parser_inv p =
     (case p_state p of
        REQUEST_LINE \<Rightarrow> p_request p = empty_request \<and> p_headers_size p = 0 \<and>
                        p_header_count p = 0 \<and> p_error_code p = OK
      | HEADERS \<Rightarrow> valid_line (p_request p) \<and> valid_headers p \<and> p_error_code p = OK
      | BODY \<Rightarrow> valid_line (p_request p) \<and> valid_headers p \<and> p_error_code p = OK
      | COMPLETE \<Rightarrow> valid_line (p_request p) \<and> valid_headers p \<and> valid_body (p_request p) \<and>
                    p_error_code p = OK
      | ERROR \<Rightarrow> p_error_code p \<in> parse_error_codes)"

lemma parser_inv_error [simp]:
  "parser_inv (parse_error code p) \<longleftrightarrow> code \<in> parse_error_codes"
  by (simp add: parser_inv_def parse_error_def)

lemma parse_error_codes_simps [simp]:
  "BadRequest \<in> parse_error_codes" "MethodNotAllowed \<in> parse_error_codes"
  "PayloadTooLarge \<in> parse_error_codes" "URITooLong \<in> parse_error_codes"
  "HeaderFieldsTooLarge \<in> parse_error_codes"
  by (simp_all add: parse_error_codes_def)

lemma parser_inv_initial [simp]: "parser_inv initial_parser"
  by (simp add: parser_inv_def initial_parser_def)

lemma parser_inv_buffer [simp]: "parser_inv (p\<lparr>p_buffer := b\<rparr>) = parser_inv p"
  by (simp add: parser_inv_def valid_headers_def split: ParseState.splits)

lemma valid_headers_buffer [simp]: "valid_headers (p\<lparr>p_buffer := b\<rparr>) = valid_headers p"
  by (simp add: valid_headers_def)

lemma valid_headers_state [simp]: "valid_headers (p\<lparr>p_state := s\<rparr>) = valid_headers p"
  by (simp add: valid_headers_def)

section \<open>Trimming\<close>

lemma trim_idem [simp]: "trim (trim s) = trim s"
proof -
  define u where "u = dropWhile isspace s"
  define w where "w = dropWhile isspace (rev u)"
  have u: "u = [] \<or> \<not> isspace (hd u)"
    by (metis hd_dropWhile u_def)
  have w: "w = [] \<or> \<not> isspace (hd w)"
    by (metis hd_dropWhile w_def)
  have "\<exists>e. rev u = e @ w" unfolding w_def by (metis takeWhile_dropWhile_id)
  then obtain e where e: "u = rev w @ rev e" by (metis rev_append rev_rev_ident)
  have "rev w = [] \<or> \<not> isspace (hd (rev w))"
    using u e by (cases "rev w") auto
  then have "dropWhile isspace (rev w) = rev w" by (rule dropWhile_hd_stop)
  moreover have "dropWhile isspace w = w" using w by (rule dropWhile_hd_stop)
  moreover have "trim s = rev w" by (simp add: trim_def Let_def u_def w_def)
  ultimately show ?thesis by (simp add: trim_def)
qed

lemma length_trim: "length (trim s) \<le> length s"
proof -
  have "length (trim s) \<le> length (dropWhile isspace s)"
    by (simp add: trim_def) (metis length_dropWhile_le length_rev)
  then show ?thesis using length_dropWhile_le le_trans by blast
qed

lemma trim_nonspace:
  "s = [] \<or> \<not> isspace (hd s) \<and> \<not> isspace (last s) \<Longrightarrow> trim s = s"
proof -
  assume s: "s = [] \<or> \<not> isspace (hd s) \<and> \<not> isspace (last s)"
  then have "dropWhile isspace s = s" by (intro dropWhile_hd_stop) auto
  moreover from s have "dropWhile isspace (rev s) = rev s"
    by (intro dropWhile_hd_stop) (auto simp: hd_rev)
  ultimately show ?thesis by (simp add: trim_def)
qed

lemma trim_leading_space: "trim (SP # s) = trim s"
  by (simp add: trim_def)

section \<open>The invariant is kept\<close>

lemma find_char_take: "find_char c s = Some i \<Longrightarrow> c \<notin> set (take i s)"
  by (simp add: find_char_Some)

text \<open>How the two separators cut a request line.\<close>

lemma request_line_cut:
  assumes m: "find_char SP l = Some i" and t: "find_char_from SP l (Suc i) = Some j"
  shows "SP \<notin> set (take (j - i - 1) (drop (Suc i) l))" and "i < j" and "j < length l"
proof -
  from t obtain k where k: "find_char SP (drop (Suc i) l) = Some k" "j = k + Suc i"
    by (auto simp: find_char_from_def)
  then show "SP \<notin> set (take (j - i - 1) (drop (Suc i) l))" "i < j" "j < length l"
    using m by (auto simp: find_char_Some)
qed

lemma read_request_line_code:
  "read_request_line l r0 = (Some code, r) \<Longrightarrow> code \<in> parse_error_codes"
  by (auto simp: read_request_line_def Let_def split: option.splits if_splits)

lemma read_request_line_ok:
  assumes ok: "read_request_line l r0 = (None, r)" and len: "length l \<le> MAX_REQUEST_LINE"
  shows "valid_line r \<and> rq_headers r = rq_headers r0 \<and> rq_body r = rq_body r0"
proof -
  from ok obtain i where i: "find_char SP l = Some i"
    by (auto simp: read_request_line_def split: option.splits)
  with ok obtain j where j: "find_char_from SP l (Suc i) = Some j"
    by (auto simp: read_request_line_def split: option.splits)
  define r1 where "r1 = r0\<lparr>rq_method := take i l,
     rq_target := take (j - i - 1) (drop (i + 1) l), rq_version := drop (j + 1) l\<rparr>"
  have "read_request_line l r0 =
     (if rq_method r1 \<notin> set allowed_methods then (Some MethodNotAllowed, r1)
      else if rq_target r1 = [] \<or> hd (rq_target r1) \<noteq> CHR ''/'' then (Some BadRequest, r1)
      else if rq_version r1 \<noteq> ''HTTP/1.1'' then (Some BadRequest, r1) else (None, r1))"
    using i j by (simp add: read_request_line_def Let_def r1_def allowed_methods_def)
  with ok have r: "r = r1" and m: "rq_method r1 \<in> set allowed_methods"
    and t: "rq_target r1 \<noteq> []" "hd (rq_target r1) = CHR ''/''"
    and v: "rq_version r1 = ''HTTP/1.1''"
    by (auto split: if_splits)
  note cut = request_line_cut [OF i j]
  have "length l = j + 9"
    using arg_cong [OF v, where f = length] cut(3) by (simp add: r1_def)
  with len cut m t v show ?thesis
    unfolding r by (simp add: valid_line_def) (simp add: r1_def)
qed

lemma parse_request_line_inv:
  assumes inv: "parser_inv p" and st: "p_state p = REQUEST_LINE"
  shows "parser_inv (parse_request_line p)"
proof (cases "find_str CRLF (p_buffer p)")
  case None
  then show ?thesis using inv by (simp add: parse_request_line_def)
next
  case pos: (Some pos)
  obtain c r where line: "read_request_line (take pos (p_buffer p)) (p_request p) = (c, r)"
    by (cases "read_request_line (take pos (p_buffer p)) (p_request p)")
  show ?thesis
  proof (cases c)
    case None
    have "valid_line r \<and> rq_headers r = []" if "pos \<le> MAX_REQUEST_LINE"
      using read_request_line_ok [of _ _ r] line None that inv st
      by (force simp: parser_inv_def empty_request_def)
    then show ?thesis using pos line None inv st
      by (auto simp: parse_request_line_def parser_inv_def valid_headers_def umap_size_def limits)
  next
    case (Some code)
    then show ?thesis using pos line read_request_line_code by (auto simp: parse_request_line_def)
  qed
qed

lemma parser_inv_to_body:
  "parser_inv p \<Longrightarrow> p_state p = HEADERS \<Longrightarrow> parser_inv (p\<lparr>p_buffer := b, p_state := BODY\<rparr>)"
  by (simp add: parser_inv_def valid_headers_def)

lemma header_round_inv_Inl:
  "parser_inv p \<Longrightarrow> p_state p = HEADERS \<Longrightarrow> header_round p = Inl q \<Longrightarrow> parser_inv q"
  by (auto simp: header_round_def Let_def parser_inv_to_body split: option.splits if_splits)

lemma read_header_line_ok:
  assumes "read_header_line l = Some (k, v)"
  shows "length l \<le> MAX_HEADER_SIZE \<Longrightarrow> valid_field (k, v)" and "length k + length v < length l"
proof -
  from assms obtain c where c: "find_char CHR '':'' l = Some c" "SP \<notin> set (take c l)"
    and kv: "k = to_lower (take c l)" "v = trim (drop (Suc c) l)"
    by (auto simp: read_header_line_def Let_def find_char_None split: option.splits if_splits)
  from c(1) have "c < length l" by (simp add: find_char_Some)
  with kv length_trim [of "drop (Suc c) l"] show short: "length k + length v < length l" by simp
  from c kv short show "valid_field (k, v)" if "length l \<le> MAX_HEADER_SIZE"
    using that by (simp add: valid_field_def to_lower_notin find_char_take)
qed

lemma header_round_Inr:
  assumes "header_round p = Inr q"
  obtains pos k v where "find_str CRLF (p_buffer p) = Some pos" "0 < pos" "pos \<le> MAX_HEADER_SIZE"
    "p_header_count p < MAX_HEADER_COUNT" "p_headers_size p + (pos + 2) \<le> MAX_TOTAL_HEADERS"
    "read_header_line (take pos (p_buffer p)) = Some (k, v)"
    "q = p\<lparr>p_headers_size := p_headers_size p + (pos + 2),
      p_request := (p_request p)\<lparr>rq_headers := umap_put k v (rq_headers (p_request p))\<rparr>,
      p_header_count := p_header_count p + 1, p_buffer := drop (pos + 2) (p_buffer p)\<rparr>"
  using assms by (auto simp: header_round_def Let_def split: option.splits if_splits)

lemma header_round_inv_Inr:
  assumes inv: "parser_inv p" and st: "p_state p = HEADERS" and r: "header_round p = Inr q"
  shows "parser_inv q"
  using r
proof (cases rule: header_round_Inr)
  case (1 pos k v)
  note kv = read_header_line_ok [OF 1(6)]
  have "valid_field (k, v)" by (rule kv(1)) (use 1(3) in simp)
  moreover have "length k + length v \<le> pos"
    using kv(2) find_crlf_bound [OF 1(1)] by simp
  ultimately show ?thesis
    using inv st 1 umap_put_set [of k v "rq_headers (p_request p)"]
      umap_put_length [of k v "rq_headers (p_request p)"]
      umap_size_put [of k v "rq_headers (p_request p)"]
    by (auto simp: parser_inv_def valid_headers_def valid_line_def Let_def umap_put_distinct)
qed

lemma parse_headers_inv:
  "parser_inv p \<Longrightarrow> p_state p = HEADERS \<Longrightarrow> parser_inv (parse_headers p)"
proof (induction p rule: parse_headers.induct)
  case (1 p)
  show ?case
  proof (cases "header_round p")
    case (Inl q)
    then show ?thesis
      using header_round_inv_Inl "1.prems" by (simp add: parse_headers.simps [of p])
  next
    case (Inr q)
    then have "parser_inv (parse_headers q)"
      using "1.IH" "1.prems" header_round_inv_Inr header_round_state(2) by auto
    then show ?thesis using Inr by (simp add: parse_headers.simps [of p])
  qed
qed

lemma content_length_body [simp]: "content_length (r\<lparr>rq_body := b\<rparr>) = content_length r"
  by (rule content_length_headers) simp

lemma has_header_body [simp]: "has_header (r\<lparr>rq_body := b\<rparr>) n = has_header r n"
  by (simp add: has_header_def)

lemma parse_body_inv:
  "parser_inv p \<Longrightarrow> p_state p = BODY \<Longrightarrow> parser_inv (parse_body p)"
  by (auto simp: parse_body_def Let_def parser_inv_def parse_error_def valid_body_def
      valid_line_def valid_headers_def)

lemma parse_step_inv: "parser_inv p \<Longrightarrow> parser_inv (parse_step p)"
  by (simp add: parse_step_def parse_request_line_inv parse_headers_inv parse_body_inv)

lemma feed_loop_inv: "parser_inv p \<Longrightarrow> parser_inv (feed_loop p)"
proof (induction p rule: feed_loop.induct)
  case (1 p)
  then show ?case
    by (simp add: feed_loop.simps [of p] Let_def parse_step_inv)
qed

lemma feed_inv: "parser_inv p \<Longrightarrow> parser_inv (snd (feed d p))"
  by (simp add: feed_def Let_def feed_loop_inv)

text \<open>Any number of calls of \<open>feed\<close> on a new or reset parser.\<close>

fun feeds :: "bytes list \<Rightarrow> HttpParser \<Rightarrow> HttpParser" where
  "feeds [] p = p"
| "feeds (d # ds) p = feeds ds (snd (feed d p))"

lemma reset_initial [simp]: "reset p = initial_parser"
  by (simp add: reset_def initial_parser_def)

definition feed_step :: "HttpParser \<Rightarrow> HttpParser \<Rightarrow> bool" where
  "feed_step p q = (\<exists>d. q = snd (feed d p))"

interpretation parser: invariant_system "\<lambda>p. p = initial_parser" feed_step parser_inv
  by unfold_locales (auto simp: feed_step_def feed_inv)

lemma feeds_snoc: "feeds (ds @ [d]) p = snd (feed d (feeds ds p))"
  by (induction ds arbitrary: p) auto

lemma feeds_reach: "reach (\<lambda>p. p = initial_parser) feed_step (feeds ds initial_parser)"
proof (induction ds rule: rev_induct)
  case Nil
  then show ?case by (simp add: reach_init)
next
  case (snoc d ds)
  then show ?case by (auto simp: feeds_snoc feed_step_def intro: reach_step)
qed

lemma feeds_inv: "parser_inv (feeds ds initial_parser)"
  using feeds_reach by (rule parser.reach_inv)

lemma feed_result: "feed d p = (res, q) \<Longrightarrow> res = parse_result q"
  by (auto simp: feed_def parse_result_def Let_def split: if_splits)

lemma feed_complete_state: "feed d p = (R_COMPLETE, q) \<Longrightarrow> p_state q = COMPLETE"
  by (drule feed_result) (simp add: parse_result_def split: if_splits)

lemma feed_error_state: "feed d p = (R_ERROR, q) \<Longrightarrow> p_state q = ERROR"
  by (drule feed_result) (simp add: parse_result_def split: if_splits)

lemma feed_incomplete_state: "feed d p = (R_INCOMPLETE, q) \<Longrightarrow> \<not> terminal q"
  by (drule feed_result) (simp add: parse_result_def terminal_def split: if_splits)

section \<open>Waiting for more input\<close>

lemma parse_request_line_same:
  "p_state (parse_request_line p) = p_state p \<Longrightarrow> p_state p = REQUEST_LINE \<Longrightarrow>
     parse_request_line p = p"
  by (simp add: parse_request_line_def split: option.splits if_splits prod.splits)

lemma parse_body_same:
  "p_state (parse_body p) = p_state p \<Longrightarrow> p_state p = BODY \<Longrightarrow> parse_body p = p"
  by (auto simp: parse_body_def parse_error_def Let_def split: if_splits)

lemma header_round_same:
  "header_round p = Inl q \<Longrightarrow> p_state q = p_state p \<Longrightarrow> p_state p = HEADERS \<Longrightarrow> q = p"
  by (auto simp: header_round_def parse_error_def Let_def split: option.splits if_splits)

text \<open>A header loop that stays in its state stops in a parser whose next round is idle.\<close>

lemma parse_headers_same:
  assumes "p_state p = HEADERS" "p_state (parse_headers p) = HEADERS"
  shows "header_round (parse_headers p) = Inl (parse_headers p)"
  using assms
proof (induction p rule: parse_headers.induct)
  case (1 p)
  show ?case
  proof (cases "header_round p")
    case (Inl q)
    then have "parse_headers p = q" by (simp add: parse_headers.simps [of p])
    moreover then have "q = p" using header_round_same [OF Inl] "1.prems" by simp
    ultimately show ?thesis using Inl by simp
  next
    case (Inr q)
    then show ?thesis
      using "1.IH" "1.prems" header_round_state(2) [OF Inr]
      by (simp add: parse_headers.simps [of p])
  qed
qed

lemma parse_step_same:
  assumes "\<not> terminal p" "p_state (parse_step p) = p_state p"
  shows "parse_step (parse_step p) = parse_step p"
proof (cases "p_state p")
  case REQUEST_LINE
  then show ?thesis using assms parse_request_line_same [of p] by (simp add: parse_step_def)
next
  case HEADERS
  then have "header_round (parse_headers p) = Inl (parse_headers p)"
    using assms parse_headers_same [of p] by (simp add: parse_step_def)
  then show ?thesis using HEADERS assms
    by (simp add: parse_step_def parse_headers.simps [of "parse_headers p"])
next
  case BODY
  then show ?thesis using assms parse_body_same [of p] by (simp add: parse_step_def)
qed (use assms(1) in \<open>auto simp: terminal_def\<close>)

lemma feed_loop_stuck: "\<not> terminal (feed_loop p) \<Longrightarrow> parse_step (feed_loop p) = feed_loop p"
proof (induction p rule: feed_loop.induct)
  case (1 p)
  show ?case
  proof (cases "terminal p")
    case True
    with "1.prems" show ?thesis by (simp add: feed_loop.simps [of p])
  next
    case False
    then show ?thesis
      using "1" parse_step_same [of p] by (auto simp: feed_loop.simps [of p] Let_def)
  qed
qed

definition held_bytes :: "HttpParser \<Rightarrow> nat" where
  "held_bytes p = length (p_buffer p) + umap_size (rq_headers (p_request p)) +
     length (rq_method (p_request p)) + length (rq_target (p_request p))"

lemma stuck_request_line:
  assumes "p_state p = REQUEST_LINE" "parse_step p = p"
  shows "length (p_buffer p) \<le> MAX_REQUEST_LINE"
proof -
  have "p_state (parse_request_line p) = REQUEST_LINE"
    using assms by (simp add: parse_step_def)
  then show ?thesis
    by (simp add: parse_request_line_def split: option.splits if_splits prod.splits)
qed

lemma stuck_headers:
  assumes "p_state p = HEADERS" "parse_step p = p"
  shows "p_headers_size p + length (p_buffer p) \<le> MAX_TOTAL_HEADERS"
proof -
  have idle: "header_round p = Inl p"
    using parse_headers_same [of p] assms by (simp add: parse_step_def)
  have "find_str CRLF (p_buffer p) = None"
    using idle assms(1)
    by (auto simp: header_round_def Let_def split: option.splits if_splits
        dest: arg_cong [where f = p_state])
  moreover then have "p_state (if p_headers_size p + length (p_buffer p) > MAX_TOTAL_HEADERS
       then parse_error HeaderFieldsTooLarge p else p) = HEADERS"
    using idle assms(1) by (simp add: header_round_def)
  ultimately show ?thesis by (simp split: if_splits)
qed

lemma stuck_body:
  assumes "p_state p = BODY" "parse_step p = p"
  shows "length (p_buffer p) < MAX_BODY_SIZE"
proof -
  have "p_state (parse_body p) = BODY" using assms by (simp add: parse_step_def)
  then show ?thesis by (simp add: parse_body_def Let_def split: if_splits)
qed

lemma stuck_held_bytes:
  assumes inv: "parser_inv p" and stuck: "parse_step p = p" and nt: "\<not> terminal p"
  shows "held_bytes p \<le> MAX_REQUEST_LINE + MAX_TOTAL_HEADERS + MAX_BODY_SIZE"
proof (cases "p_state p")
  case REQUEST_LINE
  with inv stuck_request_line [OF _ stuck] show ?thesis
    by (simp add: held_bytes_def parser_inv_def empty_request_def umap_size_def limits)
next
  case HEADERS
  with inv stuck_headers [OF _ stuck] show ?thesis
    by (simp add: held_bytes_def parser_inv_def valid_headers_def valid_line_def Let_def limits)
next
  case BODY
  with inv stuck_body [OF _ stuck] show ?thesis
    by (simp add: held_bytes_def parser_inv_def valid_headers_def valid_line_def Let_def limits)
qed (use nt in \<open>auto simp: terminal_def\<close>)

end
