(* ===== verification/Http_Parser_Chunks.thy ===== *)
theory Http_Parser_Chunks
  imports Http_Parser_Inv
begin

text \<open>
  Incremental parsing: how a call of \<open>feed\<close> relates to feeding the same bytes in more than
  one call.  Appending bytes behind a buffer commutes with every member function that makes
  progress, except where a limit is checked on an unfinished line; \<open>split_safe\<close> says when
  that cannot matter.
\<close>

definition add_bytes :: "bytes \<Rightarrow> HttpParser \<Rightarrow> HttpParser" where
  "add_bytes t p = p\<lparr>p_buffer := p_buffer p @ t\<rparr>"

text \<open>What a caller of the parser can observe: the result, the error code, the request.\<close>

definition outcome :: "HttpParser \<Rightarrow> ParseResult \<times> StatusCode \<times> Request" where
  "outcome p = (parse_result p, p_error_code p, p_request p)"

text \<open>Agreement of two parsers that have both stopped with an error, or are equal.\<close>

definition agree :: "HttpParser \<Rightarrow> HttpParser \<Rightarrow> bool" where
  "agree p q = (p = q \<or> p_state p = ERROR \<and> p_state q = ERROR \<and>
     p_error_code p = p_error_code q \<and> p_request p = p_request q)"

text \<open>
  The bytes so far do not end in the middle of a line terminator, or they are too few for
  any limit.
\<close>

definition split_safe :: "HttpParser \<Rightarrow> bool" where
  "split_safe p =
     (p_headers_size p \<le> MAX_TOTAL_HEADERS \<and>
      (\<not> ends_cr (p_buffer p) \<or> p_headers_size p + length (p_buffer p) \<le> MAX_REQUEST_LINE))"

lemma add_bytes_fields [simp]:
  "p_state (add_bytes t p) = p_state p" "p_request (add_bytes t p) = p_request p"
  "p_error_code (add_bytes t p) = p_error_code p"
  "p_headers_size (add_bytes t p) = p_headers_size p"
  "p_header_count (add_bytes t p) = p_header_count p"
  "p_buffer (add_bytes t p) = p_buffer p @ t"
  by (simp_all add: add_bytes_def)

lemma add_bytes_error [simp]: "add_bytes t (parse_error c p) = parse_error c (add_bytes t p)"
  by (simp add: add_bytes_def parse_error_def)

lemma add_bytes_add [simp]: "add_bytes t (add_bytes s p) = add_bytes (s @ t) p"
  by (simp add: add_bytes_def)

lemma add_bytes_terminal [simp]: "terminal (add_bytes t p) = terminal p"
  by (simp add: terminal_def)

lemma agree_refl [simp]: "agree p p"
  by (simp add: agree_def)

lemma agree_outcome: "agree p q \<Longrightarrow> outcome p = outcome q"
  by (auto simp: agree_def outcome_def parse_result_def)

lemma outcome_add_bytes [simp]: "outcome (add_bytes t p) = outcome p"
  by (simp add: outcome_def parse_result_def)

section \<open>One member function at a time\<close>

lemma parse_request_line_add:
  assumes "p_state p = REQUEST_LINE" "split_safe p" "parse_request_line p \<noteq> p"
  shows "parse_request_line (add_bytes t p) = add_bytes t (parse_request_line p)"
proof (cases "find_str CRLF (p_buffer p)")
  case (Some pos)
  have "find_str CRLF (p_buffer p @ t) = Some pos" using Some by (rule find_str_mono)
  moreover have "pos + 2 \<le> length (p_buffer p)" using Some by (rule find_crlf_bound)
  ultimately show ?thesis
    using Some by (auto simp: parse_request_line_def add_bytes_def parse_error_def
        split: prod.split option.split)
next
  case None
  with assms(3) have long: "length (p_buffer p) > MAX_REQUEST_LINE"
    by (auto simp: parse_request_line_def split: if_splits)
  with assms(2) have "\<not> ends_cr (p_buffer p)" by (auto simp: split_safe_def)
  then have "pos > MAX_REQUEST_LINE" if "find_str CRLF (p_buffer p @ t) = Some pos" for pos
    using find_crlf_None_append_safe [OF None that] long by simp
  then show ?thesis using None long
    by (auto simp: parse_request_line_def split: option.split)
qed

lemma header_round_add_Inr:
  assumes "header_round p = Inr q"
  shows "header_round (add_bytes t p) = Inr (add_bytes t q)"
  using assms
proof (cases rule: header_round_Inr)
  case (1 pos k v)
  then show ?thesis
    using find_str_mono [OF 1(1), of t] find_crlf_bound [OF 1(1)]
    by (simp add: header_round_def Let_def add_bytes_def)
qed

text \<open>An unfinished line that is over the limit stays over it when it is finished.\<close>

lemma header_round_add_long:
  assumes none: "find_str CRLF (p_buffer p) = None"
    and long: "p_headers_size p + length (p_buffer p) > MAX_TOTAL_HEADERS"
    and safe: "split_safe p"
  shows "\<exists>q. header_round (add_bytes t p) = Inl q \<and> agree q (parse_error HeaderFieldsTooLarge p)"
proof (cases "find_str CRLF (p_buffer p @ t)")
  case None
  then show ?thesis using long by (auto simp: header_round_def agree_def)
next
  case (Some pos)
  from long safe have cr: "\<not> ends_cr (p_buffer p)" "p_headers_size p \<le> MAX_TOTAL_HEADERS"
    by (auto simp: split_safe_def limits)
  have "length (p_buffer p) \<le> pos" using none Some cr(1) by (rule find_crlf_None_append_safe)
  with long cr(2) have "pos \<noteq> 0" "p_headers_size p + (pos + 2) > MAX_TOTAL_HEADERS" by auto
  then show ?thesis using Some
    by (auto simp: header_round_def Let_def agree_def)
qed

lemma header_round_add_Inl:
  assumes st: "p_state p = HEADERS" and safe: "split_safe p"
    and r: "header_round p = Inl q" and change: "p_state q \<noteq> HEADERS"
  shows "\<exists>q'. header_round (add_bytes t p) = Inl q' \<and> agree q' (add_bytes t q)"
proof (cases "find_str CRLF (p_buffer p)")
  case None
  with r change st have "q = parse_error HeaderFieldsTooLarge p"
    "p_headers_size p + length (p_buffer p) > MAX_TOTAL_HEADERS"
    by (auto simp: header_round_def split: if_splits)
  with header_round_add_long [OF None _ safe, of t] show ?thesis
    by (auto simp: agree_def)
next
  case (Some pos)
  then show ?thesis
    using r find_str_mono [OF Some, of t] find_crlf_bound [OF Some]
    by (auto simp: header_round_def Let_def agree_def add_bytes_def parse_error_def
        split: if_splits option.splits)
qed

lemma split_safe_line:
  "split_safe p \<Longrightarrow> find_str CRLF (p_buffer p) = Some pos \<Longrightarrow>
     split_safe (p\<lparr>p_buffer := drop n (p_buffer p)\<rparr>)"
  by (auto simp: split_safe_def ends_cr_drop)

lemma split_safe_parse_request_line:
  "split_safe p \<Longrightarrow> split_safe (parse_request_line p)"
  by (auto simp: split_safe_def parse_request_line_def parse_error_def ends_cr_drop
      split: option.split prod.split)

lemma split_safe_header_round:
  assumes "split_safe p" "header_round p = Inr q"
  shows "split_safe q"
  using assms(2)
proof (cases rule: header_round_Inr)
  case (1 pos k v)
  with assms(1) find_crlf_bound [OF 1(1)] show ?thesis
    by (auto simp: split_safe_def ends_cr_drop)
qed

lemma parse_headers_add:
  assumes "p_state p = HEADERS" "split_safe p"
  shows "if p_state (parse_headers p) = HEADERS
         then parse_headers (add_bytes t p) = parse_headers (add_bytes t (parse_headers p))
         else agree (parse_headers (add_bytes t p)) (add_bytes t (parse_headers p))"
  using assms
proof (induction p rule: parse_headers.induct)
  case (1 p)
  show ?case
  proof (cases "header_round p")
    case (Inl q)
    then have eq: "parse_headers p = q" by (simp add: parse_headers.simps [of p])
    show ?thesis
    proof (cases "p_state q = HEADERS")
      case True
      then have "q = p" using header_round_same [OF Inl] "1.prems" by simp
      with eq True show ?thesis by simp
    next
      case False
      then obtain q' where "header_round (add_bytes t p) = Inl q'" "agree q' (add_bytes t q)"
        using header_round_add_Inl [OF "1.prems" Inl] by blast
      with eq False show ?thesis by (simp add: parse_headers.simps [of "add_bytes t p"])
    qed
  next
    case (Inr q)
    then have "parse_headers (add_bytes t p) = parse_headers (add_bytes t q)"
      by (simp add: parse_headers.simps [of "add_bytes t p"] header_round_add_Inr)
    moreover have "parse_headers p = parse_headers q"
      using Inr by (simp add: parse_headers.simps [of p])
    moreover have "p_state q = HEADERS" "split_safe q"
      using Inr "1.prems" header_round_state(2) split_safe_header_round by auto
    ultimately show ?thesis using "1.IH" [OF Inr] by simp
  qed
qed

lemma parse_body_add:
  assumes "p_state p = BODY" "p_state (parse_body p) \<noteq> BODY"
  shows "parse_body (add_bytes t p) = add_bytes t (parse_body p)"
  using assms by (auto simp: parse_body_def Let_def add_bytes_def parse_error_def split: if_splits)

text \<open>All three together: a step that leaves its state.\<close>

lemma parse_step_add:
  assumes "\<not> terminal p" "split_safe p" "p_state (parse_step p) \<noteq> p_state p"
  shows "agree (parse_step (add_bytes t p)) (add_bytes t (parse_step p))"
proof (cases "p_state p")
  case REQUEST_LINE
  moreover with assms(3) have "parse_request_line p \<noteq> p" by (auto simp: parse_step_def)
  ultimately show ?thesis
    using parse_request_line_add [of p t] assms(2) by (simp add: parse_step_def)
next
  case HEADERS
  with assms show ?thesis
    using parse_headers_add [of p t] by (simp add: parse_step_def)
next
  case BODY
  with assms show ?thesis
    using parse_body_add [of p t] by (simp add: parse_step_def)
qed (use assms(1) in \<open>auto simp: terminal_def\<close>)

lemma parse_headers_split_safe:
  "split_safe p \<Longrightarrow> p_state (parse_headers p) \<noteq> ERROR \<Longrightarrow> split_safe (parse_headers p)"
proof (induction p rule: parse_headers.induct)
  case (1 p)
  show ?case
  proof (cases "header_round p")
    case (Inl q)
    then have "parse_headers p = q" by (simp add: parse_headers.simps [of p])
    moreover have "p_state q \<noteq> ERROR \<Longrightarrow> split_safe q"
      using Inl "1.prems"(1)
      by (auto simp: header_round_def Let_def split_safe_def ends_cr_drop
          split: option.splits if_splits)
    ultimately show ?thesis using "1.prems"(2) by simp
  next
    case (Inr q)
    then show ?thesis
      using "1.IH" [OF Inr] "1.prems" split_safe_header_round by (simp add: parse_headers.simps [of p])
  qed
qed

lemma split_safe_parse_body: "split_safe p \<Longrightarrow> split_safe (parse_body p)"
  by (auto simp: parse_body_def Let_def split_safe_def ends_cr_drop parse_error_def)

lemma parse_step_split_safe:
  "split_safe p \<Longrightarrow> p_state (parse_step p) \<noteq> ERROR \<Longrightarrow> split_safe (parse_step p)"
  by (simp add: parse_step_def split_safe_parse_request_line parse_headers_split_safe
      split_safe_parse_body split: if_splits)

text \<open>A step that stays in its state can be repeated after the bytes have come.\<close>

lemma parse_step_add_same:
  assumes "\<not> terminal p" "split_safe p" "p_state (parse_step p) = p_state p"
  shows "parse_step (add_bytes t p) = parse_step (add_bytes t (parse_step p))"
proof (cases "p_state p")
  case HEADERS
  with assms show ?thesis
    using parse_headers_add [of p t] by (simp add: parse_step_def)
next
  case REQUEST_LINE
  with assms show ?thesis
    using parse_request_line_same [of p] by (simp add: parse_step_def)
next
  case BODY
  with assms show ?thesis using parse_body_same [of p] by (simp add: parse_step_def)
qed (use assms(1) in \<open>auto simp: terminal_def\<close>)

section \<open>The loop of \<open>feed\<close>\<close>

lemma feed_loop_step: "\<not> terminal p \<Longrightarrow> p_state (parse_step p) \<noteq> p_state p \<Longrightarrow>
    feed_loop p = feed_loop (parse_step p)"
  by (simp add: feed_loop.simps [of p] Let_def)

lemma feed_loop_idle: "\<not> terminal p \<Longrightarrow> p_state (parse_step p) = p_state p \<Longrightarrow>
    feed_loop p = parse_step p"
  by (simp add: feed_loop.simps [of p] Let_def)

lemma feed_loop_terminal: "terminal p \<Longrightarrow> feed_loop p = p"
  by (simp add: feed_loop.simps [of p])

lemma feed_loop_same_step:
  "\<not> terminal p \<Longrightarrow> p_state p = p_state q \<Longrightarrow> parse_step p = parse_step q \<Longrightarrow>
     feed_loop p = feed_loop q"
  by (simp add: feed_loop.simps [of p] feed_loop.simps [of q] Let_def terminal_def)

lemma feed_loop_add:
  assumes "split_safe p"
  shows "if terminal (feed_loop p)
         then agree (feed_loop (add_bytes t p)) (add_bytes t (feed_loop p))
         else feed_loop (add_bytes t p) = feed_loop (add_bytes t (feed_loop p))"
  using assms
proof (induction p rule: feed_loop.induct)
  case (1 p)
  consider (stop) "terminal p" | (idle) "\<not> terminal p" "p_state (parse_step p) = p_state p"
    | (go) "\<not> terminal p" "p_state (parse_step p) \<noteq> p_state p" by blast
  then show ?case
  proof cases
    case stop
    then show ?thesis by (simp add: feed_loop_terminal)
  next
    case idle
    then have "feed_loop (add_bytes t p) = feed_loop (add_bytes t (parse_step p))"
      using parse_step_add_same [OF idle(1) "1.prems" idle(2)]
      by (intro feed_loop_same_step) simp_all
    with idle show ?thesis by (simp add: feed_loop_idle terminal_def)
  next
    case go
    have ag: "agree (parse_step (add_bytes t p)) (add_bytes t (parse_step p))"
      using go(1) "1.prems" go(2) by (rule parse_step_add)
    then have st: "p_state (parse_step (add_bytes t p)) = p_state (parse_step p)"
      by (auto simp: agree_def)
    have next_t: "feed_loop (add_bytes t p) = feed_loop (parse_step (add_bytes t p))"
      using go st by (intro feed_loop_step) simp_all
    show ?thesis
    proof (cases "p_state (parse_step p) = ERROR")
      case True
      then have "terminal (parse_step p)" "terminal (parse_step (add_bytes t p))"
        using st by (simp_all add: terminal_def)
      with go ag next_t show ?thesis by (simp add: feed_loop_step feed_loop_terminal)
    next
      case False
      then have "parse_step (add_bytes t p) = add_bytes t (parse_step p)"
        using ag by (simp add: agree_def)
      moreover have "split_safe (parse_step p)"
        using "1.prems" False by (rule parse_step_split_safe)
      ultimately show ?thesis
        using "1.IH" [OF go(1) refl] go next_t by (simp add: feed_loop_step)
    qed
  qed
qed

lemma feed_loop_error: "p_state (feed_loop p) \<noteq> ERROR \<Longrightarrow> p_state p \<noteq> ERROR"
  by (auto simp: feed_loop.simps [of p] terminal_def)

lemma feed_loop_split_safe:
  "split_safe p \<Longrightarrow> p_state (feed_loop p) \<noteq> ERROR \<Longrightarrow> split_safe (feed_loop p)"
proof (induction p rule: feed_loop.induct)
  case (1 p)
  then show ?case
    using parse_step_split_safe [of p] feed_loop_error [of "parse_step p"]
    by (simp add: feed_loop.simps [of p] Let_def split: if_splits)
qed

lemma feed_snd: "snd (feed d p) = (if terminal p then p else feed_loop (add_bytes d p))"
  by (auto simp: feed_def terminal_def Let_def add_bytes_def)

text \<open>Two calls of \<open>feed\<close> against one.\<close>

lemma feed_feed:
  assumes "\<not> terminal p \<longrightarrow> split_safe (add_bytes a p)"
  shows "outcome (snd (feed b (snd (feed a p)))) = outcome (snd (feed (a @ b) p))"
proof (cases "terminal p")
  case True
  then show ?thesis by (simp add: feed_snd)
next
  case False
  let ?r = "add_bytes a p"
  from assms False have safe: "split_safe ?r" by simp
  note add = feed_loop_add [OF safe, of b]
  show ?thesis
  proof (cases "terminal (feed_loop ?r)")
    case True
    then have "agree (feed_loop (add_bytes (a @ b) p)) (add_bytes b (feed_loop ?r))"
      using add by simp
    then show ?thesis using False True by (simp add: feed_snd agree_outcome)
  next
    case nt: False
    then show ?thesis using False add by (simp add: feed_snd)
  qed
qed

section \<open>Any number of calls\<close>

text \<open>What is left of the budget of bytes, or the absence of a split line terminator,
  is kept by \<open>feed\<close>.\<close>

definition budget :: "nat \<Rightarrow> HttpParser \<Rightarrow> bool" where
  "budget n p =
     (terminal p \<or> split_safe p \<and> p_headers_size p + length (p_buffer p) + n \<le> MAX_REQUEST_LINE)"

lemma header_round_size:
  "header_round p = Inr q \<Longrightarrow>
     p_headers_size q + length (p_buffer q) \<le> p_headers_size p + length (p_buffer p)"
  by (erule header_round_Inr) (auto dest: find_crlf_bound)

lemma parse_headers_size:
  "p_state (parse_headers p) \<noteq> ERROR \<Longrightarrow>
     p_headers_size (parse_headers p) + length (p_buffer (parse_headers p))
       \<le> p_headers_size p + length (p_buffer p)"
proof (induction p rule: parse_headers.induct)
  case (1 p)
  show ?case
  proof (cases "header_round p")
    case (Inl q)
    then show ?thesis using "1.prems"
      by (auto simp: parse_headers.simps [of p] header_round_def Let_def
          split: option.splits if_splits)
  next
    case (Inr q)
    then show ?thesis
      using "1.IH" [OF Inr] "1.prems" header_round_size [OF Inr]
      by (simp add: parse_headers.simps [of p])
  qed
qed

lemma parse_step_size:
  "p_state (parse_step p) \<noteq> ERROR \<Longrightarrow>
     p_headers_size (parse_step p) + length (p_buffer (parse_step p))
       \<le> p_headers_size p + length (p_buffer p)"
  using parse_headers_size [of p]
  by (auto simp: parse_step_def parse_request_line_def parse_body_def Let_def
      split: option.split prod.split)

lemma feed_loop_size:
  "p_state (feed_loop p) \<noteq> ERROR \<Longrightarrow>
     p_headers_size (feed_loop p) + length (p_buffer (feed_loop p))
       \<le> p_headers_size p + length (p_buffer p)"
proof (induction p rule: feed_loop.induct)
  case (1 p)
  have "p_headers_size (feed_loop p) + length (p_buffer (feed_loop p))
      \<le> p_headers_size (parse_step p) + length (p_buffer (parse_step p))"
    if "\<not> terminal p" "p_state (parse_step p) \<noteq> p_state p"
    using "1.IH" [OF that(1) refl that(2)] "1.prems" that by (simp add: feed_loop_step)
  then show ?case
    using "1.prems" parse_step_size [of p] feed_loop_error [of "parse_step p"]
    by (fastforce simp: feed_loop.simps [of p] Let_def split: if_splits)
qed

lemma budget_feed:
  assumes "budget (length d + n) p"
  shows "budget n (snd (feed d p))"
proof (cases "terminal p \<or> terminal (feed_loop (add_bytes d p))")
  case True
  then show ?thesis by (auto simp: feed_snd budget_def)
next
  case False
  then have "split_safe (add_bytes d p)" "p_state (feed_loop (add_bytes d p)) \<noteq> ERROR"
    using assms by (auto simp: budget_def split_safe_def terminal_def)
  then show ?thesis
    using False assms feed_loop_split_safe feed_loop_size [of "add_bytes d p"]
    by (auto simp: feed_snd budget_def)
qed

lemma feeds_concat_budget:
  "budget (length (concat (d # ds))) p \<Longrightarrow>
     outcome (feeds (d # ds) p) = outcome (snd (feed (concat (d # ds)) p))"
proof (induction ds arbitrary: d p)
  case Nil
  then show ?case by simp
next
  case (Cons e ds)
  have b: "budget (length (concat (e # ds))) (snd (feed d p))"
    using Cons.prems by (intro budget_feed) (simp add: add.assoc)
  have "outcome (feeds (d # e # ds) p) = outcome (feeds (e # ds) (snd (feed d p)))"
    by simp
  also have "\<dots> = outcome (snd (feed (concat (e # ds)) (snd (feed d p))))"
    using b by (rule Cons.IH)
  also have "\<dots> = outcome (snd (feed (d @ concat (e # ds)) p))"
    using Cons.prems by (intro feed_feed) (auto simp: budget_def split_safe_def)
  finally show ?case by simp
qed

definition unsplit :: "HttpParser \<Rightarrow> bool" where
  "unsplit p = (terminal p \<or> p_headers_size p \<le> MAX_TOTAL_HEADERS \<and> \<not> ends_cr (p_buffer p))"

lemma parse_headers_no_cr:
  "\<not> ends_cr (p_buffer p) \<Longrightarrow> \<not> ends_cr (p_buffer (parse_headers p))"
proof (induction p rule: parse_headers.induct)
  case (1 p)
  show ?case
  proof (cases "header_round p")
    case (Inl q)
    then show ?thesis using "1.prems"
      by (auto simp: parse_headers.simps [of p] header_round_def Let_def ends_cr_drop
          split: option.splits if_splits)
  next
    case (Inr q)
    then have "\<not> ends_cr (p_buffer q)"
      using "1.prems" by (auto elim!: header_round_Inr simp: ends_cr_drop)
    with Inr "1.IH" show ?thesis by (simp add: parse_headers.simps [of p])
  qed
qed

lemma feed_loop_no_cr: "\<not> ends_cr (p_buffer p) \<Longrightarrow> \<not> ends_cr (p_buffer (feed_loop p))"
proof (induction p rule: feed_loop.induct)
  case (1 p)
  have "\<not> ends_cr (p_buffer (parse_step p))"
    using "1.prems" parse_headers_no_cr [of p]
    by (auto simp: parse_step_def parse_request_line_def parse_body_def Let_def ends_cr_drop
        split: option.split prod.split)
  then show ?case using "1" by (simp add: feed_loop.simps [of p] Let_def)
qed

lemma unsplit_feed:
  assumes "unsplit p" "\<not> ends_cr d"
  shows "unsplit (snd (feed d p))"
proof (cases "terminal p \<or> terminal (feed_loop (add_bytes d p))")
  case True
  then show ?thesis by (auto simp: feed_snd unsplit_def)
next
  case False
  then have cr: "\<not> ends_cr (p_buffer (add_bytes d p))" "p_headers_size p \<le> MAX_TOTAL_HEADERS"
    using assms by (cases "d = []"; auto simp: unsplit_def ends_cr_append)+
  then have "split_safe (feed_loop (add_bytes d p))"
    using False by (intro feed_loop_split_safe) (auto simp: split_safe_def terminal_def)
  with False cr feed_loop_no_cr [of "add_bytes d p"] show ?thesis
    by (auto simp: feed_snd unsplit_def split_safe_def)
qed

lemma feeds_concat_unsplit:
  "unsplit p \<Longrightarrow> \<forall>c\<in>set (butlast (d # ds)). \<not> ends_cr c \<Longrightarrow>
     outcome (feeds (d # ds) p) = outcome (snd (feed (concat (d # ds)) p))"
proof (induction ds arbitrary: d p)
  case Nil
  then show ?case by simp
next
  case (Cons e ds)
  then have d: "\<not> ends_cr d" by simp
  have "outcome (feeds (d # e # ds) p) = outcome (feeds (e # ds) (snd (feed d p)))"
    by simp
  also have "\<dots> = outcome (snd (feed (concat (e # ds)) (snd (feed d p))))"
    using Cons.prems d by (intro Cons.IH unsplit_feed) auto
  also have "\<dots> = outcome (snd (feed (d @ concat (e # ds)) p))"
    using Cons.prems(1) d
    by (intro feed_feed) (cases "d = []"; auto simp: unsplit_def split_safe_def ends_cr_append)
  finally show ?case by simp
qed

end
