(* ===== verification/Http_Grammar.thy ===== *)
theory Http_Grammar
  imports Http_Parser_Chunks
begin

text \<open>
  The language of the parser: a grammar of requests, free of buffers and states, with the
  server's limits, and the proof that \<open>feed\<close> decides it, in both directions.  The member
  functions are taken one by one: each is left with its next state exactly on the words of
  its part of the grammar.
\<close>

section \<open>Lines\<close>

text \<open>A line is a word without a line terminator in it.\<close>

definition one_line :: "string \<Rightarrow> bool" where
  "one_line l = (find_str CRLF l = None)"

lemma one_line_find: "one_line l \<Longrightarrow> find_str CRLF (l @ CRLF @ rest) = Some (length l)"
proof (induction l)
  case (Cons c l)
  then have "one_line l" "\<not> starts_with (c # l) CRLF"
    by (auto simp: one_line_def split: if_splits)
  moreover from this have "\<not> starts_with (c # l @ CRLF @ rest) CRLF" by (cases l) auto
  ultimately show ?case using Cons.IH by simp
qed (simp add: one_line_def)

lemma find_line:
  assumes "find_str CRLF s = Some pos"
  obtains l rest where "s = l @ CRLF @ rest" "length l = pos" "one_line l" "l = take pos s" "rest = drop (pos + 2) s"
proof -
  from assms have at: "pos \<le> length s" "starts_with (drop pos s) CRLF"
    and before: "\<And>j. j < pos \<Longrightarrow> \<not> starts_with (drop j s) CRLF" by (auto simp: find_str_Some_iff)
  from at(2) obtain rest where "drop pos s = CRLF @ rest" by (auto simp: starts_with_ex)
  with at(1) have s: "s = take pos s @ CRLF @ rest" by (metis append_take_drop_id)
  have "\<not> starts_with (drop j (take pos s)) CRLF" if "j \<le> pos" for j
  proof (cases "j = pos")
    case False
    then have "\<not> starts_with (drop j (take pos s) @ drop pos s) CRLF"
      using before [of j] that at(1) by (metis append_take_drop_id drop_append drop_eq_Nil2 le_neq_implies_less
        append_Nil2 length_take min.absorb2 nat_le_linear diff_is_0_eq' drop0)
    then show ?thesis using starts_with_mono by blast
  qed simp
  then have "one_line (take pos s)" by (simp add: one_line_def find_str_None_iff)
  moreover have "rest = drop (pos + 2) s" using at(1) by (subst s) simp
  ultimately show ?thesis using that [of "take pos s" rest] s at(1) by simp
qed

lemma one_line_no_cr: "CR \<notin> set l \<Longrightarrow> one_line l"
  by (induction l) (auto simp: one_line_def)

section \<open>The grammar\<close>

definition request_line :: "string \<Rightarrow> string \<Rightarrow> string" where
  "request_line m t = m @ SP # t @ SP # ''HTTP/1.1''"

text \<open>A header field as it stands on its line: name, colon, and everything behind it.\<close>

definition field_text :: "string \<times> string \<Rightarrow> string" where
  "field_text kv = fst kv @ CHR '':'' # snd kv"

definition fields_text :: "(string \<times> string) list \<Rightarrow> bytes" where
  "fields_text fs = concat (map (\<lambda>kv. field_text kv @ CRLF) fs)"

definition message_text :: "string \<Rightarrow> string \<Rightarrow> (string \<times> string) list \<Rightarrow> string \<Rightarrow> bytes" where
  "message_text m t fs b = request_line m t @ CRLF @ fields_text fs @ CRLF @ b"

text \<open>The request a message stands for: names in lower case, values trimmed, and of two fields of
  one name the later.\<close>

definition stored_headers :: "(string \<times> string) list \<Rightarrow> umap" where
  "stored_headers hs = fold (\<lambda>(k, v) m. umap_put (to_lower k) (trim v) m) hs []"

definition sent_request :: "string \<Rightarrow> string \<Rightarrow> (string \<times> string) list \<Rightarrow> string \<Rightarrow> Request" where
  "sent_request m t hs b = \<lparr>rq_method = m, rq_target = t, rq_version = ''HTTP/1.1'',
     rq_headers = stored_headers hs, rq_body = b\<rparr>"

text \<open>The conditions on a message, grammar and limits.\<close>

definition legal_line :: "string \<Rightarrow> string \<Rightarrow> bool" where
  "legal_line m t =
     (m \<in> set allowed_methods \<and> t \<noteq> [] \<and> hd t = CHR ''/'' \<and> SP \<notin> set t \<and> one_line t \<and>
      length (request_line m t) \<le> MAX_REQUEST_LINE)"

definition legal_field :: "string \<times> string \<Rightarrow> bool" where
  "legal_field kv =
     (SP \<notin> set (fst kv) \<and> CHR '':'' \<notin> set (fst kv) \<and> one_line (field_text kv) \<and>
      length (field_text kv) \<le> MAX_HEADER_SIZE)"

definition legal_fields :: "(string \<times> string) list \<Rightarrow> bool" where
  "legal_fields fs =
     (list_all legal_field fs \<and> int (length fs) \<le> MAX_HEADER_COUNT \<and>
      length (fields_text fs) \<le> MAX_TOTAL_HEADERS)"

definition legal :: "string \<Rightarrow> string \<Rightarrow> (string \<times> string) list \<Rightarrow> string \<Rightarrow> bool" where
  "legal m t fs b = (legal_line m t \<and> legal_fields fs \<and> valid_body (sent_request m t fs b))"

section \<open>The request line\<close>

lemma method_no_space: "m \<in> set allowed_methods \<Longrightarrow> SP \<notin> set m \<and> CR \<notin> set m"
  by (auto simp: allowed_methods_def)

lemma find_char_split:
  assumes "find_char c s = Some i"
  shows "s = take i s @ c # drop (i + 1) s" "c \<notin> set (take i s)"
  using assms id_take_nth_drop [of i s] by (auto simp: find_char_Some)

lemma read_request_line_None:
  "read_request_line l r = (None, r') \<longleftrightarrow>
     (\<exists>m t. l = request_line m t \<and> m \<in> set allowed_methods \<and> t \<noteq> [] \<and> hd t = CHR ''/'' \<and> SP \<notin> set t \<and>
        r' = r\<lparr>rq_method := m, rq_target := t, rq_version := ''HTTP/1.1''\<rparr>)" (is "?lhs = ?rhs")
proof
  assume ?lhs
  then obtain i j where i: "find_char SP l = Some i" and j: "find_char_from SP l (i + 1) = Some j"
    by (auto simp: read_request_line_def split: option.splits)
  define m where "m = take i l"
  define u where "u = drop (i + 1) l"
  obtain k where k: "find_char SP u = Some k" "j = k + (i + 1)"
    using j by (auto simp: find_char_from_def u_def)
  note l = find_char_split [OF i, folded m_def u_def]
  note u = find_char_split [OF k(1)]
  define v where "v = take k u"
  define w where "w = drop (k + 1) u"
  have "j - i - 1 = k" "drop (j + 1) l = w" using k(2) by (simp_all add: u_def w_def add.commute)
  then have "read_request_line l r = (let r1 = r\<lparr>rq_method := m, rq_target := v, rq_version := w\<rparr> in
      if m \<notin> set allowed_methods then (Some MethodNotAllowed, r1)
      else if v = [] \<or> hd v \<noteq> CHR ''/'' then (Some BadRequest, r1)
      else if w \<noteq> ''HTTP/1.1'' then (Some BadRequest, r1) else (None, r1))"
    unfolding read_request_line_def i j option.case
    by (simp only: m_def [symmetric] u_def [symmetric] v_def [symmetric]) (simp add: allowed_methods_def Let_def)
  with \<open>?lhs\<close> have "m \<in> set allowed_methods \<and> v \<noteq> [] \<and> hd v = CHR ''/'' \<and> w = ''HTTP/1.1'' \<and>
      r' = r\<lparr>rq_method := m, rq_target := v, rq_version := w\<rparr>"
    by (simp add: Let_def split: if_splits)
  moreover from this l u have "l = request_line m v" by (simp add: request_line_def v_def w_def)
  moreover have "SP \<notin> set v" using u(2) by (simp add: v_def)
  ultimately show ?rhs by blast
next
  assume ?rhs
  then obtain m t where l: "l = request_line m t" and m: "m \<in> set allowed_methods"
    and t: "t \<noteq> []" "hd t = CHR ''/''" "SP \<notin> set t"
    and r': "r' = r\<lparr>rq_method := m, rq_target := t, rq_version := ''HTTP/1.1''\<rparr>" by blast
  have "find_char SP l = Some (length m)"
    using method_no_space [OF m] by (simp add: l request_line_def find_char_append_notin)
  moreover have "find_char_from SP l (Suc (length m)) = Some (length t + Suc (length m))"
    using t(3) by (simp add: l request_line_def find_char_from_def find_char_append_notin)
  moreover have "take (length m) l = m" "take (length t) (drop (Suc (length m)) l) = t"
    "drop (Suc (length t + Suc (length m))) l = ''HTTP/1.1''"
    by (simp_all add: l request_line_def)
  ultimately show ?lhs using m t(1,2) by (simp add: read_request_line_def Let_def allowed_methods_def r')
qed

lemma one_line_request_line:
  assumes "m \<in> set allowed_methods" "SP \<notin> set t"
  shows "one_line (request_line m t) = one_line t"
proof -
  have step: "one_line (c # l) = one_line l" if "c \<noteq> CR" for c l
    using that by (simp add: one_line_def)
  have pre: "one_line (m @ SP # l) = one_line l" for l
    using assms(1) by (auto simp: allowed_methods_def step)
  have post: "one_line (t @ SP # ''HTTP/1.1'') = one_line t"
  proof (induction t)
    case Nil
    show ?case by (simp add: one_line_def)
  next
    case (Cons c t)
    moreover have "starts_with ((c # t) @ SP # ''HTTP/1.1'') CRLF = starts_with (c # t) CRLF" by (cases t) auto
    ultimately show ?case by (simp add: one_line_def)
  qed
  show ?thesis by (simp add: request_line_def pre post)
qed

definition after_line :: "string \<Rightarrow> string \<Rightarrow> bytes \<Rightarrow> HttpParser \<Rightarrow> HttpParser" where
  "after_line m t rest p =
     p\<lparr>p_request := (p_request p)\<lparr>rq_method := m, rq_target := t, rq_version := ''HTTP/1.1''\<rparr>,
       p_buffer := rest, p_state := HEADERS\<rparr>"

lemma parse_request_line_words:
  assumes "p_state p = REQUEST_LINE"
  shows "parse_request_line p = q \<and> p_state q = HEADERS \<longleftrightarrow>
    (\<exists>m t rest. p_buffer p = request_line m t @ CRLF @ rest \<and> legal_line m t \<and> q = after_line m t rest p)"
    (is "?lhs \<longleftrightarrow> ?rhs")
proof
  assume lhs: ?lhs
  then obtain pos where pos: "find_str CRLF (p_buffer p) = Some pos" "pos \<le> MAX_REQUEST_LINE"
    using assms by (auto simp: parse_request_line_def split: option.splits if_splits)
  from pos(1) obtain l rest where l: "p_buffer p = l @ CRLF @ rest" "length l = pos" "one_line l"
    by (rule find_line)
  from lhs pos l have "read_request_line l (p_request p) = (None, p_request q) \<and>
      q = p\<lparr>p_request := p_request q, p_buffer := rest, p_state := HEADERS\<rparr>"
    by (auto simp: parse_request_line_def split: prod.splits option.splits)
  moreover from this obtain m t where "l = request_line m t" "m \<in> set allowed_methods" "t \<noteq> []"
    "hd t = CHR ''/''" "SP \<notin> set t"
    "p_request q = (p_request p)\<lparr>rq_method := m, rq_target := t, rq_version := ''HTTP/1.1''\<rparr>"
    unfolding read_request_line_None by blast
  ultimately show ?rhs
    using l pos(2) one_line_request_line [of m t]
    by (intro exI [of _ m] exI [of _ t] exI [of _ rest]) (simp add: legal_line_def after_line_def)
next
  assume ?rhs
  then obtain m t rest where q: "p_buffer p = request_line m t @ CRLF @ rest" "legal_line m t"
    "q = after_line m t rest p" by blast
  then have "one_line (request_line m t)" "length (request_line m t) \<le> MAX_REQUEST_LINE"
    using one_line_request_line [of m t] by (auto simp: legal_line_def)
  moreover have "read_request_line (request_line m t) (p_request p) =
      (None, (p_request p)\<lparr>rq_method := m, rq_target := t, rq_version := ''HTTP/1.1''\<rparr>)"
    using q(2) by (subst read_request_line_None) (auto simp: legal_line_def)
  ultimately show ?lhs
    using q one_line_find [of "request_line m t" rest] by (simp add: parse_request_line_def after_line_def)
qed

section \<open>The header fields\<close>

lemma read_header_line_Some:
  "read_header_line l = Some kv \<longleftrightarrow>
     (\<exists>k v. l = field_text (k, v) \<and> SP \<notin> set k \<and> CHR '':'' \<notin> set k \<and> kv = (to_lower k, trim v))"
    (is "?lhs \<longleftrightarrow> ?rhs")
proof
  assume lhs: ?lhs
  then obtain i where i: "find_char CHR '':'' l = Some i" by (auto simp: read_header_line_def split: option.splits)
  from lhs i have "SP \<notin> set (take i l)" "kv = (to_lower (take i l), trim (drop (i + 1) l))"
    by (auto simp: read_header_line_def Let_def find_char_None split: if_splits)
  with find_char_split [OF i] show ?rhs
    by (intro exI [of _ "take i l"] exI [of _ "drop (i + 1) l"]) (simp add: field_text_def)
next
  assume ?rhs
  then show ?lhs
    by (auto simp: read_header_line_def field_text_def find_char_append_notin find_char_None Let_def)
qed

definition after_field :: "string \<times> string \<Rightarrow> bytes \<Rightarrow> HttpParser \<Rightarrow> HttpParser" where
  "after_field kv rest p =
     p\<lparr>p_headers_size := p_headers_size p + (length (field_text kv) + 2),
       p_request := (p_request p)\<lparr>rq_headers :=
         umap_put (to_lower (fst kv)) (trim (snd kv)) (rq_headers (p_request p))\<rparr>,
       p_header_count := p_header_count p + 1, p_buffer := rest\<rparr>"

text \<open>A buffer that starts with a legal field, within the counters.\<close>

definition field_word :: "HttpParser \<Rightarrow> string \<times> string \<Rightarrow> bytes \<Rightarrow> bool" where
  "field_word p kv rest =
     (p_buffer p = field_text kv @ CRLF @ rest \<and> legal_field kv \<and> p_header_count p < MAX_HEADER_COUNT \<and>
      p_headers_size p + (length (field_text kv) + 2) \<le> MAX_TOTAL_HEADERS)"

text \<open>A round of the loop goes on exactly on a legal field, within the two counters.\<close>

lemma header_round_goes_on:
  "header_round p = Inr q \<longleftrightarrow>
     (\<exists>kv rest. field_word p kv rest \<and> q = after_field kv rest p)"
    (is "?lhs \<longleftrightarrow> ?rhs")
proof
  assume lhs: ?lhs
  then obtain pos where pos: "find_str CRLF (p_buffer p) = Some pos" "pos \<noteq> 0" "pos \<le> MAX_HEADER_SIZE"
    "p_header_count p < MAX_HEADER_COUNT" "p_headers_size p + (pos + 2) \<le> MAX_TOTAL_HEADERS"
    by (auto simp: header_round_def Let_def split: option.splits if_splits)
  from pos(1) obtain l rest where l: "p_buffer p = l @ CRLF @ rest" "length l = pos" "one_line l"
    by (rule find_line)
  from lhs pos l obtain k v where kv: "read_header_line l = Some (k, v)"
    by (auto simp: header_round_def Let_def split: option.splits)
  with lhs pos l have q: "q = p\<lparr>p_headers_size := p_headers_size p + (pos + 2),
      p_request := (p_request p)\<lparr>rq_headers := umap_put k v (rq_headers (p_request p))\<rparr>,
      p_header_count := p_header_count p + 1, p_buffer := rest\<rparr>"
    by (auto simp: header_round_def Let_def)
  from kv obtain k' v' where "l = field_text (k', v')" "SP \<notin> set k'" "CHR '':'' \<notin> set k'"
    "k = to_lower k'" "v = trim v'" unfolding read_header_line_Some by blast
  with l pos q show ?rhs
    by (intro exI [of _ "(k', v')"] exI [of _ rest]) (simp add: legal_field_def after_field_def field_word_def)
next
  assume ?rhs
  then obtain k v rest where q: "p_buffer p = field_text (k, v) @ CRLF @ rest" "legal_field (k, v)"
    "p_header_count p < MAX_HEADER_COUNT" "q = after_field (k, v) rest p"
    "p_headers_size p + (length (field_text (k, v)) + 2) \<le> MAX_TOTAL_HEADERS" by (auto simp: field_word_def)
  define l where "l = field_text (k, v)"
  have "l \<noteq> []" by (simp add: l_def field_text_def)
  moreover have "read_header_line l = Some (to_lower k, trim v)"
    using q(2) by (subst read_header_line_Some) (auto simp: legal_field_def l_def)
  moreover have "find_str CRLF (p_buffer p) = Some (length l)" "length l \<le> MAX_HEADER_SIZE"
    using one_line_find [of l rest] q(2) by (simp_all only: q(1) legal_field_def l_def)
  moreover have "take (length l) (p_buffer p) = l" "drop (length l + 2) (p_buffer p) = rest"
    by (simp_all only: q(1) l_def [symmetric]) simp_all
  ultimately show ?lhs
    using q(3,5) by (simp add: header_round_def after_field_def q(4) l_def [symmetric] Let_def)
qed

lemma header_round_body:
  assumes "p_state p = HEADERS"
  shows "header_round p = Inl q \<and> p_state q = BODY \<longleftrightarrow>
    (\<exists>rest. p_buffer p = CRLF @ rest \<and> q = p\<lparr>p_buffer := rest, p_state := BODY\<rparr>)" (is "?lhs \<longleftrightarrow> ?rhs")
proof
  assume lhs: ?lhs
  then have z: "find_str CRLF (p_buffer p) = Some 0"
    using assms by (auto simp: header_round_def Let_def split: option.splits if_splits)
  then obtain rest where "p_buffer p = CRLF @ rest" using find_line [OF z] by (metis append_Nil length_0_conv)
  with lhs z show ?rhs by (auto simp: header_round_def)
qed (auto simp: header_round_def)

definition after_headers :: "(string \<times> string) list \<Rightarrow> bytes \<Rightarrow> HttpParser \<Rightarrow> HttpParser" where
  "after_headers fs rest p =
     p\<lparr>p_headers_size := p_headers_size p + length (fields_text fs),
       p_request := (p_request p)\<lparr>rq_headers :=
         fold (\<lambda>(k, v) m. umap_put (to_lower k) (trim v) m) fs (rq_headers (p_request p))\<rparr>,
       p_header_count := p_header_count p + int (length fs), p_buffer := rest, p_state := BODY\<rparr>"

lemma fields_text_simps [simp]:
  "fields_text [] = []" "fields_text (kv # fs) = field_text kv @ CRLF @ fields_text fs"
  by (simp_all add: fields_text_def)

lemma after_headers_Cons:
  "after_headers fs rest (after_field kv s p) = after_headers (kv # fs) rest p"
  by (simp add: after_headers_def after_field_def split_beta)

text \<open>The words of the header part.\<close>

definition headers_word :: "HttpParser \<Rightarrow> (string \<times> string) list \<Rightarrow> bytes \<Rightarrow> bool" where
  "headers_word p fs rest =
     (p_buffer p = fields_text fs @ CRLF @ rest \<and> list_all legal_field fs \<and>
      p_header_count p + int (length fs) \<le> MAX_HEADER_COUNT \<and>
      p_headers_size p + length (fields_text fs) \<le> MAX_TOTAL_HEADERS)"

lemma headers_word_Nil:
  "p_header_count p \<le> MAX_HEADER_COUNT \<Longrightarrow> p_headers_size p \<le> MAX_TOTAL_HEADERS \<Longrightarrow>
     headers_word p [] rest \<longleftrightarrow> p_buffer p = CRLF @ rest"
  by (simp add: headers_word_def)

lemma headers_word_Cons:
  "headers_word p (kv # fs) rest \<longleftrightarrow>
     field_word p kv (fields_text fs @ CRLF @ rest) \<and> headers_word (after_field kv (fields_text fs @ CRLF @ rest) p) fs rest"
  by (auto simp: headers_word_def field_word_def after_field_def)

lemma parse_headers_words:
  assumes "p_state p = HEADERS" "p_header_count p \<le> MAX_HEADER_COUNT" "p_headers_size p \<le> MAX_TOTAL_HEADERS"
  shows "parse_headers p = q \<and> p_state q = BODY \<longleftrightarrow> (\<exists>fs rest. headers_word p fs rest \<and> q = after_headers fs rest p)"
  using assms
proof (induction p rule: parse_headers.induct)
  case (1 p)
  note round = header_round_goes_on [of p]
  show ?case (is "?lhs \<longleftrightarrow> ?rhs")
  proof (cases "header_round p")
    case (Inl p')
    then have "\<not> field_word p kv s" for kv s using round by fastforce
    then have "?rhs \<longleftrightarrow> (\<exists>rest. headers_word p [] rest \<and> q = after_headers [] rest p)"
      by (metis headers_word_Cons list.exhaust)
    also have "\<dots> \<longleftrightarrow> ?lhs"
      using header_round_body [OF "1.prems"(1), of q] Inl
      by (auto simp: headers_word_Nil [OF "1.prems"(2,3)] parse_headers.simps [of p] after_headers_def)
    finally show ?thesis by simp
  next
    case (Inr p')
    then obtain kv s where kv: "field_word p kv s" "p' = after_field kv s p" using round by blast
    have p': "p_state p' = HEADERS" "p_header_count p' \<le> MAX_HEADER_COUNT" "p_headers_size p' \<le> MAX_TOTAL_HEADERS"
      using "1.prems" kv by (simp_all add: after_field_def field_word_def)
    have no_nil: "\<not> headers_word p [] rest" for rest
      using header_round_body [OF "1.prems"(1)] Inr by (auto simp: headers_word_Nil [OF "1.prems"(2,3)])
    have det: "after_field kv' s' p = p'" if "field_word p kv' s'" for kv' s'
      using round that Inr by (metis sum.inject(2))
    have "?lhs \<longleftrightarrow> parse_headers p' = q \<and> p_state q = BODY" using Inr by (simp add: parse_headers.simps [of p])
    also have "\<dots> \<longleftrightarrow> (\<exists>fs rest. headers_word p' fs rest \<and> q = after_headers fs rest p')"
      using "1.IH" [OF Inr p'] .
    also have "\<dots> \<longleftrightarrow> ?rhs"
    proof
      assume "\<exists>fs rest. headers_word p' fs rest \<and> q = after_headers fs rest p'"
      then obtain fs rest where fs: "headers_word p' fs rest" "q = after_headers fs rest p'" by blast
      then have "s = fields_text fs @ CRLF @ rest" by (simp add: kv(2) headers_word_def after_field_def)
      with fs kv show ?rhs by (metis after_headers_Cons headers_word_Cons)
    next
      assume ?rhs
      then obtain fs rest where fs: "headers_word p fs rest" "q = after_headers fs rest p" by blast
      with no_nil obtain kv' fs' where "fs = kv' # fs'" by (cases fs) auto
      with fs det show "\<exists>fs rest. headers_word p' fs rest \<and> q = after_headers fs rest p'"
        by (metis after_headers_Cons headers_word_Cons)
    qed
    finally show ?thesis .
  qed
qed

section \<open>The body\<close>

lemma parse_body_words:
  assumes "p_state p = BODY"
  shows "parse_body p = q \<and> p_state q = COMPLETE \<longleftrightarrow>
    (\<exists>b rest. p_buffer p = b @ rest \<and> valid_body ((p_request p)\<lparr>rq_body := b\<rparr>) \<and>
       q = p\<lparr>p_request := (p_request p)\<lparr>rq_body := b\<rparr>, p_buffer := rest, p_state := COMPLETE\<rparr>)"
    (is "?lhs \<longleftrightarrow> ?rhs")
proof
  let ?n = "unat (content_length (p_request p))"
  assume lhs: ?lhs
  then have "?n \<le> MAX_BODY_SIZE" "?n \<le> length (p_buffer p)"
    "rq_method (p_request p) = ''POST'' \<longrightarrow> has_header (p_request p) ''content-length''"
    "q = p\<lparr>p_request := (p_request p)\<lparr>rq_body := take ?n (p_buffer p)\<rparr>, p_buffer := drop ?n (p_buffer p),
       p_state := COMPLETE\<rparr>"
    using assms by (auto simp: parse_body_def Let_def split: if_splits)
  then show ?rhs
    by (intro exI [of _ "take ?n (p_buffer p)"] exI [of _ "drop ?n (p_buffer p)"]) (simp add: valid_body_def)
next
  assume ?rhs
  then show ?lhs by (auto simp: parse_body_def Let_def valid_body_def)
qed

section \<open>The parser decides the grammar\<close>

lemma feed_loop_completes:
  assumes "\<not> terminal p"
  shows "feed_loop p = q \<and> p_state q = COMPLETE \<longleftrightarrow>
    p_state (parse_step p) \<noteq> p_state p \<and> feed_loop (parse_step p) = q \<and> p_state q = COMPLETE"
  using assms feed_loop_step [of p] feed_loop_idle [of p]
  by (cases "p_state (parse_step p) = p_state p") (auto simp: terminal_def)

lemma feed_loop_stays_error: "p_state p = ERROR \<Longrightarrow> feed_loop p = p"
  by (simp add: feed_loop_terminal terminal_def)

lemma feed_loop_phases:
  assumes "p_state p = REQUEST_LINE"
  shows "feed_loop p = q \<and> p_state q = COMPLETE \<longleftrightarrow>
    (\<exists>p1 p2. (parse_request_line p = p1 \<and> p_state p1 = HEADERS) \<and> (parse_headers p1 = p2 \<and> p_state p2 = BODY) \<and>
       (parse_body p2 = q \<and> p_state q = COMPLETE))"
proof -
  have body: "feed_loop p2 = q \<and> p_state q = COMPLETE \<longleftrightarrow> parse_body p2 = q \<and> p_state q = COMPLETE"
    if "p_state p2 = BODY" for p2
    using that feed_loop_completes [of p2 q] parse_body_state [of p2] feed_loop_stays_error [of "parse_body p2"]
      feed_loop_terminal [of "parse_body p2"]
    by (auto simp: terminal_def parse_step_def)
  have headers: "feed_loop p1 = q \<and> p_state q = COMPLETE \<longleftrightarrow>
      p_state (parse_headers p1) = BODY \<and> feed_loop (parse_headers p1) = q \<and> p_state q = COMPLETE"
    if "p_state p1 = HEADERS" for p1
    using that feed_loop_completes [of p1 q] parse_headers_state [of p1] feed_loop_stays_error [of "parse_headers p1"]
    by (auto simp: terminal_def parse_step_def)
  have "feed_loop p = q \<and> p_state q = COMPLETE \<longleftrightarrow>
      p_state (parse_request_line p) = HEADERS \<and> feed_loop (parse_request_line p) = q \<and> p_state q = COMPLETE"
    using assms feed_loop_completes [of p q] parse_request_line_state [of p] feed_loop_stays_error [of "parse_request_line p"]
    by (auto simp: terminal_def parse_step_def)
  with headers body show ?thesis by metis
qed

text \<open>The parser after a message: its request, and what follows the message in its buffer.\<close>

definition completed :: "string \<Rightarrow> string \<Rightarrow> (string \<times> string) list \<Rightarrow> string \<Rightarrow> bytes \<Rightarrow> HttpParser" where
  "completed m t fs b rest = \<lparr>p_buffer = rest, p_state = COMPLETE, p_request = sent_request m t fs b,
     p_error_code = OK, p_headers_size = length (fields_text fs), p_header_count = int (length fs)\<rparr>"

text \<open>The three phases on a buffer, one after the other.\<close>

definition headers_at :: "string \<Rightarrow> string \<Rightarrow> bytes \<Rightarrow> bytes \<Rightarrow> HttpParser" where
  "headers_at m t d r1 = after_line m t r1 (add_bytes d initial_parser)"

lemma headers_at_fields [simp]:
  "p_state (headers_at m t d r1) = HEADERS" "p_buffer (headers_at m t d r1) = r1"
  "p_header_count (headers_at m t d r1) = 0" "p_headers_size (headers_at m t d r1) = 0"
  by (simp_all add: headers_at_def after_line_def add_bytes_def initial_parser_def)

definition body_at :: "string \<Rightarrow> string \<Rightarrow> (string \<times> string) list \<Rightarrow> bytes \<Rightarrow> bytes \<Rightarrow> bytes \<Rightarrow> HttpParser" where
  "body_at m t fs d r1 r2 = after_headers fs r2 (headers_at m t d r1)"

lemma body_at_fields [simp]:
  "p_state (body_at m t fs d r1 r2) = BODY" "p_buffer (body_at m t fs d r1 r2) = r2"
  "(p_request (body_at m t fs d r1 r2))\<lparr>rq_body := b\<rparr> = sent_request m t fs b"
  "(body_at m t fs d r1 r2)\<lparr>p_request := sent_request m t fs b, p_buffer := rest, p_state := COMPLETE\<rparr> =
     completed m t fs b rest"
  by (simp_all add: body_at_def after_headers_def headers_at_def after_line_def add_bytes_def initial_parser_def
      empty_request_def sent_request_def stored_headers_def completed_def)

lemma feed_words:
  "feed d initial_parser = (R_COMPLETE, q) \<longleftrightarrow>
     (\<exists>m t fs b rest. d = message_text m t fs b @ rest \<and> legal m t fs b \<and> q = completed m t fs b rest)"
    (is "?lhs \<longleftrightarrow> ?rhs")
proof -
  define p where "p = add_bytes d initial_parser"
  have p: "p_state p = REQUEST_LINE" "p_buffer p = d" by (simp_all add: p_def add_bytes_def initial_parser_def)
  have line: "parse_request_line p = p1 \<and> p_state p1 = HEADERS \<longleftrightarrow>
      (\<exists>m t r1. d = request_line m t @ CRLF @ r1 \<and> legal_line m t \<and> p1 = headers_at m t d r1)" for p1
    using parse_request_line_words [OF p(1), of p1] unfolding p(2) headers_at_def p_def [symmetric] .
  have headers: "parse_headers (headers_at m t d r1) = p2 \<and> p_state p2 = BODY \<longleftrightarrow>
      (\<exists>fs r2. headers_word (headers_at m t d r1) fs r2 \<and> p2 = body_at m t fs d r1 r2)" for m t r1 p2
    unfolding body_at_def by (rule parse_headers_words) (simp_all add: limits)
  have body: "parse_body (body_at m t fs d r1 r2) = q \<and> p_state q = COMPLETE \<longleftrightarrow>
      (\<exists>b rest. r2 = b @ rest \<and> valid_body (sent_request m t fs b) \<and> q = completed m t fs b rest)" for m t fs r1 r2
    by (subst parse_body_words) simp_all
  have "?lhs \<longleftrightarrow> feed_loop p = q \<and> p_state q = COMPLETE"
    by (auto simp: feed_def Let_def p_def add_bytes_def initial_parser_def parse_result_def split: if_splits)
  also have "\<dots> \<longleftrightarrow> (\<exists>m t r1. d = request_line m t @ CRLF @ r1 \<and> legal_line m t \<and>
      (\<exists>p2. (parse_headers (headers_at m t d r1) = p2 \<and> p_state p2 = BODY) \<and> (parse_body p2 = q \<and> p_state q = COMPLETE)))"
    unfolding feed_loop_phases [OF p(1)] line by blast
  also have "\<dots> \<longleftrightarrow> (\<exists>m t r1. d = request_line m t @ CRLF @ r1 \<and> legal_line m t \<and>
      (\<exists>fs r2. headers_word (headers_at m t d r1) fs r2 \<and>
         (parse_body (body_at m t fs d r1 r2) = q \<and> p_state q = COMPLETE)))"
    unfolding headers by blast
  also have "\<dots> \<longleftrightarrow> (\<exists>m t fs b rest. d = message_text m t fs b @ rest \<and> legal m t fs b \<and> q = completed m t fs b rest)"
    unfolding body message_text_def legal_def headers_word_def legal_fields_def headers_at_fields append_assoc add_0
    by blast
  finally show ?thesis .
qed

end
