(* ===== verification/Http_Parser_Roundtrip.thy ===== *)
theory Http_Parser_Roundtrip
  imports Http_Grammar
begin

text \<open>
  Parsing what a client prints.  \<open>render_request\<close> is the reference printer of a request (it
  is not code of the repository: the server never sends one); what it prints is a word of the
  grammar, so the parser takes it, whatever follows it in the buffer.
\<close>

definition field_line :: "string \<times> string \<Rightarrow> string" where
  "field_line kv = fst kv @ CHR '':'' # SP # snd kv"

definition render_fields :: "(string \<times> string) list \<Rightarrow> bytes" where
  "render_fields hs = concat (map (\<lambda>kv. field_line kv @ CRLF) hs)"

definition render_request :: "string \<Rightarrow> string \<Rightarrow> (string \<times> string) list \<Rightarrow> string \<Rightarrow> bytes" where
  "render_request m t hs b = request_line m t @ CRLF @ render_fields hs @ CRLF @ b"

text \<open>What a client must keep to: the grammar, then the server's limits.\<close>

definition sendable_line :: "string \<Rightarrow> string \<Rightarrow> bool" where
  "sendable_line m t =
     (m \<in> set allowed_methods \<and> t \<noteq> [] \<and> hd t = CHR ''/'' \<and> SP \<notin> set t \<and> CR \<notin> set t \<and>
      length m + length t + 10 \<le> MAX_REQUEST_LINE)"

definition sendable_field :: "string \<times> string \<Rightarrow> bool" where
  "sendable_field kv =
     (CR \<notin> set (fst kv) \<and> SP \<notin> set (fst kv) \<and> CHR '':'' \<notin> set (fst kv) \<and> CR \<notin> set (snd kv) \<and>
      length (field_line kv) \<le> MAX_HEADER_SIZE)"

definition sendable_fields :: "(string \<times> string) list \<Rightarrow> bool" where
  "sendable_fields hs =
     (list_all sendable_field hs \<and> int (length hs) \<le> MAX_HEADER_COUNT \<and>
      length (render_fields hs) \<le> MAX_TOTAL_HEADERS)"

definition sendable :: "string \<Rightarrow> string \<Rightarrow> (string \<times> string) list \<Rightarrow> string \<Rightarrow> bool" where
  "sendable m t hs b =
     (sendable_line m t \<and> sendable_fields hs \<and> valid_body (sent_request m t hs b))"

section \<open>Printed requests are words of the grammar\<close>

definition spaced :: "(string \<times> string) list \<Rightarrow> (string \<times> string) list" where
  "spaced hs = map (\<lambda>(k, v). (k, SP # v)) hs"

lemma fields_text_spaced: "fields_text (spaced hs) = render_fields hs"
  by (induction hs) (auto simp: spaced_def render_fields_def field_line_def field_text_def)

lemma message_text_spaced: "message_text m t (spaced hs) b = render_request m t hs b"
  by (simp add: message_text_def render_request_def fields_text_spaced)

lemma stored_headers_spaced: "stored_headers (spaced hs) = stored_headers hs"
proof -
  have "fold (\<lambda>(k, v) m. umap_put (to_lower k) (trim v) m) (spaced hs) m =
      fold (\<lambda>(k, v) m. umap_put (to_lower k) (trim v) m) hs m" for m
    by (induction hs arbitrary: m) (auto simp: spaced_def trim_leading_space)
  then show ?thesis by (simp add: stored_headers_def)
qed

lemma sent_request_spaced: "sent_request m t (spaced hs) b = sent_request m t hs b"
  by (simp add: sent_request_def stored_headers_spaced)

lemma sendable_legal:
  assumes "sendable m t hs b"
  shows "legal m t (spaced hs) b"
proof -
  have "legal_line m t"
    using assms one_line_no_cr by (simp add: sendable_def sendable_line_def legal_line_def request_line_def)
  moreover have "legal_field (k, SP # v)" if "(k, v) \<in> set hs" for k v
  proof -
    have "sendable_field (k, v)"
      using assms that by (auto simp: sendable_def sendable_fields_def list_all_iff)
    then show ?thesis
      using one_line_no_cr [of "field_text (k, SP # v)"]
      by (auto simp: sendable_field_def legal_field_def field_text_def field_line_def)
  qed
  then have "list_all legal_field (spaced hs)" by (auto simp: spaced_def list_all_iff)
  ultimately show ?thesis
    using assms by (simp add: sendable_def sendable_fields_def legal_def legal_fields_def fields_text_spaced
        sent_request_spaced) (simp add: spaced_def)
qed

lemma feed_printed:
  assumes "sendable m t hs b"
  shows "feed (render_request m t hs b @ rest) initial_parser =
    (R_COMPLETE, \<lparr>p_buffer = rest, p_state = COMPLETE, p_request = sent_request m t hs b,
       p_error_code = OK, p_headers_size = length (render_fields hs),
       p_header_count = int (length hs)\<rparr>)"
proof -
  have "feed (render_request m t hs b @ rest) initial_parser = (R_COMPLETE, completed m t (spaced hs) b rest)"
    unfolding feed_words message_text_spaced [symmetric] using sendable_legal [OF assms] by blast
  then show ?thesis
    by (simp add: completed_def sent_request_spaced fields_text_spaced) (simp add: spaced_def)
qed

section \<open>Reading the headers back\<close>

text \<open>A name is looked up without regard to case and finds the last field sent under it.\<close>

lemma stored_headers_find:
  "umap_find k (stored_headers hs) = map_of (rev (map (\<lambda>(k, v). (to_lower k, trim v)) hs)) k"
proof -
  have "fold (\<lambda>(k, v) m. umap_put (to_lower k) (trim v) m) hs m =
      fold (\<lambda>(k, v) m. umap_put k v m) (map (\<lambda>(k, v). (to_lower k, trim v)) hs) m" for m
    by (induction hs arbitrary: m) auto
  then show ?thesis
    by (simp add: stored_headers_def um.find_fold_put um.find_empty split: option.split)
qed

lemma sent_request_header:
  "header (sent_request m t hs b) n =
     map_of (rev (map (\<lambda>(k, v). (to_lower k, trim v)) hs)) (to_lower n)"
  by (simp add: header_def sent_request_def stored_headers_find)

end
