(* ===== verification/Http_Response.thy ===== *)
theory Http_Response
  imports Http_Request
begin

text \<open>
  \<open>include/http/response.hpp\<close> and \<open>src/http/response.cpp\<close>: the response and its factory
  functions.  Default member values and default arguments are written out.
\<close>

record Response =
  rs_status :: StatusCode
  rs_headers :: umap
  rs_body :: string
  rs_keep_alive :: bool

definition new_response :: Response where
  "new_response = \<lparr>rs_status = OK, rs_headers = [], rs_body = [], rs_keep_alive = True\<rparr>"

definition set_header :: "string \<Rightarrow> string \<Rightarrow> Response \<Rightarrow> Response" where
  "set_header key val r = r\<lparr>rs_headers := umap_put key val (rs_headers r)\<rparr>"

definition set_body :: "string \<Rightarrow> string \<Rightarrow> Response \<Rightarrow> Response" where
  "set_body new_body content_type r = set_header ''Content-Type'' content_type (r\<lparr>rs_body := new_body\<rparr>)"

definition ok :: "string \<Rightarrow> string \<Rightarrow> Response" where
  "ok body content_type = set_body body content_type (new_response\<lparr>rs_status := OK\<rparr>)"

definition ok_text :: "string \<Rightarrow> Response" where
  "ok_text body = ok body ''text/plain''"

definition error :: "StatusCode \<Rightarrow> string \<Rightarrow> Response" where
  "error code message =
     (let res = new_response\<lparr>rs_status := code\<rparr> in
      if message \<noteq> [] then set_body message ''text/plain'' res
      else set_body (reason_phrase code) ''text/plain'' res)"

definition json :: "string \<Rightarrow> Response" where
  "json json_string = set_body json_string ''application/json'' (new_response\<lparr>rs_status := OK\<rparr>)"

definition not_found :: Response where
  "not_found = error NotFound ''Not Found''"

definition bad_request :: "string \<Rightarrow> Response" where
  "bad_request message = error BadRequest (if message = [] then ''Bad Request'' else message)"

definition method_not_allowed :: "string \<Rightarrow> Response" where
  "method_not_allowed allowed =
     set_body ''Method Not Allowed'' ''text/plain''
       (set_header ''Allow'' allowed (new_response\<lparr>rs_status := MethodNotAllowed\<rparr>))"

definition make_response :: "StatusCode \<Rightarrow> Response" where
  "make_response code =
     (let res = new_response\<lparr>rs_status := code\<rparr>; reason = reason_phrase code in
      if code \<noteq> NoContent then set_body reason ''text/plain'' res else res)"

section \<open>What the factories build\<close>

definition response_header :: "Response \<Rightarrow> string \<Rightarrow> string option" where
  "response_header r k = umap_find k (rs_headers r)"

lemma response_header_set [simp]:
  "response_header (set_header k v r) k' = (if k' = k then Some v else response_header r k')"
  by (simp add: response_header_def set_header_def um.find_put)

lemma set_header_fields [simp]:
  "rs_status (set_header k v r) = rs_status r" "rs_body (set_header k v r) = rs_body r"
  "rs_keep_alive (set_header k v r) = rs_keep_alive r"
  by (simp_all add: set_header_def)

lemma set_body_fields [simp]:
  "rs_status (set_body b t r) = rs_status r" "rs_body (set_body b t r) = b"
  "rs_keep_alive (set_body b t r) = rs_keep_alive r"
  "response_header (set_body b t r) k = (if k = ''Content-Type'' then Some t else response_header r k)"
  by (simp_all add: set_body_def) (simp add: response_header_def)

lemmas factory_defs = ok_def ok_text_def error_def json_def not_found_def bad_request_def
  method_not_allowed_def make_response_def

lemma factory_status [simp]:
  "rs_status (ok b t) = OK" "rs_status (error c m) = c" "rs_status (json b) = OK"
  "rs_status not_found = NotFound" "rs_status (bad_request m) = BadRequest"
  "rs_status (method_not_allowed a) = MethodNotAllowed" "rs_status (make_response c) = c"
  by (simp_all add: factory_defs new_response_def Let_def)

lemma factory_keep_alive [simp]:
  "rs_keep_alive (ok b t)" "rs_keep_alive (error c m)" "rs_keep_alive (json b)"
  "rs_keep_alive not_found" "rs_keep_alive (method_not_allowed a)" "rs_keep_alive (make_response c)"
  by (simp_all add: factory_defs new_response_def Let_def)

lemma factory_body [simp]:
  "rs_body (ok b t) = b" "rs_body (json b) = b"
  "rs_body (error c m) = (if m = [] then reason_phrase c else m)"
  by (simp_all add: factory_defs Let_def)

lemma error_body_nonempty: "rs_body (error c m) \<noteq> []"
  using reason_phrase_line by simp

text \<open>A header entry that cannot end a line early or be cut at the wrong colon.\<close>

definition safe_field :: "string \<times> string \<Rightarrow> bool" where
  "safe_field kv = (CR \<notin> set (fst kv) \<and> CHR '':'' \<notin> set (fst kv) \<and> fst kv \<noteq> [] \<and> CR \<notin> set (snd kv))"

definition safe_response :: "Response \<Rightarrow> bool" where
  "safe_response r = list_all safe_field (rs_headers r)"

lemma safe_response_new [simp]: "safe_response new_response"
  by (simp add: safe_response_def new_response_def)

lemma safe_response_update [simp]:
  "safe_response (r\<lparr>rs_status := c\<rparr>) = safe_response r"
  "safe_response (r\<lparr>rs_body := b\<rparr>) = safe_response r"
  "safe_response (r\<lparr>rs_keep_alive := k\<rparr>) = safe_response r"
  by (simp_all add: safe_response_def)

lemma safe_response_set_header:
  "safe_response r \<Longrightarrow> safe_field (k, v) \<Longrightarrow> safe_response (set_header k v r)"
  using umap_put_set [of k v "rs_headers r"]
  by (auto simp: safe_response_def set_header_def list_all_iff)

lemma safe_response_set_body:
  "safe_response r \<Longrightarrow> CR \<notin> set t \<Longrightarrow> safe_response (set_body b t r)"
  by (simp add: set_body_def safe_response_set_header safe_field_def)

lemma safe_factories:
  "CR \<notin> set t \<Longrightarrow> safe_response (ok b t)" "safe_response (error c m)" "safe_response (json b)"
  "safe_response not_found" "safe_response (make_response c)"
  "CR \<notin> set a \<Longrightarrow> safe_response (method_not_allowed a)"
  by (simp_all add: factory_defs Let_def safe_response_set_body safe_response_set_header safe_field_def)

end
