(* ===== verification/Http_Serializer.thy ===== *)
theory Http_Serializer
  imports Http_Response
begin

text \<open>
  \<open>include/http/serializer.hpp\<close> and \<open>src/http/serializer.cpp\<close>: the status line, the four
  headers the serializer writes itself, the response's other headers, the body.  The time is
  an argument (\<open>std::time\<close>); \<open>std::gmtime\<close> and the conversions of \<open>std::strftime\<close> the
  format uses are written out for times from 1970 on.
\<close>

section \<open>The date\<close>

definition leap_year :: "nat \<Rightarrow> bool" where
  "leap_year y = (y mod 4 = 0 \<and> (y mod 100 \<noteq> 0 \<or> y mod 400 = 0))"

definition year_days :: "nat \<Rightarrow> nat" where
  "year_days y = (if leap_year y then 366 else 365)"

function civil_year :: "nat \<Rightarrow> nat \<Rightarrow> nat \<times> nat" where
  "civil_year y d = (if d < year_days y then (y, d) else civil_year (Suc y) (d - year_days y))"
  by pat_completeness auto
termination
  by (relation "measure (\<lambda>(y, d). d)") (auto simp: year_days_def)

declare civil_year.simps [simp del]

fun civil_month :: "(string \<times> nat) list \<Rightarrow> nat \<Rightarrow> string \<times> nat" where
  "civil_month [] d = (''Dec'', d)"
| "civil_month ((m, n) # ms) d = (if d < n then (m, d) else civil_month ms (d - n))"

definition months :: "nat \<Rightarrow> (string \<times> nat) list" where
  "months y = [(''Jan'', 31), (''Feb'', if leap_year y then 29 else 28), (''Mar'', 31), (''Apr'', 30),
     (''May'', 31), (''Jun'', 30), (''Jul'', 31), (''Aug'', 31), (''Sep'', 30), (''Oct'', 31),
     (''Nov'', 30), (''Dec'', 31)]"

definition weekdays :: "string list" where
  "weekdays = [''Sun'', ''Mon'', ''Tue'', ''Wed'', ''Thu'', ''Fri'', ''Sat'']"

definition two_digits :: "nat \<Rightarrow> string" where
  "two_digits n = [digit_char (n div 10 mod 10), digit_char (n mod 10)]"

definition format_date :: "nat \<Rightarrow> string" where
  "format_date t =
     (let days = t div 86400; s = t mod 86400;
          (year, yday) = civil_year 1970 days;
          (mon, mday) = civil_month (months year) yday in
      weekdays ! ((days + 4) mod 7) @ '', '' @ two_digits (mday + 1) @ '' '' @ mon @ '' '' @
      to_string year @ '' '' @ two_digits (s div 3600) @ '':'' @ two_digits (s div 60 mod 60) @
      '':'' @ two_digits (s mod 60) @ '' GMT'')"

section \<open>The message\<close>

definition own_header :: "string \<Rightarrow> bool" where
  "own_header key =
     (let k_lower = map tolower key in
      \<not> (k_lower \<noteq> ''server'' \<and> k_lower \<noteq> ''date'' \<and>
         k_lower \<noteq> ''content-length'' \<and> k_lower \<noteq> ''connection''))"

definition serialize :: "nat \<Rightarrow> Response \<Rightarrow> bytes" where
  "serialize now response =
     ''HTTP/1.1 '' @ to_string (status_int (rs_status response)) @ '' '' @
     reason_phrase (rs_status response) @ CRLF @
     ''Server: httpserver/1.0'' @ CRLF @
     ''Date: '' @ format_date now @ CRLF @
     ''Content-Length: '' @ to_string (length (rs_body response)) @ CRLF @
     (if rs_keep_alive response then ''Connection: keep-alive'' @ CRLF
      else ''Connection: close'' @ CRLF) @
     concat (map (\<lambda>(key, val). if own_header key then [] else key @ '': '' @ val @ CRLF)
       (rs_headers response)) @
     CRLF @ rs_body response"

section \<open>A reading client\<close>

text \<open>
  The reference reader of a response, as a client does it: the lines up to the empty one, each
  header cut at its first colon, then as many bytes of body as \<open>Content-Length\<close> says.  What
  follows is the next message.
\<close>

function read_head :: "bytes \<Rightarrow> (string list \<times> bytes) option" where
  "read_head s =
     (case find_str CRLF s of
        None \<Rightarrow> None
      | Some i \<Rightarrow>
          if i = 0 then Some ([], drop 2 s)
          else map_option (\<lambda>(ls, r). (take i s # ls, r)) (read_head (drop (i + 2) s)))"
  by pat_completeness auto
termination
  by (relation "measure length") (auto dest: find_crlf_bound)

declare read_head.simps [simp del]

definition split_field :: "string \<Rightarrow> string \<times> string" where
  "split_field l =
     (case find_char CHR '':'' l of None \<Rightarrow> (l, []) | Some i \<Rightarrow> (take i l, drop (i + 2) l))"

definition read_response :: "bytes \<Rightarrow> (string \<times> umap \<times> bytes \<times> bytes) option" where
  "read_response s =
     (case read_head s of
        Some (l # ls, r) \<Rightarrow>
          (let hs = map split_field ls in
           case umap_find ''Content-Length'' hs of
             Some cl \<Rightarrow>
               (case stoull cl of
                  Inr n \<Rightarrow> if unat n \<le> length r then Some (l, hs, take (unat n) r, drop (unat n) r)
                           else None
                | Inl _ \<Rightarrow> None)
           | None \<Rightarrow> None)
      | _ \<Rightarrow> None)"

definition status_line :: "Response \<Rightarrow> string" where
  "status_line r = ''HTTP/1.1 '' @ to_string (status_int (rs_status r)) @ SP # reason_phrase (rs_status r)"

definition message_headers :: "nat \<Rightarrow> Response \<Rightarrow> umap" where
  "message_headers now r =
     [(''Server'', ''httpserver/1.0''), (''Date'', format_date now),
      (''Content-Length'', to_string (length (rs_body r))),
      (''Connection'', if rs_keep_alive r then ''keep-alive'' else ''close'')] @
     filter (\<lambda>(k, v). \<not> own_header k) (rs_headers r)"

section \<open>Lines of the message\<close>

definition out_line :: "string \<times> string \<Rightarrow> string" where
  "out_line kv = fst kv @ CHR '':'' # SP # snd kv"

lemma split_out_line: "CHR '':'' \<notin> set k \<Longrightarrow> split_field (out_line (k, v)) = (k, v)"
  by (simp add: split_field_def out_line_def find_char_append_notin)

lemma serialize_lines:
  "serialize now r = concat (map (\<lambda>l. l @ CRLF) (status_line r # map out_line (message_headers now r))) @
     CRLF @ rs_body r"
proof -
  have "concat (map (\<lambda>(key, val). if own_header key then [] else key @ '': '' @ val @ CRLF) hs) =
      concat (map (\<lambda>l. l @ CRLF) (map out_line (filter (\<lambda>(k, v). \<not> own_header k) hs)))" for hs
    by (induction hs) (auto simp: out_line_def)
  then show ?thesis
    by (simp add: serialize_def status_line_def message_headers_def out_line_def)
qed

lemma read_head_lines:
  "\<forall>l\<in>set ls. CR \<notin> set l \<and> l \<noteq> [] \<Longrightarrow>
     read_head (concat (map (\<lambda>l. l @ CRLF) ls) @ CRLF @ b) = Some (ls, b)"
proof (induction ls)
  case Nil
  then show ?case using find_crlf_line [of "[]" b] by (simp add: read_head.simps)
next
  case (Cons l ls)
  let ?rest = "concat (map (\<lambda>l. l @ CRLF) ls) @ CRLF @ b"
  have "find_str CRLF (l @ CR # LF # ?rest) = Some (length l)"
    using Cons.prems by (intro find_crlf_line) simp
  then show ?case using Cons by (subst read_head.simps) simp
qed

lemma digits_no_cr: "CR \<notin> set (to_string n)" "CHR '':'' \<notin> set (to_string n)"
proof -
  have "\<not> is_digit CR" "\<not> is_digit CHR '':''" by (simp_all add: is_digit_code)
  then show "CR \<notin> set (to_string n)" "CHR '':'' \<notin> set (to_string n)"
    using to_string_digits by blast+
qed

lemma two_digits_no_cr: "CR \<notin> set (two_digits n)"
proof -
  have "digit_char d \<noteq> CR" if "d < 10" for d
  proof
    assume "digit_char d = CR"
    with digit_char_code [OF that] show False by simp
  qed
  then have "digit_char (n div 10 mod 10) \<noteq> CR" "digit_char (n mod 10) \<noteq> CR" by simp_all
  then show ?thesis by (simp add: two_digits_def)
qed

lemma civil_month_name:
  "fst (civil_month ms d) \<in> insert ''Dec'' (fst ` set ms)"
  by (induction ms d rule: civil_month.induct) auto

lemma month_name_shape:
  "m \<in> insert ''Dec'' (fst ` set (months y)) \<Longrightarrow> CR \<notin> set m \<and> length m = 3"
  by (auto simp: months_def)

lemma months_no_cr: "CR \<notin> set (fst (civil_month (months y) d))"
  "length (fst (civil_month (months y) d)) = 3"
  using month_name_shape [OF civil_month_name] by auto

lemma weekday_no_cr: "CR \<notin> set (weekdays ! (n mod 7))" "length (weekdays ! (n mod 7)) = 3"
proof -
  have "n mod 7 < length weekdays" by (simp add: weekdays_def)
  then have "weekdays ! (n mod 7) \<in> set weekdays" by (rule nth_mem)
  then show "CR \<notin> set (weekdays ! (n mod 7))" "length (weekdays ! (n mod 7)) = 3"
    by (auto simp: weekdays_def)
qed

lemma civil_year_spec:
  "civil_year y d = (y', d') \<Longrightarrow> y \<le> y' \<and> 365 * (y' - y) \<le> d \<and> d' < year_days y'"
proof (induction y d rule: civil_year.induct)
  case (1 y d)
  show ?case
  proof (cases "d < year_days y")
    case True
    with "1.prems" show ?thesis by (simp add: civil_year.simps [of y d])
  next
    case False
    with "1.prems" have "civil_year (Suc y) (d - year_days y) = (y', d')"
      by (simp add: civil_year.simps [of y d])
    from "1.IH" [OF False this] False show ?thesis
      by (auto simp: year_days_def split: if_splits)
  qed
qed

text \<open>The fields of a date and their widths.\<close>

lemma format_date_shape:
  obtains w d m y h mi s where
    "format_date t = w @ '', '' @ two_digits d @ '' '' @ m @ '' '' @ to_string y @ '' '' @
       two_digits h @ '':'' @ two_digits mi @ '':'' @ two_digits s @ '' GMT''"
    "CR \<notin> set w" "length w = 3" "CR \<notin> set m" "length m = 3"
    "t < 253000000000 \<Longrightarrow> 1000 \<le> y \<and> y < 10000"
proof -
  obtain y d where yd: "civil_year 1970 (t div 86400) = (y, d)"
    by (cases "civil_year 1970 (t div 86400)")
  obtain m k where mk: "civil_month (months y) d = (m, k)" by (cases "civil_month (months y) d")
  have m: "CR \<notin> set m" "length m = 3" using months_no_cr [of y d] mk by simp_all
  have y: "1000 \<le> y \<and> y < 10000" if "t < 253000000000"
  proof -
    from that have "t div 86400 < 2930000" by simp
    with civil_year_spec [OF yd] show ?thesis by auto
  qed
  show thesis
    by (rule that [OF _ weekday_no_cr [of "t div 86400 + 4"] m y])
      (simp_all only: format_date_def Let_def yd mk prod.case)
qed

lemma format_date_no_cr: "CR \<notin> set (format_date t)"
  by (rule format_date_shape [of t]) (simp add: digits_no_cr two_digits_no_cr)

lemma message_headers_safe:
  assumes "safe_response r" "kv \<in> set (message_headers now r)"
  shows "safe_field kv"
  using assms digits_no_cr format_date_no_cr
  by (auto simp: message_headers_def safe_response_def list_all_iff safe_field_def split: if_splits)

lemma message_lines_safe:
  assumes "safe_response r" "l \<in> set (status_line r # map out_line (message_headers now r))"
  shows "CR \<notin> set l \<and> l \<noteq> []"
proof (cases "l = status_line r")
  case True
  then show ?thesis using reason_phrase_line digits_no_cr by (simp add: status_line_def)
next
  case False
  with assms(2) obtain kv where "l = out_line kv" "kv \<in> set (message_headers now r)" by auto
  then show ?thesis using message_headers_safe [OF assms(1)]
    by (auto simp: out_line_def safe_field_def)
qed

lemma split_message_headers:
  "safe_response r \<Longrightarrow> map (split_field \<circ> out_line) (message_headers now r) = message_headers now r"
  using message_headers_safe [of r _ now]
  by (intro map_idI) (auto simp: safe_field_def split_out_line)

lemma read_response_serialize:
  assumes "safe_response r" "length (rs_body r) < 2 ^ 64"
  shows "read_response (serialize now r @ rest) =
    Some (status_line r, message_headers now r, rs_body r, rest)"
proof -
  have head: "read_head (serialize now r @ rest) =
      Some (status_line r # map out_line (message_headers now r), rs_body r @ rest)"
    using read_head_lines [of "status_line r # map out_line (message_headers now r)" "rs_body r @ rest"]
      message_lines_safe [OF assms(1), of _ now]
    by (simp add: serialize_lines)
  have "umap_find ''Content-Length'' (message_headers now r) = Some (to_string (length (rs_body r)))"
    by (simp add: umap_find_def message_headers_def)
  then show ?thesis
    using assms(2) split_message_headers [OF assms(1), of now]
    by (simp add: read_response_def head stoull_to_string unat_of_nat)
qed

section \<open>The width of the date\<close>

lemma length_to_string:
  "length (to_string n) = (if n < 10 then 1 else Suc (length (to_string (n div 10))))"
  by (simp add: to_string.simps [of n])

lemma to_string_four: "1000 \<le> n \<Longrightarrow> n < 10000 \<Longrightarrow> length (to_string n) = 4"
  by (simp add: length_to_string [of n] length_to_string [of "n div 10"]
      length_to_string [of "n div 10 div 10"] length_to_string [of "n div 10 div 10 div 10"])
    arith

lemma format_date_length: "t < 253000000000 \<Longrightarrow> length (format_date t) = 29"
  by (rule format_date_shape [of t]) (simp add: to_string_four two_digits_def)

lemma format_date_epoch: "format_date 0 = ''Thu, 01 Jan 1970 00:00:00 GMT''"
  by (simp add: format_date_def civil_year.simps year_days_def leap_year_def months_def
      weekdays_def two_digits_def digit_char_def to_string.simps char_of_def bit_0)

lemma format_date_rfc: "format_date 784111777 = ''Sun, 06 Nov 1994 08:49:37 GMT''"
  by (simp add: format_date_def civil_year.simps year_days_def leap_year_def months_def
      weekdays_def two_digits_def digit_char_def to_string.simps char_of_def bit_0)

end
