(* ===== verification/Router.thy ===== *)
theory Router
  imports Http_Response
begin

text \<open>
  \<open>include/router/router.hpp\<close> and \<open>src/router/router.cpp\<close>: dispatch on method and path, the
  405 answer with its \<open>Allow\<close> header, static files.  A handler is a function that returns a
  response or throws (None).  The file system is the argument \<open>filesystem\<close>: the four calls
  the router makes, with the error each of them can report.
\<close>

section \<open>State\<close>

type_synonym handler = "Request \<Rightarrow> Response option"

record Route =
  rt_method :: string
  rt_path :: string
  rt_func :: handler

record StaticMount =
  sm_prefix :: string
  sm_directory :: string

record Router =
  routes :: "Route list"
  static_mounts :: "StaticMount list"

text \<open>
  \<open>std::filesystem::canonical\<close> with an error code, \<open>std::filesystem::is_regular_file\<close> (the
  overload that throws: None), and opening and reading a file with \<open>std::ifstream\<close>.
\<close>

record filesystem =
  fs_canonical :: "string \<Rightarrow> string option"
  fs_is_regular :: "string \<Rightarrow> bool option"
  fs_read :: "string \<Rightarrow> string option"

definition new_router :: Router where
  "new_router = \<lparr>routes = [], static_mounts = []\<rparr>"

definition add_route :: "string \<Rightarrow> string \<Rightarrow> handler \<Rightarrow> Router \<Rightarrow> Router" where
  "add_route m path func r =
     r\<lparr>routes := routes r @ [\<lparr>rt_method = m, rt_path = path, rt_func = func\<rparr>]\<rparr>"

definition add_static :: "string \<Rightarrow> string \<Rightarrow> Router \<Rightarrow> Router" where
  "add_static pre directory r =
     r\<lparr>static_mounts := static_mounts r @ [\<lparr>sm_prefix = pre, sm_directory = directory\<rparr>]\<rparr>"

section \<open>Static files\<close>

definition is_path_safe :: "string \<Rightarrow> bool" where
  "is_path_safe path =
     (if find_str ''..'' path \<noteq> None then False
      else if find_char CHR 0x00 path \<noteq> None then False
      else if path = [] \<or> hd path \<noteq> CHR ''/'' then False
      else True)"

definition get_mime_type :: "string \<Rightarrow> string" where
  "get_mime_type path =
     (case find_last_char CHR ''.'' path of
        None \<Rightarrow> ''application/octet-stream''
      | Some dot_pos \<Rightarrow>
          let ext = map tolower (drop dot_pos path) in
          if ext = ''.html'' \<or> ext = ''.htm'' then ''text/html''
          else if ext = ''.txt'' then ''text/plain''
          else if ext = ''.css'' then ''text/css''
          else if ext = ''.js'' then ''application/javascript''
          else if ext = ''.json'' then ''application/json''
          else if ext = ''.png'' then ''image/png''
          else if ext = ''.jpg'' \<or> ext = ''.jpeg'' then ''image/jpeg''
          else if ext = ''.gif'' then ''image/gif''
          else if ext = ''.svg'' then ''image/svg+xml''
          else if ext = ''.ico'' then ''image/x-icon''
          else ''application/octet-stream'')"

text \<open>\<open>fs::path::relative_path\<close> and \<open>operator/\<close> with a relative right-hand side, on POSIX.\<close>

definition relative_path :: "string \<Rightarrow> string" where
  "relative_path p = dropWhile (\<lambda>c. c = CHR ''/'') p"

definition path_append :: "string \<Rightarrow> string \<Rightarrow> string" where
  "path_append dir rel =
     (if dir = [] \<or> last dir = CHR ''/'' then dir @ rel else dir @ CHR ''/'' # rel)"

definition request_rel_path :: "StaticMount \<Rightarrow> string \<Rightarrow> string" where
  "request_rel_path mount path =
     (let rel_path = drop (length (sm_prefix mount)) path in
      if rel_path = [] \<or> hd rel_path \<noteq> CHR ''/'' then CHR ''/'' # rel_path else rel_path)"

definition serve_static_file :: "filesystem \<Rightarrow> StaticMount \<Rightarrow> string \<Rightarrow> Response option" where
  "serve_static_file fs mount path =
     (let rel_path = request_rel_path mount path in
      if \<not> is_path_safe rel_path then Some (error Forbidden ''Forbidden'')
      else
        let full_path = path_append (sm_directory mount) (relative_path rel_path) in
        (case fs_canonical fs full_path of
           None \<Rightarrow> Some not_found
         | Some file_str \<Rightarrow>
             (case fs_canonical fs (sm_directory mount) of
                None \<Rightarrow> Some (error InternalServerError [])
              | Some root_str \<Rightarrow>
                  if take (length root_str) file_str \<noteq> root_str
                  then Some (error Forbidden ''Forbidden'')
                  else
                    (case fs_is_regular fs file_str of
                       None \<Rightarrow> None
                     | Some regular \<Rightarrow>
                         if \<not> regular then Some not_found
                         else
                           (case fs_read fs file_str of
                              None \<Rightarrow> Some (error InternalServerError [])
                            | Some content \<Rightarrow>
                                Some (set_header ''Content-Type'' (get_mime_type file_str)
                                       (ok_text content)))))))"

section \<open>Dispatch\<close>

text \<open>The first loop of \<open>route\<close>: the response of the first matching route, if there is one, and
  the flag \<open>path_found\<close>.\<close>

fun find_route :: "Route list \<Rightarrow> Request \<Rightarrow> bool \<Rightarrow> Response option \<times> bool" where
  "find_route [] request path_found = (None, path_found)"
| "find_route (rt # rts) request path_found =
     (if rt_path rt = rq_target request then
        (if rt_method rt = rq_method request then
           (case rt_func rt request of
              Some res \<Rightarrow> (Some res, True)
            | None \<Rightarrow> (Some (error InternalServerError ''Internal Server Error''), True))
         else find_route rts request True)
      else find_route rts request path_found)"

fun allow_loop :: "Route list \<Rightarrow> string \<Rightarrow> string \<Rightarrow> string" where
  "allow_loop [] target allow_methods = allow_methods"
| "allow_loop (rt # rts) target allow_methods =
     (if rt_path rt = target
      then allow_loop rts target
             ((if allow_methods \<noteq> [] then allow_methods @ '', '' else allow_methods) @ rt_method rt)
      else allow_loop rts target allow_methods)"

fun static_loop :: "filesystem \<Rightarrow> StaticMount list \<Rightarrow> Request \<Rightarrow> Response option" where
  "static_loop fs [] request = Some not_found"
| "static_loop fs (mount # mounts) request =
     (if starts_with (rq_target request) (sm_prefix mount) then
        (if rq_method request = ''GET'' \<or> rq_method request = ''HEAD''
         then serve_static_file fs mount (rq_target request)
         else Some (method_not_allowed ''GET, HEAD''))
      else static_loop fs mounts request)"

definition route :: "filesystem \<Rightarrow> Router \<Rightarrow> Request \<Rightarrow> Response option" where
  "route fs r request =
     (case find_route (routes r) request False of
        (Some res, _) \<Rightarrow> Some res
      | (None, path_found) \<Rightarrow>
          if path_found then Some (method_not_allowed (allow_loop (routes r) (rq_target request) []))
          else static_loop fs (static_mounts r) request)"

section \<open>Dispatch, declaratively\<close>

text \<open>
  What a router promises: the first route registered for the method and the path answers
  (a throwing handler counts as a 500), otherwise a known path gets 405 and the methods that
  are registered for it, otherwise the first mount whose prefix matches is asked, otherwise 404.
\<close>

definition run_handler :: "Route \<Rightarrow> Request \<Rightarrow> Response" where
  "run_handler rt request =
     (case rt_func rt request of
        Some res \<Rightarrow> res
      | None \<Rightarrow> error InternalServerError ''Internal Server Error'')"

fun join_methods :: "string list \<Rightarrow> string" where
  "join_methods [] = []"
| "join_methods [m] = m"
| "join_methods (m # ms) = m @ '', '' @ join_methods ms"

definition methods_for :: "string \<Rightarrow> Route list \<Rightarrow> string list" where
  "methods_for target rts = map rt_method (filter (\<lambda>rt. rt_path rt = target) rts)"

definition route_spec :: "filesystem \<Rightarrow> Router \<Rightarrow> Request \<Rightarrow> Response option" where
  "route_spec fs r request =
     (case find (\<lambda>rt. rt_path rt = rq_target request \<and> rt_method rt = rq_method request) (routes r) of
        Some rt \<Rightarrow> Some (run_handler rt request)
      | None \<Rightarrow>
          if methods_for (rq_target request) (routes r) \<noteq> []
          then Some (method_not_allowed
                 (join_methods (dropWhile (\<lambda>m. m = []) (methods_for (rq_target request) (routes r)))))
          else
            (case find (\<lambda>m. starts_with (rq_target request) (sm_prefix m)) (static_mounts r) of
               None \<Rightarrow> Some not_found
             | Some m \<Rightarrow>
                 if rq_method request \<in> {''GET'', ''HEAD''}
                 then serve_static_file fs m (rq_target request)
                 else Some (method_not_allowed ''GET, HEAD'')))"

lemma find_route_spec:
  "find_route rts request pf =
     (case find (\<lambda>rt. rt_path rt = rq_target request \<and> rt_method rt = rq_method request) rts of
        Some rt \<Rightarrow> (Some (run_handler rt request), True)
      | None \<Rightarrow> (None, pf \<or> methods_for (rq_target request) rts \<noteq> []))"
  by (induction rts request pf rule: find_route.induct)
    (auto simp: run_handler_def methods_for_def split: option.splits)

lemma join_methods_Cons: "ms \<noteq> [] \<Longrightarrow> join_methods (m # ms) = m @ '', '' @ join_methods ms"
  by (cases ms) auto

lemma allow_loop_acc:
  "acc \<noteq> [] \<Longrightarrow> allow_loop rts target acc =
     join_methods (acc # methods_for target rts)"
proof (induction rts arbitrary: acc)
  case Nil
  then show ?case by (simp add: methods_for_def)
next
  case (Cons rt rts)
  have "join_methods ((acc @ '', '' @ m) # ms) = join_methods (acc # m # ms)" for m ms
    by (cases ms) auto
  with Cons show ?case by (simp add: methods_for_def)
qed

lemma allow_loop_spec:
  "allow_loop rts target [] = join_methods (dropWhile (\<lambda>m. m = []) (methods_for target rts))"
proof (induction rts)
  case Nil
  then show ?case by (simp add: methods_for_def)
next
  case (Cons rt rts)
  then show ?case
    by (cases "rt_method rt = []") (simp_all add: methods_for_def allow_loop_acc)
qed

lemma static_loop_spec:
  "static_loop fs ms request =
     (case find (\<lambda>m. starts_with (rq_target request) (sm_prefix m)) ms of
        None \<Rightarrow> Some not_found
      | Some m \<Rightarrow>
          if rq_method request \<in> {''GET'', ''HEAD''}
          then serve_static_file fs m (rq_target request)
          else Some (method_not_allowed ''GET, HEAD''))"
  by (induction fs ms request rule: static_loop.induct) auto

lemma route_route_spec: "route fs r request = route_spec fs r request"
  by (simp add: route_def route_spec_def find_route_spec allow_loop_spec static_loop_spec
      split: option.split)

section \<open>Which files are served\<close>

lemma is_path_safe_iff:
  "is_path_safe p \<longleftrightarrow> find_str ''..'' p = None \<and> CHR 0x00 \<notin> set p \<and> p \<noteq> [] \<and> hd p = CHR ''/''"
  by (auto simp: is_path_safe_def find_char_None)

text \<open>Inside a directory: the directory itself or a path below it.\<close>

definition in_directory :: "string \<Rightarrow> string \<Rightarrow> bool" where
  "in_directory root file = (file = root \<or> starts_with file (root @ ''/''))"

lemma serve_static_file_ok:
  assumes "serve_static_file fs mount path = Some res" "rs_status res = OK"
  obtains f root content where
    "is_path_safe (request_rel_path mount path)"
    "fs_canonical fs (path_append (sm_directory mount)
       (relative_path (request_rel_path mount path))) = Some f"
    "fs_canonical fs (sm_directory mount) = Some root" "starts_with f root"
    "fs_is_regular fs f = Some True" "fs_read fs f = Some content"
    "res = set_header ''Content-Type'' (get_mime_type f) (ok_text content)"
  using assms
  by (auto simp: serve_static_file_def Let_def starts_with_iff
      split: if_splits option.splits)

lemma serve_static_file_status:
  "serve_static_file fs mount path = Some res \<Longrightarrow>
     rs_status res \<in> {OK, Forbidden, NotFound, InternalServerError}"
  by (auto simp: serve_static_file_def Let_def ok_text_def split: if_splits option.splits)

lemma serve_static_file_total:
  "\<forall>f. fs_is_regular fs f \<noteq> None \<Longrightarrow> serve_static_file fs mount path \<noteq> None"
  by (auto simp: serve_static_file_def Let_def split: option.split) (metis option.distinct(1))+

lemma route_total: "\<forall>f. fs_is_regular fs f \<noteq> None \<Longrightarrow> route fs r request \<noteq> None"
proof -
  assume "\<forall>f. fs_is_regular fs f \<noteq> None"
  then have "static_loop fs ms request \<noteq> None" for ms
    by (induction ms) (simp_all add: serve_static_file_total del: not_None_eq)
  then show ?thesis by (simp add: route_def del: not_None_eq split: prod.splits option.splits)
qed

lemma serve_static_file_unsafe:
  "\<not> is_path_safe (request_rel_path mount path) \<Longrightarrow>
     serve_static_file fs mount path = Some (error Forbidden ''Forbidden'')"
  by (simp add: serve_static_file_def)

section \<open>Media types\<close>

definition mime_table :: "(string \<times> string) list" where
  "mime_table = [(''html'', ''text/html''), (''htm'', ''text/html''), (''txt'', ''text/plain''),
     (''css'', ''text/css''), (''js'', ''application/javascript''), (''json'', ''application/json''),
     (''png'', ''image/png''), (''jpg'', ''image/jpeg''), (''jpeg'', ''image/jpeg''),
     (''gif'', ''image/gif''), (''svg'', ''image/svg+xml''), (''ico'', ''image/x-icon'')]"

definition mime_lookup :: "string \<Rightarrow> string" where
  "mime_lookup ext = (case map_of mime_table (map tolower ext) of
     Some t \<Rightarrow> t | None \<Rightarrow> ''application/octet-stream'')"

lemma tolower_dot [simp]: "tolower CHR ''.'' = CHR ''.''"
  by code_simp

lemma find_last_dot:
  "CHR ''.'' \<notin> set ext \<Longrightarrow> find_last_char CHR ''.'' (stem @ CHR ''.'' # ext) = Some (length stem)"
  by (simp add: find_last_char_def find_char_append_notin)

lemma get_mime_type_ext:
  assumes "CHR ''.'' \<notin> set ext"
  shows "get_mime_type (stem @ CHR ''.'' # ext) = mime_lookup ext"
  using find_last_dot [OF assms, of stem]
  by (simp add: get_mime_type_def Let_def mime_lookup_def mime_table_def)

lemma get_mime_type_no_ext:
  "CHR ''.'' \<notin> set path \<Longrightarrow> get_mime_type path = ''application/octet-stream''"
  by (simp add: get_mime_type_def find_last_char_def find_char_NoneD)

lemma get_mime_type_no_cr: "CR \<notin> set (get_mime_type path)"
  by (auto simp: get_mime_type_def Let_def split: option.split)

section \<open>Every response can be put on the wire\<close>

lemma serve_static_file_safe:
  "serve_static_file fs mount path = Some res \<Longrightarrow> safe_response res"
  by (auto simp: serve_static_file_def Let_def ok_text_def safe_factories safe_response_set_header
      safe_field_def get_mime_type_no_cr split: if_splits option.splits)

definition safe_router :: "Router \<Rightarrow> bool" where
  "safe_router r =
     (\<forall>rt\<in>set (routes r). CR \<notin> set (rt_method rt) \<and>
        (\<forall>req res. rt_func rt req = Some res \<longrightarrow> safe_response res))"

lemma join_methods_no_cr: "\<forall>m\<in>set ms. CR \<notin> set m \<Longrightarrow> CR \<notin> set (join_methods ms)"
  by (induction ms rule: join_methods.induct) auto

lemma route_safe:
  assumes r: "safe_router r" and res: "route fs r request = Some res"
  shows "safe_response res"
proof -
  have handler: "safe_response (run_handler rt request)" if "rt \<in> set (routes r)" for rt
    using r that by (auto simp: safe_router_def run_handler_def safe_factories split: option.split)
  have "\<forall>m\<in>set (methods_for (rq_target request) (routes r)). CR \<notin> set m"
    using r by (auto simp: safe_router_def methods_for_def)
  then have allow: "CR \<notin> set (join_methods (dropWhile (\<lambda>m. m = [])
      (methods_for (rq_target request) (routes r))))"
    by (intro join_methods_no_cr) (auto dest: set_dropWhileD)
  show ?thesis
    using res handler allow
    by (auto simp: route_route_spec route_spec_def safe_factories serve_static_file_safe find_Some_iff
        split: option.splits if_splits)
qed

end
