(* ===== verification/Net_Socket.thy ===== *)
theory Net_Socket
  imports Prelude
begin

text \<open>
  \<open>include/net/socket.hpp\<close> and \<open>src/net/socket.cpp\<close>: the owner of a file descriptor.  The
  store holds the live \<open>Socket\<close> objects (an object is a number, its \<open>fd_\<close> an integer) and
  what the kernel knows: the open descriptors, and how often \<open>close\<close> was called on a
  descriptor that was not open.  Every member function that touches \<open>fd_\<close> is a function on
  the store; a program is any sequence of them, with descriptors coming from the kernel only.
\<close>

section \<open>State\<close>

record store =
  objs :: "nat \<Rightarrow> int option"
  open_fds :: "int set"
  bad_closes :: nat

definition empty_store :: store where
  "empty_store = \<lparr>objs = (\<lambda>_. None), open_fds = {}, bad_closes = 0\<rparr>"

definition is_valid :: "int \<Rightarrow> bool" where
  "is_valid fd = (fd \<noteq> -1)"

text \<open>The kernel's \<open>close\<close>.\<close>

definition sys_close :: "int \<Rightarrow> store \<Rightarrow> store" where
  "sys_close fd w =
     (if fd \<in> open_fds w then w\<lparr>open_fds := open_fds w - {fd}\<rparr>
      else w\<lparr>bad_closes := Suc (bad_closes w)\<rparr>)"

section \<open>Operations\<close>

definition fd_of :: "nat \<Rightarrow> store \<Rightarrow> int" where
  "fd_of i w = (case objs w i of Some fd \<Rightarrow> fd | None \<Rightarrow> -1)"

definition socket_close :: "nat \<Rightarrow> store \<Rightarrow> store" where
  "socket_close i w =
     (if is_valid (fd_of i w)
      then (sys_close (fd_of i w) w)\<lparr>objs := (objs w)(i \<mapsto> -1)\<rparr>
      else w)"

text \<open>The constructor from a descriptor.\<close>

definition socket_new :: "nat \<Rightarrow> int \<Rightarrow> store \<Rightarrow> store" where
  "socket_new i fd w = w\<lparr>objs := (objs w)(i \<mapsto> fd)\<rparr>"

text \<open>The default constructor.\<close>

definition socket_default :: "nat \<Rightarrow> store \<Rightarrow> store" where
  [simp]: "socket_default i w = socket_new i (-1) w"

text \<open>The move constructor: \<open>fd_(std::exchange(other.fd_, -1))\<close>.\<close>

definition socket_move_new :: "nat \<Rightarrow> nat \<Rightarrow> store \<Rightarrow> store" where
  "socket_move_new i other w = w\<lparr>objs := (objs w)(other \<mapsto> -1, i \<mapsto> fd_of other w)\<rparr>"

definition socket_move_assign :: "nat \<Rightarrow> nat \<Rightarrow> store \<Rightarrow> store" where
  "socket_move_assign i other w =
     (if i \<noteq> other then
        let w1 = socket_close i w in
        w1\<lparr>objs := (objs w1)(other \<mapsto> -1, i \<mapsto> fd_of other w1)\<rparr>
      else w)"

definition socket_destroy :: "nat \<Rightarrow> store \<Rightarrow> store" where
  "socket_destroy i w =
     (let w1 = socket_close i w in w1\<lparr>objs := (objs w1)(i := None)\<rparr>)"

text \<open>\<open>Socket::create\<close> (and \<open>Listener::accept\<close>): the kernel returns \<open>fd\<close>, which is a
  descriptor that was not open, or \<open>-1\<close>.\<close>

definition socket_create :: "nat \<Rightarrow> int \<Rightarrow> store \<Rightarrow> store" where
  "socket_create i fd w =
     (if fd = -1 then socket_new i (-1) w
      else socket_new i fd (w\<lparr>open_fds := insert fd (open_fds w)\<rparr>))"

section \<open>Socket options\<close>

text \<open>
  The option setters touch the kernel only.  The results of \<open>fcntl\<close> and \<open>setsockopt\<close> are
  arguments; \<open>None\<close> in the second component says that no system call was made.
\<close>

definition O_NONBLOCK :: "32 word" where "O_NONBLOCK = 2048"

definition set_nonblocking :: "int \<Rightarrow> 32 word \<Rightarrow> (32 word \<Rightarrow> int) \<Rightarrow> bool \<times> 32 word option" where
  "set_nonblocking fd flags setfl =
     (if \<not> is_valid fd then (False, None)
      else if flags = -1 then (False, None)
      else let new_flags = or flags O_NONBLOCK in (setfl new_flags \<noteq> -1, Some new_flags))"

datatype sockopt = SO_REUSEADDR int | SO_REUSEPORT int | SO_RCVTIMEO int int | SO_SNDTIMEO int int

definition set_option :: "int \<Rightarrow> sockopt \<Rightarrow> (int \<Rightarrow> sockopt \<Rightarrow> int) \<Rightarrow> bool" where
  "set_option fd opt setsockopt = (if \<not> is_valid fd then False else setsockopt fd opt \<noteq> -1)"

definition set_reuse_addr :: "int \<Rightarrow> (int \<Rightarrow> sockopt \<Rightarrow> int) \<Rightarrow> bool" where
  "set_reuse_addr fd setsockopt = set_option fd (SO_REUSEADDR 1) setsockopt"

definition set_reuse_port :: "int \<Rightarrow> (int \<Rightarrow> sockopt \<Rightarrow> int) \<Rightarrow> bool" where
  "set_reuse_port fd setsockopt = set_option fd (SO_REUSEPORT 1) setsockopt"

definition set_recv_timeout :: "int \<Rightarrow> int \<Rightarrow> (int \<Rightarrow> sockopt \<Rightarrow> int) \<Rightarrow> bool" where
  "set_recv_timeout fd seconds setsockopt = set_option fd (SO_RCVTIMEO seconds 0) setsockopt"

definition set_send_timeout :: "int \<Rightarrow> int \<Rightarrow> (int \<Rightarrow> sockopt \<Rightarrow> int) \<Rightarrow> bool" where
  "set_send_timeout fd seconds setsockopt = set_option fd (SO_SNDTIMEO seconds 0) setsockopt"

section \<open>Programs over sockets\<close>

text \<open>
  One rule per way the program uses the class.  New objects have new numbers; a moved-from
  and an assigned-to object are live; the kernel hands out descriptors that are not open.
\<close>

inductive sock_step :: "store \<Rightarrow> store \<Rightarrow> bool" where
  default: "objs w i = None \<Longrightarrow> sock_step w (socket_default i w)"
| create: "objs w i = None \<Longrightarrow> fd = -1 \<or> 0 \<le> fd \<and> fd \<notin> open_fds w \<Longrightarrow>
     sock_step w (socket_create i fd w)"
| move_new: "objs w i = None \<Longrightarrow> objs w other \<noteq> None \<Longrightarrow> sock_step w (socket_move_new i other w)"
| move_assign: "objs w i \<noteq> None \<Longrightarrow> objs w other \<noteq> None \<Longrightarrow>
     sock_step w (socket_move_assign i other w)"
| close: "objs w i \<noteq> None \<Longrightarrow> sock_step w (socket_close i w)"
| destroy: "objs w i \<noteq> None \<Longrightarrow> sock_step w (socket_destroy i w)"

inductive_cases sock_stepE: "sock_step w w'"

text \<open>The ownership invariant: live valid objects and open descriptors correspond one to one.\<close>

definition own_inv :: "store \<Rightarrow> bool" where
  "own_inv w =
     (bad_closes w = 0 \<and> -1 \<notin> open_fds w \<and>
      (\<forall>i fd. objs w i = Some fd \<longrightarrow> fd \<noteq> -1 \<longrightarrow> fd \<in> open_fds w) \<and>
      (\<forall>i j fd. objs w i = Some fd \<longrightarrow> objs w j = Some fd \<longrightarrow> fd \<noteq> -1 \<longrightarrow> i = j) \<and>
      (\<forall>fd\<in>open_fds w. \<exists>i. objs w i = Some fd))"

lemma own_invI:
  assumes "bad_closes w = 0" "-1 \<notin> open_fds w"
    and "\<And>i fd. objs w i = Some fd \<Longrightarrow> fd \<noteq> -1 \<Longrightarrow> fd \<in> open_fds w"
    and "\<And>i j fd. objs w i = Some fd \<Longrightarrow> objs w j = Some fd \<Longrightarrow> fd \<noteq> -1 \<Longrightarrow> i = j"
    and "\<And>fd. fd \<in> open_fds w \<Longrightarrow> \<exists>i. objs w i = Some fd"
  shows "own_inv w"
  using assms unfolding own_inv_def by blast

lemma own_invD:
  assumes "own_inv w"
  shows own_no_bad: "bad_closes w = 0" and own_no_minus: "-1 \<notin> open_fds w"
    and own_open: "objs w i = Some fd \<Longrightarrow> fd \<noteq> -1 \<Longrightarrow> fd \<in> open_fds w"
    and own_unique: "objs w i = Some fd \<Longrightarrow> objs w j = Some fd \<Longrightarrow> fd \<noteq> -1 \<Longrightarrow> i = j"
    and own_owner: "fd \<in> open_fds w \<Longrightarrow> \<exists>i. objs w i = Some fd"
  using assms unfolding own_inv_def by blast+

lemma own_inv_empty: "own_inv empty_store"
  by (simp add: own_inv_def empty_store_def)

lemma own_inv_owned:
  "own_inv w \<Longrightarrow> is_valid (fd_of i w) \<Longrightarrow> fd_of i w \<in> open_fds w \<and> objs w i = Some (fd_of i w)"
  by (auto simp: own_open fd_of_def is_valid_def split: option.splits)

text \<open>An object that owns nothing can come, be emptied or go.\<close>

lemma fd_unique:
  assumes own: "own_inv w" and eq: "fd_of x w = fd_of y w" and fd: "fd_of x w \<noteq> -1"
  shows "x = y"
proof -
  have "objs w x = Some (fd_of x w)" "objs w y = Some (fd_of x w)"
    using own_inv_owned [OF own, of x] own_inv_owned [OF own, of y] eq fd by (simp_all add: is_valid_def)
  with fd show ?thesis using own_unique [OF own] by blast
qed

lemma own_inv_idle:
  assumes inv: "own_inv w" and i: "fd_of i w = -1" and v: "v = None \<or> v = Some (-1)"
  shows "own_inv (w\<lparr>objs := (objs w)(i := v)\<rparr>)"
proof (rule own_invI)
  fix fd
  assume "fd \<in> open_fds (w\<lparr>objs := (objs w)(i := v)\<rparr>)"
  then have fd: "fd \<in> open_fds w" by simp
  then obtain j where j: "objs w j = Some fd" using own_owner [OF inv] by blast
  moreover have "j \<noteq> i" using i j fd own_no_minus [OF inv] by (auto simp: fd_of_def)
  ultimately show "\<exists>i'. objs (w\<lparr>objs := (objs w)(i := v)\<rparr>) i' = Some fd" by auto
qed (use v own_invD [OF inv] in \<open>auto split: if_splits\<close>)

lemma own_inv_new:
  "own_inv w \<Longrightarrow> objs w i = None \<Longrightarrow> own_inv (socket_new i (-1) w)"
  unfolding socket_new_def by (rule own_inv_idle) (auto simp: fd_of_def)

lemma own_inv_create:
  assumes inv: "own_inv w" and i: "objs w i = None" and fd: "fd = -1 \<or> 0 \<le> fd \<and> fd \<notin> open_fds w"
  shows "own_inv (socket_create i fd w)"
proof (cases "fd = -1")
  case True
  with inv i show ?thesis by (simp add: own_inv_new socket_create_def)
next
  case False
  with fd have f: "0 \<le> fd" "fd \<notin> open_fds w" by auto
  have "objs w j \<noteq> Some fd" for j using own_open [OF inv] f by fastforce
  moreover have "\<exists>j. (j = i \<longrightarrow> fd = g) \<and> (j \<noteq> i \<longrightarrow> objs w j = Some g)" if "g \<in> open_fds w" for g
    using own_owner [OF inv that] i by (metis option.distinct(1))
  ultimately show ?thesis
    using f own_invD [OF inv]
    by (intro own_invI) (auto simp: socket_create_def socket_new_def split: if_splits)
qed

lemma own_inv_close:
  assumes inv: "own_inv w"
  shows "own_inv (socket_close i w)"
proof (cases "is_valid (fd_of i w)")
  case True
  define f where "f = fd_of i w"
  have f: "f \<in> open_fds w" "objs w i = Some f" "f \<noteq> -1"
    using own_inv_owned [OF inv True] True by (auto simp: f_def is_valid_def)
  have eq: "socket_close i w = w\<lparr>open_fds := open_fds w - {f}, objs := (objs w)(i \<mapsto> -1)\<rparr>"
    using True f by (simp add: socket_close_def sys_close_def f_def [symmetric])
  have "\<exists>j. (j = i \<longrightarrow> -1 = g) \<and> (j \<noteq> i \<longrightarrow> objs w j = Some g)" if "g \<in> open_fds w" "g \<noteq> f" for g
    using own_owner [OF inv that(1)] that(2) f(2) by (metis option.inject)
  moreover have "objs w j = Some f \<Longrightarrow> j = i" for j
    using own_unique [OF inv _ f(2) f(3)] by blast
  ultimately show ?thesis
    unfolding eq using own_invD [OF inv]
    by (intro own_invI) (auto split: if_splits)
next
  case False
  with inv show ?thesis by (simp add: socket_close_def)
qed

text \<open>Ownership passes to an object that owns nothing.\<close>

lemma own_inv_transfer:
  assumes inv: "own_inv w" and ne: "i \<noteq> other" and i: "fd_of i w = -1" and o: "objs w other \<noteq> None"
  shows "own_inv (w\<lparr>objs := (objs w)(other \<mapsto> -1, i \<mapsto> fd_of other w)\<rparr>)"
proof -
  obtain f where f: "objs w other = Some f" "fd_of other w = f" using o by (auto simp: fd_of_def)
  have i': "objs w i \<noteq> Some g" if "g \<noteq> -1" for g using i that by (auto simp: fd_of_def)
  have own: "objs w j = Some f \<Longrightarrow> f \<noteq> -1 \<Longrightarrow> j = other" for j
    using own_unique [OF inv _ f(1)] by blast
  have "\<exists>j. j \<noteq> i \<and> j \<noteq> other \<and> objs w j = Some g" if "g \<in> open_fds w" "g \<noteq> f" for g
  proof -
    from own_owner [OF inv that(1)] obtain j where "objs w j = Some g" by (elim exE)
    moreover have "g \<noteq> -1" using own_no_minus [OF inv] that(1) by auto
    ultimately show ?thesis using i' that(2) f(1) by fastforce
  qed
  with own f i' own_invD [OF inv] ne show ?thesis
    by (intro own_invI) (fastforce split: if_splits)+
qed

lemma fd_of_closed: "fd_of i (socket_close i w) = -1"
  by (simp add: socket_close_def fd_of_def is_valid_def split: option.split)

lemma socket_close_other:
  "i \<noteq> j \<Longrightarrow> objs (socket_close i w) j = objs w j"
  by (simp add: socket_close_def)

lemma own_inv_move_new:
  assumes inv: "own_inv w" and i: "objs w i = None"
  shows "own_inv (socket_move_new i other w)"
proof (cases "objs w other = None")
  case True
  then have "own_inv (w\<lparr>objs := (objs w)(other \<mapsto> -1)\<rparr>)"
    using own_inv_idle [OF inv] by (simp add: fd_of_def)
  from own_inv_idle [OF this, of i "Some (-1)"] True i show ?thesis
    by (simp add: socket_move_new_def fd_of_def)
next
  case False
  with inv i show ?thesis
    unfolding socket_move_new_def by (intro own_inv_transfer) (auto simp: fd_of_def)
qed

lemma own_inv_move_assign:
  "own_inv w \<Longrightarrow> objs w other \<noteq> None \<Longrightarrow> own_inv (socket_move_assign i other w)"
  by (auto simp: socket_move_assign_def Let_def own_inv_close fd_of_closed socket_close_other
      intro!: own_inv_transfer)

lemma own_inv_destroy: "own_inv w \<Longrightarrow> own_inv (socket_destroy i w)"
  unfolding socket_destroy_def Let_def
  by (rule own_inv_idle) (simp_all add: own_inv_close fd_of_closed)

lemma own_inv_step: "own_inv w \<Longrightarrow> sock_step w w' \<Longrightarrow> own_inv w'"
  by (erule sock_stepE)
    (simp_all add: own_inv_new own_inv_create own_inv_close own_inv_move_new own_inv_move_assign
      own_inv_destroy)

section \<open>What the operations leave\<close>

lemma objs_new [simp]: "objs (socket_new i fd w) = (objs w)(i \<mapsto> fd)"
  by (simp add: socket_new_def)

lemma open_fds_new [simp]: "open_fds (socket_new i fd w) = open_fds w"
  by (simp add: socket_new_def)

lemma objs_create [simp]: "objs (socket_create i fd w) = (objs w)(i \<mapsto> fd)"
  by (simp add: socket_create_def)

lemma open_fds_create [simp]:
  "open_fds (socket_create i fd w) = (if fd = -1 then open_fds w else insert fd (open_fds w))"
  by (simp add: socket_create_def)

lemma objs_move_new [simp]:
  "objs (socket_move_new i other w) = (objs w)(other \<mapsto> -1, i \<mapsto> fd_of other w)"
  by (simp add: socket_move_new_def)

lemma open_fds_move_new [simp]: "open_fds (socket_move_new i other w) = open_fds w"
  by (simp add: socket_move_new_def)

lemma objs_destroy [simp]: "objs (socket_destroy i w) = (objs w)(i := None)"
  by (simp add: socket_destroy_def Let_def socket_close_def sys_close_def)

lemma open_fds_close: "own_inv w \<Longrightarrow> open_fds (socket_close i w) = open_fds w - {fd_of i w}"
  using own_inv_owned [of w i] own_no_minus [of w]
  by (auto simp: socket_close_def sys_close_def is_valid_def)

lemma open_fds_destroy [simp]:
  "own_inv w \<Longrightarrow> open_fds (socket_destroy i w) = open_fds w - {fd_of i w}"
  by (simp add: socket_destroy_def Let_def open_fds_close)

lemma objs_destroy_None: "objs (socket_destroy i w) x = None \<longleftrightarrow> x = i \<or> objs w x = None"
  by simp

lemma objs_close_None: "objs (socket_close i w) x = None \<longleftrightarrow> objs w x = None"
  by (auto simp: socket_close_def fd_of_def is_valid_def split: option.splits)

lemma own_inv_fold_destroy: "own_inv w \<Longrightarrow> own_inv (fold socket_destroy xs w)"
  by (induction xs arbitrary: w) (auto simp: own_inv_destroy)

lemma objs_fold_destroy:
  "objs (fold socket_destroy xs w) x = (if x \<in> set xs then None else objs w x)"
  by (induction xs arbitrary: w) auto

lemma no_object_no_fd: "own_inv w \<Longrightarrow> (\<And>x. objs w x = None) \<Longrightarrow> open_fds w = {}"
  using own_owner by fastforce

interpretation sockets: invariant_system "\<lambda>w. w = empty_store" sock_step own_inv
  by unfold_locales (auto simp: own_inv_empty own_inv_step)

end
