(* ===== verification/Net_Connection.thy ===== *)
theory Net_Connection
  imports Net_Socket Cpp_Std
begin

text \<open>
  \<open>include/net/connection.hpp\<close> and \<open>src/net/connection.cpp\<close>: the read and write loops of a
  connection.  What the kernel will do is a script: the data and conditions \<open>recv\<close> will meet,
  the room and conditions \<open>send\<close> will meet.  A call on an exhausted script meets a silent peer: it
  fails with EAGAIN, at once on a non-blocking socket and otherwise after the time limit set on
  it, and does not return (\<open>Blocks\<close>) if none is set (0, the kernel's default).  \<open>wire\<close> collects what the peer has been sent.
\<close>

section \<open>The kernel's side\<close>

text \<open>\<open>RBytes []\<close> is the end of the stream: \<open>recv\<close> returns 0.\<close>

datatype recv_event = RBytes bytes | RIntr | RAgain | RFail

text \<open>\<open>SRoom n\<close>: \<open>send\<close> takes at most \<open>n\<close> bytes.  \<open>SPipe\<close>: the peer has gone (EPIPE), which
  raises SIGPIPE unless the call says \<open>MSG_NOSIGNAL\<close>.\<close>

datatype send_event = SRoom nat | SIntr | SAgain | SPipe | SFail

record net_io =
  inq :: "recv_event list"
  outq :: "send_event list"
  wire :: bytes
  rcv_timeo :: int
  snd_timeo :: int
  nonblock :: bool

datatype 'a outcome = Returns 'a | Blocks | Killed_by_SIGPIPE

datatype errno = EINTR | EAGAIN | EOTHER

definition sys_recv :: "nat \<Rightarrow> net_io \<Rightarrow> (errno + bytes) outcome \<times> net_io" where
  "sys_recv n io =
     (case inq io of
        [] \<Rightarrow> (if nonblock io \<or> rcv_timeo io \<noteq> 0 then Returns (Inl EAGAIN) else Blocks, io)
      | RBytes bs # es \<Rightarrow>
          (Returns (Inr (take n bs)),
           io\<lparr>inq := (if n < length bs then RBytes (drop n bs) # es else es)\<rparr>)
      | RIntr # es \<Rightarrow> (Returns (Inl EINTR), io\<lparr>inq := es\<rparr>)
      | RAgain # es \<Rightarrow> (Returns (Inl EAGAIN), io\<lparr>inq := es\<rparr>)
      | RFail # es \<Rightarrow> (Returns (Inl EOTHER), io\<lparr>inq := es\<rparr>))"

definition sys_send :: "bool \<Rightarrow> bytes \<Rightarrow> net_io \<Rightarrow> (errno + nat) outcome \<times> net_io" where
  "sys_send nosignal data io =
     (case outq io of
        [] \<Rightarrow> (if nonblock io \<or> snd_timeo io \<noteq> 0 then Returns (Inl EAGAIN) else Blocks, io)
      | SRoom n # es \<Rightarrow>
          (Returns (Inr (min n (length data))),
           io\<lparr>outq := es, wire := wire io @ take n data\<rparr>)
      | SIntr # es \<Rightarrow> (Returns (Inl EINTR), io\<lparr>outq := es\<rparr>)
      | SAgain # es \<Rightarrow> (Returns (Inl EAGAIN), io\<lparr>outq := es\<rparr>)
      | SPipe # es \<Rightarrow>
          (if nosignal then Returns (Inl EOTHER) else Killed_by_SIGPIPE, io\<lparr>outq := es\<rparr>)
      | SFail # es \<Rightarrow> (Returns (Inl EOTHER), io\<lparr>outq := es\<rparr>))"

text \<open>The size of what is still to be received, for the termination of the read loops.\<close>

definition event_size :: "recv_event \<Rightarrow> nat" where
  "event_size e = (case e of RBytes bs \<Rightarrow> Suc (length bs) | _ \<Rightarrow> 1)"

definition inq_size :: "net_io \<Rightarrow> nat" where
  "inq_size io = sum_list (map event_size (inq io))"

lemma sys_recv_size:
  "sys_recv n io = (Returns r, io') \<Longrightarrow> r \<noteq> Inl EAGAIN \<Longrightarrow> 0 < n \<Longrightarrow> inq_size io' < inq_size io"
  by (auto simp: sys_recv_def inq_size_def event_size_def
      split: list.splits recv_event.splits if_splits)

lemmas sys_recv_size_sym = sys_recv_size [OF sym]

lemma sys_recv_frame:
  "sys_recv n io = (r, io') \<Longrightarrow> outq io' = outq io \<and> wire io' = wire io \<and>
     rcv_timeo io' = rcv_timeo io \<and> snd_timeo io' = snd_timeo io \<and> nonblock io' = nonblock io"
  by (auto simp: sys_recv_def split: list.splits recv_event.splits)

lemma sys_recv_length: "sys_recv n io = (Returns (Inr bs), io') \<Longrightarrow> length bs \<le> n"
  by (auto simp: sys_recv_def split: list.splits recv_event.splits if_splits)

lemma sys_recv_returns: "sys_recv n io = (Blocks, io') \<Longrightarrow> rcv_timeo io = 0 \<and> \<not> nonblock io"
  by (auto simp: sys_recv_def split: list.splits recv_event.splits if_splits)

lemma sys_recv_no_pipe: "sys_recv n io = (r, io') \<Longrightarrow> r \<noteq> Killed_by_SIGPIPE"
  by (auto simp: sys_recv_def split: list.splits recv_event.splits if_splits)

lemma sys_send_frame:
  "sys_send f d io = (r, io') \<Longrightarrow> inq io' = inq io \<and> rcv_timeo io' = rcv_timeo io \<and>
     snd_timeo io' = snd_timeo io \<and> nonblock io' = nonblock io"
  by (auto simp: sys_send_def split: list.splits send_event.splits)

lemma sys_send_shrinks:
  "(Returns r, io') = sys_send f d io \<Longrightarrow> r \<noteq> Inl EAGAIN \<Longrightarrow> length (outq io') < length (outq io)"
  by (auto simp: sys_send_def split: list.splits send_event.splits if_splits)

lemma sys_send_returns: "sys_send f d io = (Blocks, io') \<Longrightarrow> snd_timeo io = 0 \<and> \<not> nonblock io"
  by (auto simp: sys_send_def split: list.splits send_event.splits if_splits)

lemma sys_send_sent:
  "sys_send f d io = (Returns (Inr n), io') \<Longrightarrow> n \<le> length d \<and> wire io' = wire io @ take n d"
  by (auto simp: sys_send_def min_def split: list.splits send_event.splits if_splits)

lemma sys_send_script:
  "sys_send f d io = (r, io') \<Longrightarrow> set (outq io') \<subseteq> set (outq io)"
  "sys_send f d io = (Killed_by_SIGPIPE, io') \<Longrightarrow> SPipe \<in> set (outq io)"
  by (auto simp: sys_send_def split: list.splits send_event.splits if_splits)

lemma sys_send_none:
  "sys_send f d io = (r, io') \<Longrightarrow> (\<And>n. r \<noteq> Returns (Inr n)) \<Longrightarrow> wire io' = wire io"
  by (auto simp: sys_send_def split: list.splits send_event.splits)

lemma sys_send_nosignal: "sys_send True d io = (r, io') \<Longrightarrow> r \<noteq> Killed_by_SIGPIPE"
  by (auto simp: sys_send_def split: list.splits send_event.splits if_splits)

section \<open>Reading\<close>

record Connection =
  conn_fd :: int
  read_buffer :: bytes

text \<open>The constructor moves the socket in; \<open>fd\<close> is the descriptor it brings.\<close>

definition new_connection :: "int \<Rightarrow> Connection" where
  "new_connection fd = \<lparr>conn_fd = fd, read_buffer = []\<rparr>"

definition is_open :: "Connection \<Rightarrow> bool" where
  "is_open c = is_valid (conn_fd c)"

definition connection_fd :: "Connection \<Rightarrow> int" where
  [simp]: "connection_fd c = conn_fd c"

lemma is_open_new [simp]: "is_open (new_connection fd) = (fd \<noteq> -1)"
  by (simp add: is_open_def is_valid_def new_connection_def)

text \<open>The results of the read functions: \<open>Got bs\<close> for a count of \<open>length bs\<close> (0 is a
  disconnect), \<open>Read_error\<close> for \<open>-1\<close>.\<close>

datatype read_result = Got bytes | Read_error

function read_some_loop :: "nat \<Rightarrow> net_io \<Rightarrow> read_result outcome \<times> net_io" where
  "read_some_loop n io =
     (if n = 0 then (Returns (Got []), io)
      else
        (case sys_recv n io of
           (Returns (Inl EINTR), io') \<Rightarrow> read_some_loop n io'
         | (Returns (Inl _), io') \<Rightarrow> (Returns Read_error, io')
         | (Returns (Inr bs), io') \<Rightarrow> (Returns (Got bs), io')
         | (Blocks, io') \<Rightarrow> (Blocks, io')
         | (Killed_by_SIGPIPE, io') \<Rightarrow> (Killed_by_SIGPIPE, io')))"
  by pat_completeness auto
termination
  by (relation "measure (\<lambda>(n, io). inq_size io)") (auto intro: sys_recv_size_sym)

declare read_some_loop.simps [simp del]

definition read_some :: "Connection \<Rightarrow> nat \<Rightarrow> net_io \<Rightarrow> read_result outcome \<times> net_io" where
  "read_some c max_size io =
     (if \<not> is_open c \<or> max_size = 0 then (Returns (Got []), io) else read_some_loop max_size io)"

function read_all_loop :: "nat \<Rightarrow> bytes \<Rightarrow> net_io \<Rightarrow> read_result outcome \<times> net_io" where
  "read_all_loop remaining total_read io =
     (if remaining = 0 then (Returns (Got total_read), io)
      else
        (case sys_recv remaining io of
           (Returns (Inl EINTR), io') \<Rightarrow> read_all_loop remaining total_read io'
         | (Returns (Inl EAGAIN), io') \<Rightarrow> (Returns (Got total_read), io')
         | (Returns (Inl EOTHER), io') \<Rightarrow> (Returns Read_error, io')
         | (Returns (Inr bs), io') \<Rightarrow>
             if bs = [] then (Returns (Got total_read), io')
             else read_all_loop (remaining - length bs) (total_read @ bs) io'
         | (Blocks, io') \<Rightarrow> (Blocks, io')
         | (Killed_by_SIGPIPE, io') \<Rightarrow> (Killed_by_SIGPIPE, io')))"
  by pat_completeness auto
termination
  by (relation "measure (\<lambda>(n, t, io). inq_size io)") (auto intro: sys_recv_size_sym)

declare read_all_loop.simps [simp del]

definition read_all :: "Connection \<Rightarrow> nat \<Rightarrow> net_io \<Rightarrow> read_result outcome \<times> net_io" where
  "read_all c max_size io =
     (if \<not> is_open c \<or> max_size = 0 then (Returns (Got []), io)
      else read_all_loop max_size [] io)"

text \<open>
  \<open>read_until\<close>: the result is the caller's \<open>buffer\<close> if the delimiter was found; the
  connection keeps what came after it.
\<close>

definition CHUNK_SIZE :: nat where "CHUNK_SIZE = 4096"

function read_until_loop ::
  "string \<Rightarrow> nat \<Rightarrow> Connection \<Rightarrow> net_io \<Rightarrow> bytes option outcome \<times> Connection \<times> net_io" where
  "read_until_loop delimiter max_size c io =
     (if \<not> length (read_buffer c) < max_size then (Returns None, c, io)
      else
        let to_read = min CHUNK_SIZE (max_size - length (read_buffer c)) in
        (case sys_recv to_read io of
           (Returns (Inl EINTR), io') \<Rightarrow> read_until_loop delimiter max_size c io'
         | (Returns (Inl EAGAIN), io') \<Rightarrow> (Returns None, c, io')
         | (Returns (Inl EOTHER), io') \<Rightarrow> (Returns None, c, io')
         | (Returns (Inr bs), io') \<Rightarrow>
             if bs = [] then (Returns None, c, io')
             else
               let old_size = length (read_buffer c);
                   buf = read_buffer c @ bs;
                   start_pos = (if old_size \<ge> length delimiter
                                then old_size - length delimiter + 1 else 0) in
               (case find_str_from delimiter buf start_pos of
                  Some pos \<Rightarrow>
                    (Returns (Some (take (pos + length delimiter) buf)),
                     c\<lparr>read_buffer := drop (pos + length delimiter) buf\<rparr>, io')
                | None \<Rightarrow> read_until_loop delimiter max_size (c\<lparr>read_buffer := buf\<rparr>) io')
         | (Blocks, io') \<Rightarrow> (Blocks, c, io')
         | (Killed_by_SIGPIPE, io') \<Rightarrow> (Killed_by_SIGPIPE, c, io')))"
  by pat_completeness auto
termination
  by (relation "measure (\<lambda>(d, m, c, io). inq_size io)")
    (auto intro: sys_recv_size_sym simp: CHUNK_SIZE_def)

declare read_until_loop.simps [simp del]

definition read_until ::
  "string \<Rightarrow> nat \<Rightarrow> Connection \<Rightarrow> net_io \<Rightarrow> bytes option outcome \<times> Connection \<times> net_io" where
  "read_until delimiter max_size c io =
     (if \<not> is_open c then (Returns None, c, io)
      else
        (case find_str delimiter (read_buffer c) of
           Some pos \<Rightarrow>
             (Returns (Some (take (pos + length delimiter) (read_buffer c))),
              c\<lparr>read_buffer := drop (pos + length delimiter) (read_buffer c)\<rparr>, io)
         | None \<Rightarrow> read_until_loop delimiter max_size c io))"

section \<open>Writing\<close>

text \<open>\<open>write_all\<close> calls \<open>send\<close> with flags 0.\<close>

function write_loop :: "bytes \<Rightarrow> net_io \<Rightarrow> bool outcome \<times> net_io" where
  "write_loop data io =
     (if data = [] then (Returns True, io)
      else
        (case sys_send False data io of
           (Returns (Inl EINTR), io') \<Rightarrow> write_loop data io'
         | (Returns (Inl _), io') \<Rightarrow> (Returns False, io')
         | (Returns (Inr n), io') \<Rightarrow> write_loop (drop n data) io'
         | (Blocks, io') \<Rightarrow> (Blocks, io')
         | (Killed_by_SIGPIPE, io') \<Rightarrow> (Killed_by_SIGPIPE, io')))"
  by pat_completeness auto
termination
  by (relation "measure (\<lambda>(d, io). length (outq io))") (auto intro: sys_send_shrinks)

declare write_loop.simps [simp del]

definition write_all :: "Connection \<Rightarrow> bytes \<Rightarrow> net_io \<Rightarrow> bool outcome \<times> net_io" where
  "write_all c data io =
     (if \<not> is_open c \<or> data = [] then (Returns True, io) else write_loop data io)"

text \<open>The time limits of the calls, through the socket's options.  \<open>setsockopt\<close> of \<open>SO_RCVTIMEO\<close> and
  \<open>SO_SNDTIMEO\<close> on an open descriptor of a socket, with a whole \<open>timeval\<close> whose microseconds are zero,
  has no way to fail: \<open>EBADF\<close>, \<open>ENOTSOCK\<close>, \<open>EFAULT\<close>, \<open>EINVAL\<close> and \<open>EDOM\<close> are excluded by these arguments, so
  the result, which the server ignores, is not one of the definition.\<close>

definition set_read_timeout :: "Connection \<Rightarrow> int \<Rightarrow> net_io \<Rightarrow> net_io" where
  "set_read_timeout c seconds io = (if is_open c then io\<lparr>rcv_timeo := seconds\<rparr> else io)"

definition set_write_timeout :: "Connection \<Rightarrow> int \<Rightarrow> net_io \<Rightarrow> net_io" where
  "set_write_timeout c seconds io = (if is_open c then io\<lparr>snd_timeo := seconds\<rparr> else io)"

definition connection_close :: "Connection \<Rightarrow> Connection" where
  "connection_close c = c\<lparr>conn_fd := -1\<rparr>"

section \<open>No byte is lost or made up\<close>

text \<open>The bytes the kernel still holds for the program.\<close>

definition event_bytes :: "recv_event \<Rightarrow> bytes" where
  "event_bytes e = (case e of RBytes bs \<Rightarrow> bs | _ \<Rightarrow> [])"

definition pending :: "net_io \<Rightarrow> bytes" where
  "pending io = concat (map event_bytes (inq io))"

text \<open>The law of \<open>recv\<close> that the readers rest on, and what follows for any reader.\<close>

locale byte_source =
  fixes recv :: "nat \<Rightarrow> 'io \<Rightarrow> (errno + bytes) outcome \<times> 'io"
    and avail :: "'io \<Rightarrow> bytes"
  assumes recv_bytes: "recv n io = (Returns (Inr bs), io') \<Longrightarrow> avail io = bs @ avail io' \<and> length bs \<le> n"
    and recv_error: "recv n io = (Returns (Inl e), io') \<Longrightarrow> avail io' = avail io"
    and recv_blocks: "recv n io = (Blocks, io') \<Longrightarrow> io' = io"
    and recv_no_signal: "recv n io \<noteq> (Killed_by_SIGPIPE, io')"
begin

lemma recv_prefix: "recv n io = (Returns (Inr bs), io') \<Longrightarrow> take (length bs) (avail io) = bs"
  by (drule recv_bytes) simp

lemma recv_avail: "recv n io = (r, io') \<Longrightarrow> \<exists>bs. avail io = bs @ avail io'"
proof -
  assume r: "recv n io = (r, io')"
  show ?thesis
  proof (cases r)
    case (Returns x)
    with r show ?thesis by (cases x) (auto dest: recv_bytes recv_error)
  next
    case Blocks
    with r show ?thesis by (auto dest: recv_blocks)
  next
    case Killed_by_SIGPIPE
    with r recv_no_signal show ?thesis by auto
  qed
qed

end

interpretation kernel: byte_source sys_recv pending
  by unfold_locales
    (auto simp: sys_recv_def pending_def event_bytes_def
      split: list.splits recv_event.splits if_splits)

lemma read_some_loop_bytes:
  "read_some_loop n io = (Returns (Got bs), io') \<Longrightarrow> pending io = bs @ pending io' \<and> length bs \<le> n"
proof (induction n io rule: read_some_loop.induct)
  case (1 n io)
  then show ?case
    by (auto simp: read_some_loop.simps [of n io] kernel.recv_error kernel.recv_bytes
        split: prod.splits outcome.splits sum.splits errno.splits if_splits
        dest: kernel.recv_bytes kernel.recv_error)
qed

lemma read_some_loop_size:
  "read_some_loop n io = (Returns (Got bs), io') \<Longrightarrow> 0 < n \<Longrightarrow> inq_size io' < inq_size io"
proof (induction n io rule: read_some_loop.induct)
  case (1 n io)
  then show ?case
    by (auto simp: read_some_loop.simps [of n io]
        split: prod.splits outcome.splits sum.splits errno.splits if_splits
        dest: sys_recv_size) (meson errno.distinct(1) less_trans sum.inject(1) sys_recv_size)
qed

lemma read_some_loop_frame:
  "read_some_loop n io = (r, io') \<Longrightarrow> outq io' = outq io \<and> wire io' = wire io \<and>
     rcv_timeo io' = rcv_timeo io \<and> snd_timeo io' = snd_timeo io \<and> nonblock io' = nonblock io \<and>
     (r = Blocks \<longrightarrow> rcv_timeo io = 0) \<and> r \<noteq> Killed_by_SIGPIPE"
proof (induction n io rule: read_some_loop.induct)
  case (1 n io)
  then show ?case
    by (auto simp: read_some_loop.simps [of n io]
        split: prod.splits outcome.splits sum.splits errno.splits if_splits
        dest: sys_recv_frame sys_recv_returns sys_recv_no_pipe)
qed

lemma read_all_loop_bytes:
  "read_all_loop n t io = (Returns (Got bs), io') \<Longrightarrow>
     \<exists>new. bs = t @ new \<and> pending io = new @ pending io' \<and> length new \<le> n"
proof (induction n t io rule: read_all_loop.induct)
  case (1 n t io)
  show ?case
  proof (cases "n = 0")
    case True
    with "1.prems" show ?thesis by (simp add: read_all_loop.simps [of 0 t io])
  next
    case n: False
    obtain r io1 where r: "sys_recv n io = (r, io1)" by (cases "sys_recv n io")
    note unfold = read_all_loop.simps [of n t io]
    consider (data) d where "r = Returns (Inr d)" "d \<noteq> []" | (eof) "r = Returns (Inr [])"
      | (intr) "r = Returns (Inl EINTR)" | (again) "r = Returns (Inl EAGAIN)"
      using "1.prems" n r unfold
      by (auto split: outcome.splits sum.splits errno.splits if_splits)
    then show ?thesis
    proof cases
      case data
      with r have rd: "pending io = d @ pending io1" "length d \<le> n"
        using kernel.recv_bytes by blast+
      from "1.prems" n r data have "read_all_loop (n - length d) (t @ d) io1 = (Returns (Got bs), io')"
        by (simp add: unfold)
      with "1.IH"(2) [OF n r [symmetric] data(1) refl data(2)] obtain new where
        "bs = (t @ d) @ new" "pending io1 = new @ pending io'" "length new \<le> n - length d"
        by blast
      with rd show ?thesis by (intro exI [of _ "d @ new"]) simp
    next
      case eof
      with "1.prems" n r kernel.recv_bytes [of n io "[]" io1] show ?thesis by (simp add: unfold)
    next
      case intr
      with "1.prems" n r have "read_all_loop n t io1 = (Returns (Got bs), io')" by (simp add: unfold)
      with "1.IH"(1) [OF n r [symmetric] intr refl] kernel.recv_error r intr show ?thesis by auto
    next
      case again
      with "1.prems" n r kernel.recv_error show ?thesis by (auto simp: unfold)
    qed
  qed
qed

section \<open>\<open>read_until\<close>\<close>

text \<open>
  The first occurrence of the delimiter ends the caller's buffer, and buffer and rest make
  up what was there.
\<close>

definition delimited :: "string \<Rightarrow> bytes \<Rightarrow> bool" where
  "delimited d b = (\<exists>b0. b = b0 @ d \<and> find_str d b = Some (length b0))"

lemma find_str_cut:
  assumes "find_str d s = Some i"
  shows "delimited d (take (i + length d) s)"
proof -
  obtain t where t: "drop i s = d @ t"
    using find_str_at [OF assms] by (auto simp: starts_with_ex)
  then have "take (i + length d) s = take i s @ d" by (simp add: take_add)
  moreover have "find_str d (take i s @ d) = Some (length (take i s))"
  proof (cases "find_str d (take i s @ d)")
    case None
    have "i \<le> length (take i s @ d)" "drop i (take i s @ d) = d"
      using find_str_bound [OF assms] by simp_all
    with None starts_with_append [of d "[]"] show ?thesis
      unfolding find_str_None_iff by fastforce
  next
    case (Some j)
    from t have s: "s = (take i s @ d) @ t" by (metis append.assoc append_take_drop_id)
    have "find_str d s = Some j" using find_str_mono [OF Some, of t] s by simp
    with assms Some find_str_bound [OF assms] show ?thesis by simp
  qed
  ultimately show ?thesis by (auto simp: delimited_def)
qed

text \<open>One turn of the loop that has received data: the search near the end of the buffer is a search of
  the whole buffer.\<close>

lemma read_until_loop_data:
  assumes none: "find_str d (read_buffer c) = None" and room: "length (read_buffer c) < m"
    and r: "sys_recv (min CHUNK_SIZE (m - length (read_buffer c))) io = (Returns (Inr bs), io1)" "bs \<noteq> []"
  shows "read_until_loop d m c io =
    (case find_str d (read_buffer c @ bs) of
       Some pos \<Rightarrow> (Returns (Some (take (pos + length d) (read_buffer c @ bs))),
         c\<lparr>read_buffer := drop (pos + length d) (read_buffer c @ bs)\<rparr>, io1)
     | None \<Rightarrow> read_until_loop d m (c\<lparr>read_buffer := read_buffer c @ bs\<rparr>) io1)"
  using find_str_near_end [OF none refl] room r by (simp add: read_until_loop.simps [of d m c io] Let_def)

text \<open>What the loop keeps: nothing of the stream is lost.\<close>

definition read_until_keeps :: "string \<Rightarrow> Connection \<Rightarrow> net_io \<Rightarrow> bytes option \<Rightarrow> Connection \<Rightarrow> net_io \<Rightarrow> bool" where
  "read_until_keeps d c io res c' io' =
     (conn_fd c' = conn_fd c \<and>
      (case res of
         Some b \<Rightarrow> delimited d b \<and> read_buffer c @ pending io = b @ read_buffer c' @ pending io'
       | None \<Rightarrow> find_str d (read_buffer c') = None \<and>
                 read_buffer c @ pending io = read_buffer c' @ pending io'))"

lemma read_until_keeps_step:
  "read_until_keeps d c1 io1 res c' io' \<Longrightarrow> conn_fd c1 = conn_fd c \<Longrightarrow>
   read_buffer c @ pending io = read_buffer c1 @ pending io1 \<Longrightarrow> read_until_keeps d c io res c' io'"
  by (cases res) (simp_all add: read_until_keeps_def)

lemma read_until_keeps_found:
  assumes "find_str d buf = Some pos" "read_buffer c @ pending io = buf @ pending io1"
  shows "read_until_keeps d c io (Some (take (pos + length d) buf)) (c\<lparr>read_buffer := drop (pos + length d) buf\<rparr>) io1"
proof -
  have "buf @ pending io1 = take (pos + length d) buf @ drop (pos + length d) buf @ pending io1"
    by (metis append.assoc append_take_drop_id)
  with assms find_str_cut [OF assms(1)] show ?thesis by (simp add: read_until_keeps_def)
qed

lemma read_until_loop_spec:
  "find_str d (read_buffer c) = None \<Longrightarrow>
   read_until_loop d m c io = (Returns res, c', io') \<Longrightarrow> read_until_keeps d c io res c' io'"
proof (induction d m c io rule: read_until_loop.induct)
  case (1 d m c io)
  note unfold = read_until_loop.simps [of d m c io]
  show ?case
  proof (cases "length (read_buffer c) < m")
    case False
    with "1.prems" show ?thesis by (simp add: unfold read_until_keeps_def split: option.split)
  next
    case room: True
    let ?n = "min CHUNK_SIZE (m - length (read_buffer c))"
    obtain r io1 where r: "sys_recv ?n io = (r, io1)" by (cases "sys_recv ?n io")
    consider (data) bs where "r = Returns (Inr bs)" "bs \<noteq> []" | (eof) "r = Returns (Inr [])"
      | (intr) "r = Returns (Inl EINTR)" | (err) e where "r = Returns (Inl e)" "e \<noteq> EINTR"
      using "1.prems"(2) room r
      by (auto simp: unfold Let_def split: outcome.splits sum.splits errno.splits if_splits)
    then show ?thesis
    proof cases
      case data
      let ?buf = "read_buffer c @ bs"
      have all: "read_buffer c @ pending io = ?buf @ pending io1" using r data kernel.recv_bytes by fastforce
      note turn = read_until_loop_data [OF "1.prems"(1) room r [unfolded data] data(2)]
      show ?thesis
      proof (cases "find_str d ?buf")
        case (Some pos)
        with "1.prems"(2) turn read_until_keeps_found [OF Some all] show ?thesis by simp
      next
        case None
        with "1.prems"(2) turn have "read_until_loop d m (c\<lparr>read_buffer := ?buf\<rparr>) io1 = (Returns res, c', io')" by simp
        with "1.IH"(2) [of ?n r io1 "Inr bs" bs "length (read_buffer c)" ?buf] None room r data
          find_str_near_end [OF "1.prems"(1) refl, of bs]
        have "read_until_keeps d (c\<lparr>read_buffer := ?buf\<rparr>) io1 res c' io'" by simp
        then show ?thesis by (rule read_until_keeps_step) (simp_all add: all)
      qed
    next
      case eof
      with "1.prems" room r kernel.recv_bytes [of ?n io "[]" io1] show ?thesis
        by (auto simp: unfold Let_def read_until_keeps_def)
    next
      case intr
      with "1.prems" room r have "read_until_loop d m c io1 = (Returns res, c', io')"
        by (simp add: unfold Let_def)
      with "1.IH"(1) [of ?n r io1 "Inl EINTR" EINTR] "1.prems"(1) room r intr
      have "read_until_keeps d c io1 res c' io'" by simp
      then show ?thesis by (rule read_until_keeps_step) (use r intr kernel.recv_error in simp_all)
    next
      case err
      with "1.prems" room r kernel.recv_error show ?thesis
        by (cases e) (auto simp: unfold Let_def read_until_keeps_def)
    qed
  qed
qed

section \<open>\<open>write_all\<close>\<close>

lemma write_loop_prefix:
  "write_loop d io = (r, io') \<Longrightarrow>
     \<exists>n\<le>length d. wire io' = wire io @ take n d \<and> (r = Returns True \<longrightarrow> n = length d)"
proof (induction d io rule: write_loop.induct)
  case (1 d io)
  note unfold = write_loop.simps [of d io]
  show ?case
  proof (cases "d = []")
    case True
    with "1.prems" show ?thesis by (simp add: write_loop.simps [of "[]" io])
  next
    case d: False
    obtain s io1 where s: "sys_send False d io = (s, io1)" by (cases "sys_send False d io")
    consider (sent) k where "s = Returns (Inr k)" | (intr) "s = Returns (Inl EINTR)"
      | (stop) "\<And>k. s \<noteq> Returns (Inr k)" "s \<noteq> Returns (Inl EINTR)" by blast
    then show ?thesis
    proof cases
      case sent
      with s have k: "k \<le> length d" "wire io1 = wire io @ take k d"
        using sys_send_sent by blast+
      from "1.prems" d s sent have "write_loop (drop k d) io1 = (r, io')" by (simp add: unfold)
      with "1.IH"(2) [OF d s [symmetric] sent refl] obtain n where
        n: "n \<le> length (drop k d)" "wire io' = wire io1 @ take n (drop k d)"
          "r = Returns True \<longrightarrow> n = length (drop k d)" by blast
      with k show ?thesis by (intro exI [of _ "k + n"]) (auto simp: take_add)
    next
      case intr
      then have "wire io1 = wire io" using s sys_send_none by fastforce
      moreover from "1.prems" d s intr have "write_loop d io1 = (r, io')" by (simp add: unfold)
      ultimately show ?thesis using "1.IH"(1) [OF d s [symmetric] intr refl] by simp
    next
      case stop
      then have "wire io1 = wire io" using s sys_send_none by blast
      moreover have "io' = io1" "r \<noteq> Returns True"
        using "1.prems" d s stop
        by (auto simp: unfold split: outcome.splits sum.splits errno.splits)
      ultimately show ?thesis by (intro exI [of _ 0]) simp
    qed
  qed
qed

lemma write_loop_frame:
  "write_loop d io = (r, io') \<Longrightarrow> inq io' = inq io \<and> rcv_timeo io' = rcv_timeo io \<and>
     snd_timeo io' = snd_timeo io \<and> nonblock io' = nonblock io \<and>
     (r = Blocks \<longrightarrow> snd_timeo io = 0)"
proof (induction d io rule: write_loop.induct)
  case (1 d io)
  then show ?case
    by (auto simp: write_loop.simps [of d io]
        split: prod.splits outcome.splits sum.splits errno.splits if_splits
        dest: sys_send_frame sys_send_returns)
qed

text \<open>\<open>send\<close> uses the script up; only a peer that has gone raises the signal.\<close>

lemma write_loop_script:
  "write_loop d io = (r, io') \<Longrightarrow>
     set (outq io') \<subseteq> set (outq io) \<and> (r = Killed_by_SIGPIPE \<longrightarrow> SPipe \<in> set (outq io))"
proof (induction d io rule: write_loop.induct)
  case (1 d io)
  obtain s io1 where s: "sys_send False d io = (s, io1)" by (cases "sys_send False d io")
  note script = sys_send_script(1) [OF s] sys_send_script(2) [of False d io io1]
  from 1 s script show ?case
    by (auto simp: write_loop.simps [of d io] split: outcome.splits sum.splits errno.splits if_splits) blast+
qed

text \<open>A script that makes progress often enough.\<close>

definition makes_progress :: "send_event \<Rightarrow> bool" where
  "makes_progress e = (case e of SRoom n \<Rightarrow> 0 < n | SIntr \<Rightarrow> True | _ \<Rightarrow> False)"

definition rooms :: "send_event list \<Rightarrow> nat" where
  "rooms es = length (filter (\<lambda>e. e \<noteq> SIntr) es)"

lemma write_loop_delivers:
  "list_all makes_progress (outq io) \<Longrightarrow> length d \<le> rooms (outq io) \<Longrightarrow>
     \<exists>io'. write_loop d io = (Returns True, io') \<and> wire io' = wire io @ d \<and>
       list_all makes_progress (outq io') \<and> rooms (outq io) \<le> rooms (outq io') + length d"
proof (induction d io rule: write_loop.induct)
  case (1 d io)
  note unfold = write_loop.simps [of d io]
  show ?case
  proof (cases "d = []")
    case True
    with "1.prems" show ?thesis by (simp add: write_loop.simps [of "[]" io])
  next
    case d: False
    with "1.prems" obtain e es where es: "outq io = e # es" by (cases "outq io") (auto simp: rooms_def)
    with "1.prems"(1) consider (intr) "e = SIntr" | (room) n where "e = SRoom n" "0 < n"
      by (auto simp: makes_progress_def split: send_event.splits)
    then show ?thesis
    proof cases
      case intr
      with es have s: "sys_send False d io = (Returns (Inl EINTR), io\<lparr>outq := es\<rparr>)"
        by (simp add: sys_send_def)
      with "1.IH"(1) [OF d s [symmetric] refl refl] "1.prems" es intr d show ?thesis
        by (simp add: unfold rooms_def)
    next
      case room
      let ?io1 = "io\<lparr>outq := es, wire := wire io @ take n d\<rparr>"
      from room es have s: "sys_send False d io = (Returns (Inr (min n (length d))), ?io1)"
        by (simp add: sys_send_def)
      define k where "k = min n (length d)"
      have k: "1 \<le> k" "k \<le> length d" using room d by (cases d; simp add: k_def)+
      have step: "write_loop d io = write_loop (drop k d) ?io1"
        using d s by (simp add: unfold k_def)
      have n: "rooms (outq io) = Suc (rooms es)" "list_all makes_progress (outq ?io1)"
        "length (drop k d) \<le> rooms (outq ?io1)"
        using "1.prems" es room k by (auto simp: rooms_def)
      have "take n d @ drop k d = d" unfolding k_def by (simp add: min_def)
      with "1.IH"(2) [OF d s [symmetric] refl refl, folded k_def] n k step show ?thesis by auto
    qed
  qed
qed

end
