(* ===== verification/Server_Config.thy ===== *)
theory Server_Config
  imports Cpp_Std
begin

text \<open>
  \<open>include/server/config.hpp\<close> and \<open>src/server/config.cpp\<close>: the configuration and its command
  line.  \<open>--help\<close> ends the process, a number that cannot be read ends it with an exception
  nobody catches; both are results of their own.
\<close>

record Config =
  port :: uint16_t
  backlog :: int
  num_workers :: int
  max_queue_size :: size_t
  read_timeout_sec :: int
  write_timeout_sec :: int
  keepalive_timeout_sec :: int
  max_requests_per_conn :: int
  static_dir :: string
  enable_keepalive :: bool

definition default_config :: Config where
  "default_config = \<lparr>port = 8080, backlog = 128, num_workers = 4, max_queue_size = 256,
     read_timeout_sec = 30, write_timeout_sec = 30, keepalive_timeout_sec = 30,
     max_requests_per_conn = 1000, static_dir = ''./static'', enable_keepalive = True\<rparr>"

datatype config_result = Parsed Config | Help_exit | Uncaught std_exception

text \<open>The loop over \<open>argv[1..]\<close>.\<close>

fun parse_loop :: "string list \<Rightarrow> Config \<Rightarrow> config_result" where
  "parse_loop [] config = Parsed config"
| "parse_loop (arg # args) config =
     (if arg = ''--help'' then Help_exit
      else if arg = ''--port'' \<and> args \<noteq> [] then
        (case stoi (hd args) of
           Inl e \<Rightarrow> Uncaught e
         | Inr v \<Rightarrow> parse_loop (tl args) (config\<lparr>port := word_of_int v\<rparr>))
      else if arg = ''--workers'' \<and> args \<noteq> [] then
        (case stoi (hd args) of
           Inl e \<Rightarrow> Uncaught e
         | Inr v \<Rightarrow> parse_loop (tl args) (config\<lparr>num_workers := v\<rparr>))
      else if arg = ''--queue-size'' \<and> args \<noteq> [] then
        (case stoull (hd args) of
           Inl e \<Rightarrow> Uncaught e
         | Inr v \<Rightarrow> parse_loop (tl args) (config\<lparr>max_queue_size := v\<rparr>))
      else if arg = ''--static-dir'' \<and> args \<noteq> [] then
        parse_loop (tl args) (config\<lparr>static_dir := hd args\<rparr>)
      else if arg = ''--no-keepalive'' then parse_loop args (config\<lparr>enable_keepalive := False\<rparr>)
      else if arg = ''--timeout'' \<and> args \<noteq> [] then
        (case stoi (hd args) of
           Inl e \<Rightarrow> Uncaught e
         | Inr t \<Rightarrow> parse_loop (tl args) (config\<lparr>read_timeout_sec := t, write_timeout_sec := t,
                                            keepalive_timeout_sec := t\<rparr>))
      else parse_loop args config)"

definition parse_args :: "string list \<Rightarrow> config_result" where
  "parse_args args = parse_loop args default_config"

section \<open>Printing a configuration and reading it back\<close>

text \<open>The command line that sets every option the program has.\<close>

definition command_line :: "Config \<Rightarrow> string list" where
  "command_line c =
     [''--port'', to_string (unat (port c)), ''--workers'', to_string (nat (num_workers c)),
      ''--queue-size'', to_string (unat (max_queue_size c)), ''--static-dir'', static_dir c,
      ''--timeout'', to_string (nat (read_timeout_sec c))] @
     (if enable_keepalive c then [] else [''--no-keepalive''])"

text \<open>The configurations a command line can express.\<close>

definition expressible :: "Config \<Rightarrow> bool" where
  "expressible c =
     (backlog c = 128 \<and> max_requests_per_conn c = 1000 \<and>
      0 \<le> num_workers c \<and> num_workers c < 2 ^ 31 \<and>
      0 \<le> read_timeout_sec c \<and> read_timeout_sec c < 2 ^ 31 \<and>
      write_timeout_sec c = read_timeout_sec c \<and> keepalive_timeout_sec c = read_timeout_sec c)"

lemma stoi_port: "stoi (to_string (unat (p :: uint16_t))) = Inr (int (unat p))"
proof -
  have "unat p < 2 ^ LENGTH(16)" by (rule unsigned_less)
  then show ?thesis by (intro stoi_to_string) simp
qed

lemma stoull_size: "stoull (to_string (unat (s :: size_t))) = Inr s"
proof -
  have "unat s < 2 ^ LENGTH(64)" by (rule unsigned_less)
  then show ?thesis by (simp add: stoull_to_string)
qed

lemma parse_command_line:
  assumes "expressible c"
  shows "parse_args (command_line c) = Parsed c"
proof -
  have num: "\<And>n. 0 \<le> n \<Longrightarrow> n < 2 ^ 31 \<Longrightarrow> stoi (to_string (nat n)) = Inr n"
    by (simp add: stoi_to_string nat_less_iff)
  show ?thesis
    using assms
    by (cases c) (simp add: parse_args_def command_line_def stoi_port stoull_size num
        default_config_def expressible_def)
qed

text \<open>What happens to a port outside 16 bits.\<close>

lemma parse_port_wraps:
  "n < 2 ^ 31 \<Longrightarrow> parse_args [''--port'', to_string n] =
     Parsed (default_config\<lparr>port := of_nat n\<rparr>)"
  by (simp add: parse_args_def stoi_to_string)

end
