(* ===== verification/Server_Connection.thy ===== *)
theory Server_Connection
  imports Http_Parser_Roundtrip Http_Serializer Router Net_Connection Server_Config
begin

text \<open>
  \<open>src/server/server.cpp\<close>, the part that serves one client: \<open>setup_routes\<close> and
  \<open>handle_connection\<close>.  The file system, the clock and the kernel's script are arguments; the
  clock gives the second in which the response to a request is serialized, by the number of
  the request on its connection.
\<close>

section \<open>The default routes\<close>

definition setup_routes :: "Config \<Rightarrow> Router \<Rightarrow> Router" where
  "setup_routes config =
     add_static ''/static'' (static_dir config) \<circ>
     add_route ''DELETE'' ''/api/data'' (\<lambda>_. Some (make_response NoContent)) \<circ>
     add_route ''POST'' ''/api/echo'' (\<lambda>req. Some (json (rq_body req))) \<circ>
     add_route ''GET'' ''/api/info'' (\<lambda>_. Some (json
       ''{\"name\":\"httpserver\",\"version\":\"1.0\",\"language\":\"C++20\"}'')) \<circ>
     add_route ''GET'' ''/health'' (\<lambda>_. Some (json ''{\"status\":\"ok\"}'')) \<circ>
     add_route ''GET'' ''/'' (\<lambda>_. Some (ok
       ''<html><body><h1>Welcome to High-Performance HTTP Server!</h1></body></html>''
       ''text/html''))"

definition default_router :: "Config \<Rightarrow> Router" where
  "default_router config = setup_routes config new_router"

section \<open>Serving a connection\<close>

text \<open>How \<open>handle_connection\<close> ends: it returns, an exception leaves it, it waits for the peer
  for ever (no timeout in the kernel's script), or the process dies of a signal.\<close>

datatype handler_end = Returned | Threw | Waits | Died

datatype read_end = Request_complete | Request_error | Disconnected | Read_waits | Read_died

text \<open>The inner loop: read at most 4096 bytes and feed them, until a request is complete.\<close>

definition BUF_SIZE :: nat where "BUF_SIZE = 4096"

lemma read_some_shrinks:
  "(Returns (Got bs), io') = read_some c BUF_SIZE io \<Longrightarrow> bs \<noteq> [] \<Longrightarrow> inq_size io' < inq_size io"
  using read_some_loop_size [of BUF_SIZE io bs io']
  by (auto simp: read_some_def BUF_SIZE_def split: if_splits)

function read_request ::
  "Connection \<Rightarrow> HttpParser \<Rightarrow> net_io \<Rightarrow> read_end \<times> HttpParser \<times> net_io" where
  "read_request conn parser io =
     (case read_some conn BUF_SIZE io of
        (Returns (Got bs), io') \<Rightarrow>
          if bs = [] then (Disconnected, parser, io')
          else
            (case feed bs parser of
               (R_COMPLETE, parser') \<Rightarrow> (Request_complete, parser', io')
             | (R_ERROR, parser') \<Rightarrow> (Request_error, parser', io')
             | (R_INCOMPLETE, parser') \<Rightarrow> read_request conn parser' io')
      | (Returns Read_error, io') \<Rightarrow> (Disconnected, parser, io')
      | (Blocks, io') \<Rightarrow> (Read_waits, parser, io')
      | (Killed_by_SIGPIPE, io') \<Rightarrow> (Read_died, parser, io'))"
  by pat_completeness auto
termination
  by (relation "measure (\<lambda>(c, p, io). inq_size io)") (auto intro: read_some_shrinks)

declare read_request.simps [simp del]

definition write_end :: "bool outcome \<Rightarrow> handler_end" where
  "write_end r = (case r of Returns _ \<Rightarrow> Returned | Blocks \<Rightarrow> Waits | Killed_by_SIGPIPE \<Rightarrow> Died)"

definition wants_keep_alive :: "Config \<Rightarrow> Request \<Rightarrow> bool" where
  "wants_keep_alive config req =
     (let keep_alive = enable_keepalive config in
      if \<not> enable_keepalive config \<or> \<not> should_keep_alive req then False else keep_alive)"

function connection_loop ::
  "filesystem \<Rightarrow> (int \<Rightarrow> nat) \<Rightarrow> Config \<Rightarrow> Router \<Rightarrow> Connection \<Rightarrow> HttpParser \<Rightarrow> int \<Rightarrow> net_io \<Rightarrow>
     handler_end \<times> net_io" where
  "connection_loop fs clock config router conn parser request_count io =
     (if \<not> request_count < max_requests_per_conn config then (Returned, io)
      else
        (case read_request conn (reset parser) io of
           (Disconnected, _, io') \<Rightarrow> (Returned, io')
         | (Read_waits, _, io') \<Rightarrow> (Waits, io')
         | (Read_died, _, io') \<Rightarrow> (Died, io')
         | (Request_error, parser', io') \<Rightarrow>
             (case write_all conn (serialize (clock request_count)
                     ((error (error_code parser') [])\<lparr>rs_keep_alive := False\<rparr>)) io' of
                (r, io'') \<Rightarrow> (write_end r, io''))
         | (Request_complete, parser', io') \<Rightarrow>
             (case get_request parser' of
                (req, parser'') \<Rightarrow>
                  let keep_alive = wants_keep_alive config req in
                  (case route fs router req of
                     None \<Rightarrow> (Threw, io')
                   | Some res \<Rightarrow>
                       (case write_all conn (serialize (clock request_count)
                               (res\<lparr>rs_keep_alive := keep_alive\<rparr>)) io' of
                          (Returns True, io'') \<Rightarrow>
                            if \<not> keep_alive then (Returned, io'')
                            else connection_loop fs clock config router conn parser''
                                   (request_count + 1) io''
                        | (r, io'') \<Rightarrow> (write_end r, io''))))))"
  by pat_completeness auto
termination
  by (relation "measure (\<lambda>(fs, k, cfg, r, c, p, n, io). nat (max_requests_per_conn cfg - n))") auto

declare connection_loop.simps [simp del]

text \<open>The whole handler, from the connection it makes of its socket on.\<close>

definition handle_connection ::
  "filesystem \<Rightarrow> (int \<Rightarrow> nat) \<Rightarrow> Config \<Rightarrow> Router \<Rightarrow> int \<Rightarrow> net_io \<Rightarrow> handler_end \<times> net_io" where
  "handle_connection fs clock config router client_fd io =
     (let conn = new_connection client_fd;
          io1 = set_read_timeout conn (read_timeout_sec config) io;
          io2 = set_write_timeout conn (write_timeout_sec config) io1 in
      connection_loop fs clock config router conn initial_parser 0 io2)"

section \<open>The default routes can be put on the wire\<close>

lemma safe_router_new [simp]: "safe_router new_router"
  by (simp add: safe_router_def new_router_def)

lemma safe_router_add_route:
  "safe_router r \<Longrightarrow> CR \<notin> set m \<Longrightarrow> (\<And>req res. f req = Some res \<Longrightarrow> safe_response res) \<Longrightarrow>
     safe_router (add_route m path f r)"
  by (auto simp: safe_router_def add_route_def)

lemma safe_router_add_static: "safe_router (add_static pre dir r) = safe_router r"
  by (simp add: safe_router_def add_static_def)

lemma safe_default_router: "safe_router (default_router config)"
  unfolding default_router_def setup_routes_def comp_def safe_router_add_static
  by (intro safe_router_add_route) (auto simp: safe_factories)

section \<open>What a server may say\<close>

text \<open>
  The specification of a connection, free of sockets and buffers: the responses a client may
  see from request number \<open>n\<close> on.  A request the parser accepted is answered by the
  application; a keep-alive answer may be followed by more; a malformed request is answered
  once, and the connection is over.
\<close>

definition wellformed :: "Request \<Rightarrow> bool" where
  "wellformed req = (valid_line req \<and> valid_body req)"

inductive dialogue ::
  "(Request \<Rightarrow> Response option) \<Rightarrow> Config \<Rightarrow> int \<Rightarrow> Response list \<Rightarrow> bool"
  for serve :: "Request \<Rightarrow> Response option" and config :: Config
where
  silent: "dialogue serve config n []"
| refused: "n < max_requests_per_conn config \<Longrightarrow> code \<in> parse_error_codes \<Longrightarrow>
     dialogue serve config n [(error code [])\<lparr>rs_keep_alive := False\<rparr>]"
| answered_last: "n < max_requests_per_conn config \<Longrightarrow> wellformed req \<Longrightarrow> serve req = Some res \<Longrightarrow>
     \<not> wants_keep_alive config req \<Longrightarrow> dialogue serve config n [res\<lparr>rs_keep_alive := False\<rparr>]"
| answered: "n < max_requests_per_conn config \<Longrightarrow> wellformed req \<Longrightarrow> serve req = Some res \<Longrightarrow>
     wants_keep_alive config req \<Longrightarrow> dialogue serve config (n + 1) rs \<Longrightarrow>
     dialogue serve config n (res\<lparr>rs_keep_alive := True\<rparr> # rs)"

fun transcript :: "(int \<Rightarrow> nat) \<Rightarrow> int \<Rightarrow> Response list \<Rightarrow> bytes" where
  "transcript clock n [] = []"
| "transcript clock n (r # rs) = serialize (clock n) r @ transcript clock (n + 1) rs"

lemma dialogue_length:
  "dialogue serve config n rs \<Longrightarrow> int (length rs) \<le> max 0 (max_requests_per_conn config - n)"
  by (induction rule: dialogue.induct) auto

lemma dialogue_keep_alive:
  "dialogue serve config n rs \<Longrightarrow> r \<in> set (butlast rs) \<Longrightarrow> rs_keep_alive r \<and> enable_keepalive config"
  by (induction rule: dialogue.induct)
    (auto simp: wants_keep_alive_def Let_def split: if_splits)

lemma dialogue_error_last:
  "dialogue serve config n rs \<Longrightarrow> r \<in> set rs \<Longrightarrow> \<not> rs_keep_alive r \<Longrightarrow> r = last rs"
  by (induction rule: dialogue.induct) (auto split: if_splits)

section \<open>Reading a request\<close>

lemma read_some_frame:
  "read_some c n io = (r, io') \<Longrightarrow> outq io' = outq io \<and> wire io' = wire io \<and>
     rcv_timeo io' = rcv_timeo io \<and> snd_timeo io' = snd_timeo io \<and> (r = Blocks \<longrightarrow> rcv_timeo io = 0) \<and>
     r \<noteq> Killed_by_SIGPIPE"
  using read_some_loop_frame [of n io r io'] by (auto simp: read_some_def split: if_splits)

lemma read_request_spec:
  "parser_inv p \<Longrightarrow> read_request c p io = (e, p', io') \<Longrightarrow>
     parser_inv p' \<and> wire io' = wire io \<and> outq io' = outq io \<and>
     rcv_timeo io' = rcv_timeo io \<and> snd_timeo io' = snd_timeo io \<and>
     (e = Read_waits \<longrightarrow> rcv_timeo io = 0) \<and> e \<noteq> Read_died \<and>
     (e = Request_complete \<longrightarrow> p_state p' = COMPLETE) \<and> (e = Request_error \<longrightarrow> p_state p' = ERROR)"
proof (induction c p io rule: read_request.induct)
  case (1 c p io)
  note unfold = read_request.simps [of c p io]
  obtain r io1 where r: "read_some c BUF_SIZE io = (r, io1)" by (cases "read_some c BUF_SIZE io")
  note frame = read_some_frame [OF r]
  show ?case
  proof (cases "\<exists>bs. r = Returns (Got bs) \<and> bs \<noteq> []")
    case False
    with "1.prems" r frame show ?thesis
      by (auto simp: unfold split: outcome.splits read_result.splits)
  next
    case True
    then obtain bs where bs: "r = Returns (Got bs)" "bs \<noteq> []" by blast
    obtain res q where q: "feed bs p = (res, q)" by (cases "feed bs p")
    have inv: "parser_inv q" using feed_inv [OF "1.prems"(1), of bs] q by simp
    show ?thesis
    proof (cases res)
      case R_INCOMPLETE
      with "1.prems"(2) r bs q have "read_request c q io1 = (e, p', io')" by (simp add: unfold)
      with "1.IH" [OF r [symmetric] bs(1) refl bs(2) q [symmetric] R_INCOMPLETE] inv frame
      show ?thesis by simp
    next
      case R_COMPLETE
      with "1.prems" r bs q inv frame feed_complete_state show ?thesis by (auto simp: unfold)
    next
      case R_ERROR
      with "1.prems" r bs q inv frame feed_error_state show ?thesis by (auto simp: unfold)
    qed
  qed
qed

lemma parser_inv_complete:
  "parser_inv p \<Longrightarrow> p_state p = COMPLETE \<Longrightarrow> wellformed (p_request p)"
  by (simp add: parser_inv_def wellformed_def)

lemma parser_inv_error_code:
  "parser_inv p \<Longrightarrow> p_state p = ERROR \<Longrightarrow> p_error_code p \<in> parse_error_codes"
  by (simp add: parser_inv_def)

section \<open>The handler keeps to the specification\<close>

lemma write_all_prefix:
  "write_all c d io = (r, io') \<Longrightarrow>
     \<exists>k. wire io' = wire io @ take k d \<and> (is_open c \<longrightarrow> r = Returns True \<longrightarrow> take k d = d)"
  using write_loop_prefix [of d io r io']
  by (auto simp: write_all_def split: if_splits)

lemma write_all_frame:
  "write_all c d io = (r, io') \<Longrightarrow> rcv_timeo io' = rcv_timeo io \<and> snd_timeo io' = snd_timeo io \<and>
     set (outq io') \<subseteq> set (outq io) \<and>
     (write_end r = Waits \<longrightarrow> snd_timeo io = 0) \<and> (write_end r = Died \<longrightarrow> SPipe \<in> set (outq io))"
  using write_loop_frame [of d io r io'] write_loop_script [of d io r io']
  by (auto simp: write_all_def write_end_def split: if_splits outcome.splits)

text \<open>One answer: what is on the wire after it is a prefix of what it should be.\<close>

lemma take_transcript:
  "take k (transcript clock n [r]) = take k (serialize (clock n) r)"
  by simp

text \<open>The rounds of the loop, one equation per way a round goes.\<close>

lemma connection_loop_over:
  "\<not> n < max_requests_per_conn cfg \<Longrightarrow> connection_loop fs clock cfg router c p n io = (Returned, io)"
  by (simp add: connection_loop.simps [of fs clock cfg router c p n io])

definition read_end_of :: "read_end \<Rightarrow> handler_end" where
  "read_end_of re = (case re of Read_waits \<Rightarrow> Waits | Read_died \<Rightarrow> Died | _ \<Rightarrow> Returned)"

lemma connection_loop_hangup:
  "n < max_requests_per_conn cfg \<Longrightarrow> read_request c initial_parser io = (re, p1, io1) \<Longrightarrow>
   re \<noteq> Request_error \<Longrightarrow> re \<noteq> Request_complete \<Longrightarrow>
     connection_loop fs clock cfg router c p n io = (read_end_of re, io1)"
  by (cases re) (simp_all add: connection_loop.simps [of fs clock cfg router c p n io] read_end_of_def)

lemma connection_loop_refuse:
  "n < max_requests_per_conn cfg \<Longrightarrow> read_request c initial_parser io = (Request_error, p1, io1) \<Longrightarrow>
     connection_loop fs clock cfg router c p n io =
       (case write_all c (serialize (clock n) ((error (p_error_code p1) [])\<lparr>rs_keep_alive := False\<rparr>)) io1 of
          (r, io2) \<Rightarrow> (write_end r, io2))"
  by (simp add: connection_loop.simps [of fs clock cfg router c p n io])

lemma connection_loop_throw:
  "n < max_requests_per_conn cfg \<Longrightarrow> read_request c initial_parser io = (Request_complete, p1, io1) \<Longrightarrow>
   route fs router (p_request p1) = None \<Longrightarrow>
     connection_loop fs clock cfg router c p n io = (Threw, io1)"
  by (simp add: connection_loop.simps [of fs clock cfg router c p n io] get_request_def Let_def)

lemma connection_loop_unsent:
  "n < max_requests_per_conn cfg \<Longrightarrow> read_request c initial_parser io = (Request_complete, p1, io1) \<Longrightarrow>
   route fs router (p_request p1) = Some res \<Longrightarrow>
   write_all c (serialize (clock n) (res\<lparr>rs_keep_alive := wants_keep_alive cfg (p_request p1)\<rparr>)) io1 =
     (w, io2) \<Longrightarrow>
   w \<noteq> Returns True \<or> \<not> wants_keep_alive cfg (p_request p1) \<Longrightarrow>
     connection_loop fs clock cfg router c p n io = (write_end w, io2)"
  by (auto simp: connection_loop.simps [of fs clock cfg router c p n io] get_request_def Let_def
      write_end_def split: outcome.split bool.split)

lemma connection_loop_answer:
  "n < max_requests_per_conn cfg \<Longrightarrow> read_request c initial_parser io = (Request_complete, p1, io1) \<Longrightarrow>
   route fs router (p_request p1) = Some res \<Longrightarrow>
   write_all c (serialize (clock n) (res\<lparr>rs_keep_alive := wants_keep_alive cfg (p_request p1)\<rparr>)) io1 =
     (Returns True, io2) \<Longrightarrow>
   wants_keep_alive cfg (p_request p1) \<Longrightarrow>
     connection_loop fs clock cfg router c p n io =
       connection_loop fs clock cfg router c (p1\<lparr>p_request := empty_request\<rparr>) (n + 1) io2"
  by (simp add: connection_loop.simps [of fs clock cfg router c p n io] get_request_def Let_def)

text \<open>What is known of a connection when its handler has ended with \<open>e\<close>: it has said a prefix of
  something allowed, it waits for ever only without a time limit, the process dies only of a peer
  that has gone, and only a throwing application makes it throw.\<close>

definition says ::
  "(int \<Rightarrow> nat) \<Rightarrow> (Request \<Rightarrow> Response option) \<Rightarrow> Config \<Rightarrow> int \<Rightarrow> net_io \<Rightarrow> handler_end \<Rightarrow> net_io \<Rightarrow> bool" where
  "says clock serve cfg n io e io' =
     ((\<exists>rs k. dialogue serve cfg n rs \<and> wire io' = wire io @ take k (transcript clock n rs)) \<and>
      (e = Waits \<longrightarrow> rcv_timeo io = 0 \<or> snd_timeo io = 0) \<and>
      (e = Died \<longrightarrow> SPipe \<in> set (outq io)) \<and>
      (e = Threw \<longrightarrow> (\<exists>req. wellformed req \<and> serve req = None)))"

lemma saysI:
  "dialogue serve cfg n rs \<Longrightarrow> wire io' = wire io @ take k (transcript clock n rs) \<Longrightarrow>
   e = Waits \<longrightarrow> rcv_timeo io = 0 \<or> snd_timeo io = 0 \<Longrightarrow> e = Died \<longrightarrow> SPipe \<in> set (outq io) \<Longrightarrow>
   e = Threw \<longrightarrow> (\<exists>req. wellformed req \<and> serve req = None) \<Longrightarrow> says clock serve cfg n io e io'"
  unfolding says_def by blast

lemma says_nothing:
  "wire io' = wire io \<Longrightarrow> e = Waits \<longrightarrow> rcv_timeo io = 0 \<Longrightarrow> e \<noteq> Died \<Longrightarrow>
   e = Threw \<longrightarrow> (\<exists>req. wellformed req \<and> serve req = None) \<Longrightarrow> says clock serve cfg n io e io'"
  using dialogue.silent [of serve cfg n] by (auto simp: says_def intro!: exI [of _ "[]"])

lemma write_end_not_threw [simp]: "write_end r \<noteq> Threw"
  by (simp add: write_end_def split: outcome.split)

lemma says_one:
  assumes "dialogue serve cfg n [r]" "wire io1 = wire io" "snd_timeo io1 = snd_timeo io" "outq io1 = outq io"
    "write_all c (serialize (clock n) r) io1 = (w, io')"
  shows "says clock serve cfg n io (write_end w) io'"
proof -
  obtain k where "wire io' = wire io @ take k (transcript clock n [r])"
    using write_all_prefix [OF assms(5)] assms(2) by auto
  with assms(3,4) write_all_frame [OF assms(5)] show ?thesis by (intro saysI [OF assms(1)]) auto
qed

lemma says_more:
  assumes "is_open c" "write_all c (serialize (clock n) r) io1 = (Returns True, io2)"
    "wire io1 = wire io" "rcv_timeo io1 = rcv_timeo io" "snd_timeo io1 = snd_timeo io" "outq io1 = outq io"
    "says clock serve cfg (n + 1) io2 e io'"
    "\<And>rs. dialogue serve cfg (n + 1) rs \<Longrightarrow> dialogue serve cfg n (r # rs)"
  shows "says clock serve cfg n io e io'"
proof -
  from assms(7) obtain rs k where rs: "dialogue serve cfg (n + 1) rs"
    "wire io' = wire io2 @ take k (transcript clock (n + 1) rs)" by (auto simp: says_def)
  have "wire io2 = wire io @ serialize (clock n) r"
    using write_all_prefix [OF assms(2)] assms(1,3) by auto
  with rs have "wire io' = wire io @ take (length (serialize (clock n) r) + k) (transcript clock n (r # rs))"
    by simp
  moreover have "e = Waits \<longrightarrow> rcv_timeo io = 0 \<or> snd_timeo io = 0" "e = Died \<longrightarrow> SPipe \<in> set (outq io)"
    "e = Threw \<longrightarrow> (\<exists>req. wellformed req \<and> serve req = None)"
    using assms(4-7) write_all_frame [OF assms(2)] by (auto simp: says_def)
  ultimately show ?thesis by (rule saysI [OF assms(8) [OF rs(1)]])
qed

lemma dialogue_one:
  "n < max_requests_per_conn cfg \<Longrightarrow> wellformed req \<Longrightarrow> serve req = Some res \<Longrightarrow>
     dialogue serve cfg n [res\<lparr>rs_keep_alive := wants_keep_alive cfg req\<rparr>]"
  using dialogue.answered [of n cfg req serve res "[]"] dialogue.answered_last [of n cfg req serve res]
    dialogue.silent [of serve cfg "n + 1"]
  by (cases "wants_keep_alive cfg req") simp_all

text \<open>The round that answers a request, given what the rest of the connection says.\<close>

lemma answer_says:
  assumes c: "is_open c" and n: "n < max_requests_per_conn cfg"
    and rd: "read_request c initial_parser io = (Request_complete, p1, io1)"
    and res: "route fs router (p_request p1) = Some res"
    and loop: "connection_loop fs clock cfg router c p n io = (e, io')"
    and rest: "\<And>io2. write_all c (serialize (clock n) (res\<lparr>rs_keep_alive := wants_keep_alive cfg (p_request p1)\<rparr>)) io1 =
        (Returns True, io2) \<Longrightarrow> wants_keep_alive cfg (p_request p1) \<Longrightarrow>
      connection_loop fs clock cfg router c (p1\<lparr>p_request := empty_request\<rparr>) (n + 1) io2 = (e, io') \<Longrightarrow>
      says clock (route fs router) cfg (n + 1) io2 e io'"
  shows "says clock (route fs router) cfg n io e io'"
proof -
  let ?r = "res\<lparr>rs_keep_alive := wants_keep_alive cfg (p_request p1)\<rparr>"
  obtain w io2 where w: "write_all c (serialize (clock n) ?r) io1 = (w, io2)"
    by (cases "write_all c (serialize (clock n) ?r) io1")
  note spec = read_request_spec [OF parser_inv_initial rd]
  have req: "wellformed (p_request p1)" using spec parser_inv_complete by blast
  show ?thesis
  proof (cases "w = Returns True \<and> wants_keep_alive cfg (p_request p1)")
    case False
    with loop connection_loop_unsent [OF n rd res, of clock w io2 p] w have "e = write_end w" "io' = io2"
      by auto
    with w spec dialogue_one [OF n req, of "route fs router" res] res show ?thesis by (auto intro: says_one)
  next
    case True
    then have "connection_loop fs clock cfg router c (p1\<lparr>p_request := empty_request\<rparr>) (n + 1) io2 = (e, io')"
      using loop connection_loop_answer [OF n rd res] w by simp
    with rest w True have "says clock (route fs router) cfg (n + 1) io2 e io'" by blast
    then show ?thesis
      using w True spec c dialogue.answered [OF n req, of "route fs router" res] res
      by (intro says_more [of c clock n ?r io1 io2]) simp_all
  qed
qed

lemma connection_loop_says:
  "is_open c \<Longrightarrow> connection_loop fs clock cfg router c p n io = (e, io') \<Longrightarrow>
     says clock (route fs router) cfg n io e io'"
proof (induction fs clock cfg router c p n io rule: connection_loop.induct)
  case (1 fs clock cfg router c p n io)
  obtain re p1 io1 where rd: "read_request c initial_parser io = (re, p1, io1)"
    by (cases "read_request c initial_parser io") auto
  then have rd_reset: "(re, p1, io1) = read_request c (reset p) io" by simp
  note spec = read_request_spec [OF parser_inv_initial rd]
  consider (over) "\<not> n < max_requests_per_conn cfg"
    | (hangup) "n < max_requests_per_conn cfg" "re \<noteq> Request_error" "re \<noteq> Request_complete"
    | (refuse) "n < max_requests_per_conn cfg" "re = Request_error"
    | (throw) "n < max_requests_per_conn cfg" "re = Request_complete" "route fs router (p_request p1) = None"
    | (answer) res where "n < max_requests_per_conn cfg" "re = Request_complete"
        "route fs router (p_request p1) = Some res"
    by blast
  then show ?case
  proof cases
    case over
    with "1.prems" show ?thesis by (simp add: connection_loop_over says_nothing)
  next
    case hangup
    then have "e = read_end_of re" "io' = io1"
      using "1.prems"(2) connection_loop_hangup [OF hangup(1) rd hangup(2,3)] by auto
    with spec show ?thesis
      by (intro says_nothing) (auto simp: read_end_of_def split: read_end.splits)
  next
    case refuse
    then show ?thesis
      using "1.prems"(2) connection_loop_refuse [OF refuse(1) rd [unfolded refuse]] spec
        parser_inv_error_code [of p1]
      by (auto split: prod.splits intro!: says_one dialogue.refused)
  next
    case throw
    then have "e = Threw" "io' = io1" using "1.prems"(2) rd by (simp_all add: connection_loop_throw)
    with throw spec parser_inv_complete show ?thesis by (intro says_nothing) auto
  next
    case answer
    note rd' = rd [unfolded answer(2)]
    show ?thesis
    proof (rule answer_says [OF "1.prems"(1) answer(1) rd' answer(3) "1.prems"(2)])
      fix io2
      let ?r = "res\<lparr>rs_keep_alive := wants_keep_alive cfg (p_request p1)\<rparr>"
      assume w: "write_all c (serialize (clock n) ?r) io1 = (Returns True, io2)" "wants_keep_alive cfg (p_request p1)"
        and loop: "connection_loop fs clock cfg router c (p1\<lparr>p_request := empty_request\<rparr>) (n + 1) io2 = (e, io')"
      show "says clock (route fs router) cfg (n + 1) io2 e io'"
        using "1.IH" [OF _ rd_reset answer(2) refl get_request_def [symmetric] refl answer(3) w(1) [symmetric]]
          answer(1) w(2) loop "1.prems"(1) by simp
    qed
  qed
qed

lemma handle_connection_loop:
  assumes "client_fd \<noteq> -1"
  obtains io1 where
    "handle_connection fs clock config router client_fd io =
       connection_loop fs clock config router (new_connection client_fd) initial_parser 0 io1"
    "inq io1 = inq io" "outq io1 = outq io" "wire io1 = wire io"
    "rcv_timeo io1 = read_timeout_sec config" "snd_timeo io1 = write_timeout_sec config"
  using assms by (auto simp: handle_connection_def set_read_timeout_def set_write_timeout_def Let_def)

text \<open>The whole handler, for any router: a prefix of something allowed.\<close>

lemma handle_connection_says:
  assumes "client_fd \<noteq> -1" "handle_connection fs clock config router client_fd io = (e, io')"
  obtains rs k where "dialogue (route fs router) config 0 rs" "wire io' = wire io @ take k (transcript clock 0 rs)"
proof -
  obtain io1 where h: "connection_loop fs clock config router (new_connection client_fd) initial_parser 0 io1 = (e, io')"
    and io1: "wire io1 = wire io"
    using handle_connection_loop [OF assms(1)] assms(2) by metis
  have "says clock (route fs router) config 0 io1 e io'"
    by (rule connection_loop_says [OF _ h]) (use assms(1) in simp)
  with io1 that show ?thesis by (auto simp: says_def)
qed

text \<open>How the handler ends: it waits for ever only without a time limit, kills the process only when the
  peer has gone, and throws only if the application does.\<close>

lemma handle_connection_ends:
  assumes "client_fd \<noteq> -1" "handle_connection fs clock config router client_fd io = (e, io')"
  shows "e = Waits \<Longrightarrow> read_timeout_sec config = 0 \<or> write_timeout_sec config = 0"
    and "e = Died \<Longrightarrow> SPipe \<in> set (outq io)"
    and "e = Threw \<Longrightarrow> \<exists>req. wellformed req \<and> route fs router req = None"
proof -
  obtain io1 where h: "connection_loop fs clock config router (new_connection client_fd) initial_parser 0 io1 = (e, io')"
    and io1: "rcv_timeo io1 = read_timeout_sec config" "snd_timeo io1 = write_timeout_sec config" "outq io1 = outq io"
    using handle_connection_loop [OF assms(1)] assms(2) by metis
  have "says clock (route fs router) config 0 io1 e io'"
    by (rule connection_loop_says [OF _ h]) (use assms(1) in simp)
  with io1 show "e = Waits \<Longrightarrow> read_timeout_sec config = 0 \<or> write_timeout_sec config = 0"
    "e = Died \<Longrightarrow> SPipe \<in> set (outq io)" "e = Threw \<Longrightarrow> \<exists>req. wellformed req \<and> route fs router req = None"
    by (auto simp: says_def)
qed

end
