(* ===== verification/Server_Conversation.thy ===== *)
theory Server_Conversation
  imports Server_Connection Http_Parser_Chunks
begin

text \<open>
  End to end: a client that sends well-formed requests, one after the other, in segments that are
  fair to the parser, gets exactly the responses of the application, in order.
\<close>

section \<open>A request in segments\<close>

text \<open>Segments as \<open>recv\<close> can hand them over, not empty and no larger than the buffer, that are fair to the
  parser: the whole request has 8192 bytes at most, or no segment but the last ends in a CR.  The
  parser counts a CR whose LF has not come as a byte of an unfinished line, so a line of exactly the
  limit that is cut there is refused (\<open>feed_split_terminator\<close>); in a small request no line comes near the
  limit, and without such a cut there is nothing to miscount.\<close>

definition fair_chunks :: "bytes list \<Rightarrow> bool" where
  "fair_chunks cs =
     (cs \<noteq> [] \<and> (\<forall>c\<in>set cs. c \<noteq> [] \<and> length c \<le> BUF_SIZE) \<and>
      (length (concat cs) \<le> MAX_REQUEST_LINE \<or> (\<forall>c\<in>set (butlast cs). \<not> ends_cr c)))"

lemma unsplit_initial: "unsplit initial_parser"
  by (simp add: unsplit_def initial_parser_def)

lemma budget_initial: "n \<le> MAX_REQUEST_LINE \<Longrightarrow> budget n initial_parser"
  by (simp add: budget_def split_safe_def initial_parser_def)

lemma feeds_whole:
  assumes "cs \<noteq> []"
    "length (concat cs) \<le> MAX_REQUEST_LINE \<or> (\<forall>c\<in>set (butlast cs). \<not> ends_cr c)"
  shows "outcome (feeds cs initial_parser) = outcome (snd (feed (concat cs) initial_parser))"
proof -
  from assms(1) obtain d ds where cs: "cs = d # ds" by (cases cs) auto
  from assms(2) show ?thesis
    unfolding cs
    using feeds_concat_budget [OF budget_initial, of d ds]
      feeds_concat_unsplit [OF unsplit_initial, of d ds] by blast
qed

lemma outcome_terminal: "outcome p = outcome q \<Longrightarrow> terminal p = terminal q"
  by (auto simp: outcome_def parse_result_def terminal_def split: if_splits)

lemma terminal_initial [simp]: "\<not> terminal initial_parser"
  by (simp add: terminal_def initial_parser_def)

text \<open>A proper prefix of a request does not complete one.\<close>

lemma prefix_incomplete:
  assumes compl: "feed (s @ u) initial_parser = (R_COMPLETE, q)" "p_buffer q = []" and u: "u \<noteq> []"
    and safe: "length s \<le> MAX_REQUEST_LINE \<or> \<not> ends_cr s"
  shows "\<not> terminal (snd (feed s initial_parser))"
proof
  assume early: "terminal (snd (feed s initial_parser))"
  let ?p = "add_bytes s initial_parser"
  have "split_safe ?p"
    using safe by (auto simp: split_safe_def add_bytes_def initial_parser_def)
  moreover have "terminal (feed_loop ?p)" using early by (simp add: feed_snd)
  ultimately have "agree (feed_loop (add_bytes u ?p)) (add_bytes u (feed_loop ?p))"
    using feed_loop_add [of ?p u] by simp
  moreover have "feed_loop (add_bytes u ?p) = q"
    using arg_cong [OF compl(1), where f = snd] by (simp add: feed_snd)
  moreover have "p_state q = COMPLETE" using compl(1) by (rule feed_complete_state)
  ultimately have "q = add_bytes u (feed_loop ?p)" by (simp add: agree_def)
  then have "p_buffer q = p_buffer (feed_loop ?p) @ u" by (simp add: add_bytes_def)
  with compl(2) u show False by simp
qed

lemma fair_prefix:
  assumes fair: "fair_chunks (ds @ es)" and ne: "ds \<noteq> []" "es \<noteq> []"
    and compl: "feed (concat (ds @ es)) initial_parser = (R_COMPLETE, q)" "p_buffer q = []"
  shows "\<not> terminal (feeds ds initial_parser)"
proof -
  have safe: "length (concat ds) \<le> MAX_REQUEST_LINE \<or> (\<forall>c\<in>set ds. \<not> ends_cr c)"
    using fair ne by (auto simp: fair_chunks_def butlast_append)
  then have "length (concat ds) \<le> MAX_REQUEST_LINE \<or> \<not> ends_cr (concat ds)"
  proof
    assume cr: "\<forall>c\<in>set ds. \<not> ends_cr c"
    have ds: "ds = butlast ds @ [last ds]" using ne(1) by simp
    have "last ds \<noteq> []" "\<not> ends_cr (last ds)"
      using cr ne fair by (auto simp: fair_chunks_def)
    then have "\<not> ends_cr (concat ds)"
      by (subst ds) (simp only: concat_append concat.simps append_Nil2 ends_cr_append not_False_eq_True)
    then show ?thesis ..
  qed simp
  moreover have "concat es \<noteq> []" using ne fair by (cases es) (auto simp: fair_chunks_def)
  ultimately have "\<not> terminal (snd (feed (concat ds) initial_parser))"
    using compl by (intro prefix_incomplete [of _ "concat es" q]) auto
  moreover have "outcome (feeds ds initial_parser) = outcome (snd (feed (concat ds) initial_parser))"
    using ne(1) safe by (intro feeds_whole) (auto dest: in_set_butlastD)
  ultimately show ?thesis using outcome_terminal by blast
qed

section \<open>The server reads it\<close>

lemma read_some_data:
  assumes "is_open c" "d \<noteq> []" "length d \<le> BUF_SIZE" "inq io = RBytes d # es"
  shows "read_some c BUF_SIZE io = (Returns (Got d), io\<lparr>inq := es\<rparr>)"
proof -
  have "sys_recv BUF_SIZE io = (Returns (Inr d), io\<lparr>inq := es\<rparr>)"
    using assms by (simp add: sys_recv_def)
  moreover have "BUF_SIZE \<noteq> 0" by (simp add: BUF_SIZE_def)
  ultimately show ?thesis
    using assms by (simp add: read_some_def read_some_loop.simps [of BUF_SIZE io])
qed

lemma feeds_append: "feeds (as @ bs) p = feeds bs (feeds as p)"
  by (induction as arbitrary: p) auto

lemma read_request_chunks:
  assumes "is_open c" "cs \<noteq> []" "\<forall>d\<in>set cs. d \<noteq> [] \<and> length d \<le> BUF_SIZE"
    "\<And>ds es. cs = ds @ es \<Longrightarrow> ds \<noteq> [] \<Longrightarrow> es \<noteq> [] \<Longrightarrow> \<not> terminal (feeds ds p)"
    "p_state (feeds cs p) = COMPLETE" "inq io = map RBytes cs @ es"
  shows "read_request c p io = (Request_complete, feeds cs p, io\<lparr>inq := es\<rparr>)"
  using assms(2-)
proof (induction cs arbitrary: p io)
  case Nil
  then show ?case by simp
next
  case (Cons d cs)
  obtain res q where q: "feed d p = (res, q)" by (cases "feed d p")
  have rd: "read_some c BUF_SIZE io = (Returns (Got d), io\<lparr>inq := map RBytes cs @ es\<rparr>)"
    using Cons.prems assms(1) by (intro read_some_data) auto
  have d: "d \<noteq> []" using Cons.prems by simp
  show ?case
  proof (cases "cs = []")
    case True
    then have "p_state q = COMPLETE" using Cons.prems(4) q by simp
    then have "res = R_COMPLETE" using feed_result [OF q] by (simp add: parse_result_def)
    with True rd d q show ?thesis by (simp add: read_request.simps [of c p io])
  next
    case False
    then have "\<not> terminal q" using Cons.prems(3) [of "[d]" cs] q by simp
    then have "res = R_INCOMPLETE"
      using feed_result [OF q] by (simp add: parse_result_def terminal_def)
    then have "read_request c p io = read_request c q (io\<lparr>inq := map RBytes cs @ es\<rparr>)"
      using rd d q by (simp add: read_request.simps [of c p io])
    also have "\<dots> = (Request_complete, feeds cs q, io\<lparr>inq := es\<rparr>)"
    proof -
      have "\<not> terminal (feeds ds q)" if "cs = ds @ es'" "ds \<noteq> []" "es' \<noteq> []" for ds es'
        using Cons.prems(3) [of "d # ds" es'] that q by simp
      then show ?thesis
        using Cons.IH [OF False, of q "io\<lparr>inq := map RBytes cs @ es\<rparr>"] Cons.prems q by simp
    qed
    finally show ?thesis using q by simp
  qed
qed

text \<open>What one client request is: the parts \<open>render_request\<close> prints, and its segments.\<close>

type_synonym message = "string \<times> string \<times> (string \<times> string) list \<times> string"

definition message_bytes :: "message \<Rightarrow> bytes" where
  "message_bytes msg = (case msg of (m, t, hs, b) \<Rightarrow> render_request m t hs b)"

definition message_request :: "message \<Rightarrow> Request" where
  "message_request msg = (case msg of (m, t, hs, b) \<Rightarrow> sent_request m t hs b)"

definition delivers :: "message \<Rightarrow> bytes list \<Rightarrow> bool" where
  "delivers msg cs =
     ((case msg of (m, t, hs, b) \<Rightarrow> sendable m t hs b) \<and> fair_chunks cs \<and> concat cs = message_bytes msg)"

lemma read_request_delivered:
  assumes "delivers msg cs" "is_open c" "inq io = map RBytes cs @ es"
  obtains p where "read_request c initial_parser io = (Request_complete, p, io\<lparr>inq := es\<rparr>)"
    "p_request p = message_request msg"
proof -
  obtain m t hs b where msg: "msg = (m, t, hs, b)" by (cases msg)
  have fair: "fair_chunks cs" and bytes: "concat cs = render_request m t hs b @ []"
    and send: "sendable m t hs b"
    using assms(1) by (simp_all add: delivers_def msg message_bytes_def)
  note fed = feed_printed [OF send, of "[]", folded bytes]
  have "outcome (feeds cs initial_parser) = outcome (snd (feed (concat cs) initial_parser))"
    using fair by (intro feeds_whole) (auto simp: fair_chunks_def)
  then have "p_state (feeds cs initial_parser) = COMPLETE"
    "p_request (feeds cs initial_parser) = sent_request m t hs b"
    by (auto simp: fed outcome_def parse_result_def split: if_splits)
  moreover have "\<not> terminal (feeds ds initial_parser)" if "cs = ds @ es'" "ds \<noteq> []" "es' \<noteq> []" for ds es'
    using fair_prefix [of ds es'] fair that fed by simp
  ultimately show ?thesis
    using that [of "feeds cs initial_parser"] assms(2,3) fair
      read_request_chunks [of c cs initial_parser io es]
    by (simp add: fair_chunks_def msg message_request_def)
qed

section \<open>The conversation\<close>

text \<open>What the server owes a client for a list of requests.\<close>

fun answers :: "(Request \<Rightarrow> Response option) \<Rightarrow> Config \<Rightarrow> Request list \<Rightarrow> Response list" where
  "answers serve config [] = []"
| "answers serve config (req # reqs) =
     (case serve req of
        None \<Rightarrow> []
      | Some res \<Rightarrow>
          if wants_keep_alive config req
          then res\<lparr>rs_keep_alive := True\<rparr> # answers serve config reqs
          else [res\<lparr>rs_keep_alive := False\<rparr>])"

lemma serialize_nonempty [simp]: "serialize now r \<noteq> []"
  by (simp add: serialize_def)

lemma write_all_delivers:
  assumes "is_open c" "list_all makes_progress (outq io)" "length (serialize now r) \<le> rooms (outq io)"
  obtains io' where "write_all c (serialize now r) io = (Returns True, io')"
    "wire io' = wire io @ serialize now r" "inq io' = inq io" "list_all makes_progress (outq io')"
    "rooms (outq io) \<le> rooms (outq io') + length (serialize now r)"
  using write_loop_delivers [OF assms(2,3)] write_loop_frame assms(1)
  by (auto simp: write_all_def)

lemma nat_take_Suc: "n < (m :: int) \<Longrightarrow> take (nat (m - n)) (x # xs) = x # take (nat (m - (n + 1))) xs"
proof -
  assume "n < m"
  then have "nat (m - n) = Suc (nat (m - (n + 1)))" by arith
  then show ?thesis by simp
qed

lemma silent_peer:
  "inq io = [] \<Longrightarrow> is_open c \<Longrightarrow>
     read_request c p io = (if nonblock io \<or> rcv_timeo io \<noteq> 0 then Disconnected else Read_waits, p, io)"
  using read_some_loop.simps [of BUF_SIZE io]
  by (simp add: read_request.simps [of c p io] read_some_def sys_recv_def BUF_SIZE_def)

lemma connection_loop_silent:
  assumes "is_open c" "inq io = []"
  shows "wire (snd (connection_loop fs clock cfg router c p n io)) = wire io"
  using connection_loop_hangup [OF _ silent_peer [OF assms(2,1)], of n cfg fs clock router p]
  by (cases "n < max_requests_per_conn cfg"; cases "nonblock io \<or> rcv_timeo io \<noteq> 0") (auto simp: connection_loop_over)

text \<open>A read that decides at once.\<close>

lemma read_request_once:
  assumes "is_open c" "inq io = RBytes d # es" "d \<noteq> []" "length d \<le> BUF_SIZE" "feed d p = (res, q)" "res \<noteq> R_INCOMPLETE"
  shows "read_request c p io = (if res = R_COMPLETE then Request_complete else Request_error, q, io\<lparr>inq := es\<rparr>)"
  using read_some_data [OF assms(1,3,4), of io es] assms(2,3,5,6)
  by (cases res) (simp_all add: read_request.simps [of c p io])

text \<open>A round that answers a request whose response finds room.\<close>

lemma connection_loop_answered:
  assumes c: "is_open c" and n: "n < max_requests_per_conn cfg"
    and rd: "read_request c initial_parser io = (Request_complete, q, io1)"
    and res: "route fs router (p_request q) = Some res"
    and s: "s = serialize (clock n) (res\<lparr>rs_keep_alive := wants_keep_alive cfg (p_request q)\<rparr>)"
    and room: "list_all makes_progress (outq io1)" "length s \<le> rooms (outq io1)"
  obtains io2 where "wire io2 = wire io1 @ s" "inq io2 = inq io1" "list_all makes_progress (outq io2)"
    "rooms (outq io1) \<le> rooms (outq io2) + length s"
    "connection_loop fs clock cfg router c p n io =
      (if wants_keep_alive cfg (p_request q)
       then connection_loop fs clock cfg router c (q\<lparr>p_request := empty_request\<rparr>) (n + 1) io2 else (Returned, io2))"
proof -
  obtain io2 where w: "write_all c s io1 = (Returns True, io2)"
    "wire io2 = wire io1 @ s" "inq io2 = inq io1" "list_all makes_progress (outq io2)"
    "rooms (outq io1) \<le> rooms (outq io2) + length s"
    using write_all_delivers [OF c room [unfolded s]] unfolding s by blast
  have "connection_loop fs clock cfg router c p n io =
      (if wants_keep_alive cfg (p_request q)
       then connection_loop fs clock cfg router c (q\<lparr>p_request := empty_request\<rparr>) (n + 1) io2 else (Returned, io2))"
    using connection_loop_unsent [OF n rd res, of clock "Returns True" io2 p]
      connection_loop_answer [OF n rd res, of clock io2 p] w(1) s
    by (cases "wants_keep_alive cfg (p_request q)") (simp_all add: write_end_def)
  with w(2-) show ?thesis by (rule that)
qed

lemma connection_loop_conversation:
  assumes c: "is_open c"
  shows "list_all2 delivers msgs css \<Longrightarrow> inq io = map RBytes (concat css) \<Longrightarrow>
    list_all makes_progress (outq io) \<Longrightarrow>
    said = transcript clock n (answers (route fs router) cfg
        (take (nat (max_requests_per_conn cfg - n)) (map message_request msgs))) \<Longrightarrow>
    length said \<le> rooms (outq io) \<Longrightarrow>
      wire (snd (connection_loop fs clock cfg router c p n io)) = wire io @ said"
proof (induction msgs css arbitrary: n p io said rule: list_all2_induct)
  case Nil
  then show ?case using connection_loop_silent [OF c, of io] by simp
next
  case (Cons msg msgs cs css)
  show ?case
  proof (cases "n < max_requests_per_conn cfg")
    case False
    with Cons.prems show ?thesis by (simp add: connection_loop_over)
  next
    case n: True
    have "inq io = map RBytes cs @ map RBytes (concat css)" using Cons.prems by simp
    with Cons.hyps(1) c obtain q where
      rd: "read_request c initial_parser io =
          (Request_complete, q, io\<lparr>inq := map RBytes (concat css)\<rparr>)"
      and q: "p_request q = message_request msg" by (rule read_request_delivered)
    let ?io1 = "io\<lparr>inq := map RBytes (concat css)\<rparr>"
    let ?req = "message_request msg"
    have said: "said = transcript clock n (answers (route fs router) cfg (?req #
        take (nat (max_requests_per_conn cfg - (n + 1))) (map message_request msgs)))"
      using Cons.prems(3) by (simp only: list.map nat_take_Suc [OF n])
    show ?thesis
    proof (cases "route fs router ?req")
      case None
      with said rd q n show ?thesis by (simp add: connection_loop_throw)
    next
      case (Some res)
      let ?s = "serialize (clock n) (res\<lparr>rs_keep_alive := wants_keep_alive cfg ?req\<rparr>)"
      have said': "said = ?s @ (if wants_keep_alive cfg ?req then transcript clock (n + 1) (answers (route fs router) cfg
          (take (nat (max_requests_per_conn cfg - (n + 1))) (map message_request msgs))) else [])"
        using said Some by simp
      have room: "list_all makes_progress (outq ?io1)" "length ?s \<le> rooms (outq ?io1)"
        using Cons.prems(2,4) unfolding said' by simp_all
      obtain io2 where w: "wire io2 = wire ?io1 @ ?s" "inq io2 = inq ?io1" "list_all makes_progress (outq io2)"
        "rooms (outq ?io1) \<le> rooms (outq io2) + length ?s"
        "connection_loop fs clock cfg router c p n io = (if wants_keep_alive cfg ?req
          then connection_loop fs clock cfg router c (q\<lparr>p_request := empty_request\<rparr>) (n + 1) io2 else (Returned, io2))"
        by (rule connection_loop_answered [OF c n rd, of fs router res ?s clock p]) (use q Some room in simp_all)
      then show ?thesis
        using Cons.IH [OF _ _ refl, of io2 "n + 1" "q\<lparr>p_request := empty_request\<rparr>"] Cons.prems(2,4) said'
        by (cases "wants_keep_alive cfg ?req") simp_all
    qed
  qed
qed

section \<open>The client can tell the responses apart\<close>

text \<open>What a client sees of a response, and a client that reads several in a row.\<close>

type_synonym seen = "string \<times> umap \<times> bytes"

definition seen_response :: "nat \<Rightarrow> Response \<Rightarrow> seen" where
  "seen_response now r = (status_line r, message_headers now r, rs_body r)"

fun seen_all :: "(int \<Rightarrow> nat) \<Rightarrow> int \<Rightarrow> Response list \<Rightarrow> seen list" where
  "seen_all clock n [] = []"
| "seen_all clock n (r # rs) = seen_response (clock n) r # seen_all clock (n + 1) rs"

fun read_responses :: "nat \<Rightarrow> bytes \<Rightarrow> (seen list \<times> bytes) option" where
  "read_responses 0 s = Some ([], s)"
| "read_responses (Suc n) s =
     (case read_response s of
        None \<Rightarrow> None
      | Some (l, hs, b, rest) \<Rightarrow>
          map_option (\<lambda>(ms, rest'). ((l, hs, b) # ms, rest')) (read_responses n rest))"

lemma read_responses_transcript:
  "\<forall>r\<in>set rs. safe_response r \<and> length (rs_body r) < 2 ^ 64 \<Longrightarrow>
     read_responses (length rs) (transcript clock n rs @ rest) = Some (seen_all clock n rs, rest)"
proof (induction rs arbitrary: n)
  case Nil
  then show ?case by simp
next
  case (Cons r rs)
  have "read_response (serialize (clock n) r @ transcript clock (n + 1) rs @ rest) =
      Some (status_line r, message_headers (clock n) r, rs_body r, transcript clock (n + 1) rs @ rest)"
    using Cons.prems by (intro read_response_serialize) auto
  with Cons show ?case by (simp add: seen_response_def)
qed

text \<open>The contract of an application behind the server: its responses can be put on the wire.\<close>

locale application =
  fixes serve :: "Request \<Rightarrow> Response option"
  assumes serve_safe: "serve req = Some res \<Longrightarrow> safe_response res"
begin

lemma dialogue_safe: "dialogue serve config n rs \<Longrightarrow> r \<in> set rs \<Longrightarrow> safe_response r"
  by (induction rule: dialogue.induct) (auto simp: safe_factories dest: serve_safe)

lemma dialogue_readable:
  "dialogue serve config n rs \<Longrightarrow> \<forall>r\<in>set rs. length (rs_body r) < 2 ^ 64 \<Longrightarrow>
     read_responses (length rs) (transcript clock n rs @ rest) = Some (seen_all clock n rs, rest)"
  by (rule read_responses_transcript) (auto intro: dialogue_safe)

lemma answers_safe: "r \<in> set (answers serve config reqs) \<Longrightarrow> safe_response r"
  by (induction reqs) (auto dest: serve_safe serve_safe [OF sym] split: option.splits if_splits)

end

interpretation default_app: application "route fs (default_router config)" for fs config
  by unfold_locales (rule route_safe [OF safe_default_router])

lemma handle_connection_conversation:
  assumes "client_fd \<noteq> -1" "list_all2 delivers msgs css" "inq io = map RBytes (concat css)"
    and "reply = transcript clock 0 (answers (route fs router) config
        (take (nat (max_requests_per_conn config)) (map message_request msgs)))"
    and "list_all makes_progress (outq io)" "length reply \<le> rooms (outq io)"
  shows "wire (snd (handle_connection fs clock config router client_fd io)) = wire io @ reply"
proof -
  obtain io1 where h: "handle_connection fs clock config router client_fd io =
      connection_loop fs clock config router (new_connection client_fd) initial_parser 0 io1"
    and io1: "inq io1 = inq io" "outq io1 = outq io" "wire io1 = wire io"
    using handle_connection_loop [OF assms(1)] by blast
  show ?thesis
    unfolding h io1(3) [symmetric]
    by (rule connection_loop_conversation [OF _ assms(2)]) (use assms io1 in simp_all)
qed

end
