(* ===== verification/Net_Listener.thy ===== *)
theory Net_Listener
  imports Net_Socket
begin

text \<open>
  \<open>include/net/listener.hpp\<close> and \<open>src/net/listener.cpp\<close>: opening, accepting and closing, over
  the descriptor store.  The results of the system calls are arguments; diagnostics on
  \<open>std::cerr\<close> are left out.  \<open>tmp\<close> is the number of the temporary \<open>Socket\<close> object.
\<close>

record Listener =
  l_socket :: nat
  l_port :: uint16_t
  l_backlog :: int

definition new_listener :: "nat \<Rightarrow> uint16_t \<Rightarrow> int \<Rightarrow> Listener" where
  "new_listener i port_nr backlog_nr = \<lparr>l_socket = i, l_port = port_nr, l_backlog = backlog_nr\<rparr>"

lemma new_listener_fields [simp]:
  "l_socket (new_listener i p b) = i" "l_port (new_listener i p b) = p" "l_backlog (new_listener i p b) = b"
  by (simp_all add: new_listener_def)

record start_results =
  r_socket :: int
  r_reuse :: bool
  r_bind :: int
  r_listen :: int

definition listener_start :: "Listener \<Rightarrow> nat \<Rightarrow> start_results \<Rightarrow> store \<Rightarrow> bool \<times> store" where
  "listener_start l tmp res w =
     (let w1 = socket_create tmp (r_socket res) w;
          w2 = socket_move_assign (l_socket l) tmp w1;
          w3 = socket_destroy tmp w2 in
      if \<not> is_valid (fd_of (l_socket l) w3) then (False, w3)
      else if r_bind res = -1 then (False, w3)
      else if r_listen res = -1 then (False, w3)
      else (True, w3))"

text \<open>\<open>accept\<close> makes a new \<open>Socket\<close> object \<open>i\<close>; on a closed listener no call is made.\<close>

definition listener_accept :: "Listener \<Rightarrow> nat \<Rightarrow> int \<Rightarrow> store \<Rightarrow> store" where
  "listener_accept l i client_fd w =
     (if \<not> is_valid (fd_of (l_socket l) w) then socket_new i (-1) w
      else socket_create i client_fd w)"

definition listener_stop :: "Listener \<Rightarrow> store \<Rightarrow> store" where
  "listener_stop l w = socket_close (l_socket l) w"

text \<open>The small members of the header.\<close>

definition listener_close :: "Listener \<Rightarrow> store \<Rightarrow> store" where
  [simp]: "listener_close l w = listener_stop l w"

definition listener_port :: "Listener \<Rightarrow> uint16_t" where
  [simp]: "listener_port l = l_port l"

definition listener_fd :: "Listener \<Rightarrow> store \<Rightarrow> int" where
  [simp]: "listener_fd l w = fd_of (l_socket l) w"

section \<open>Ownership\<close>

lemma listener_start_inv:
  assumes inv: "own_inv w" and tmp: "objs w tmp = None"
    and fd: "r_socket res = -1 \<or> 0 \<le> r_socket res \<and> r_socket res \<notin> open_fds w"
  shows "own_inv (snd (listener_start l tmp res w))"
proof -
  let ?w1 = "socket_create tmp (r_socket res) w"
  have "own_inv (socket_destroy tmp (socket_move_assign (l_socket l) tmp ?w1))"
    using own_inv_create [OF inv tmp fd]
    by (intro own_inv_destroy own_inv_move_assign) simp_all
  then show ?thesis by (simp add: listener_start_def Let_def)
qed

lemma listener_accept_inv:
  "own_inv w \<Longrightarrow> objs w i = None \<Longrightarrow> fd = -1 \<or> 0 \<le> fd \<and> fd \<notin> open_fds w \<Longrightarrow>
     own_inv (listener_accept l i fd w)"
  by (simp add: listener_accept_def own_inv_new own_inv_create)

lemma listener_stop_inv: "own_inv w \<Longrightarrow> own_inv (listener_stop l w)"
  by (simp add: listener_stop_def own_inv_close)

lemma listener_start_fd:
  assumes "tmp \<noteq> l_socket l" "fst (listener_start l tmp res w)"
  shows "fd_of (l_socket l) (snd (listener_start l tmp res w)) = r_socket res \<and> r_socket res \<noteq> -1"
  using assms
  by (auto simp: listener_start_def Let_def socket_destroy_def socket_close_def
      socket_move_assign_def fd_of_def is_valid_def sys_close_def split: if_splits)

lemma fd_of_new [simp]: "fd_of i (socket_new i fd w) = fd"
  by (simp add: socket_new_def fd_of_def)

lemma accept_after_stop:
  "fd_of i (listener_accept l i fd (listener_stop l w)) = -1 \<and>
   open_fds (listener_accept l i fd (listener_stop l w)) = open_fds (listener_stop l w)"
proof -
  have "\<not> is_valid (fd_of (l_socket l) (listener_stop l w))"
    by (simp add: listener_stop_def fd_of_closed is_valid_def)
  then show ?thesis by (simp add: listener_accept_def)
qed

text \<open>What \<open>start\<close> leaves in the store, whether it succeeds or not.\<close>

lemma listener_start_objs:
  assumes "objs w tmp = None" "tmp \<noteq> l_socket l"
  shows "objs (snd (listener_start l tmp res w)) = (objs w)(l_socket l \<mapsto> r_socket res)"
proof -
  let ?w1 = "socket_create tmp (r_socket res) w"
  have "fd_of tmp (socket_close (l_socket l) ?w1) = r_socket res"
    using assms(2) by (simp add: fd_of_def socket_close_other)
  moreover have "objs (socket_close (l_socket l) ?w1) x = ((objs w)(tmp \<mapsto> r_socket res)) x"
    if "x \<noteq> l_socket l" for x
    using that by (simp add: socket_close_other)
  ultimately show ?thesis
    using assms by (auto simp: listener_start_def Let_def socket_move_assign_def)
qed

lemma listener_start_open:
  assumes "own_inv w" "objs w tmp = None" "tmp \<noteq> l_socket l"
    "r_socket res = -1 \<or> 0 \<le> r_socket res \<and> r_socket res \<notin> open_fds w"
  shows "open_fds (snd (listener_start l tmp res w)) =
    (if r_socket res = -1 then {} else {r_socket res}) \<union> (open_fds w - {fd_of (l_socket l) w})"
proof -
  let ?w1 = "socket_create tmp (r_socket res) w"
  let ?w2 = "socket_move_assign (l_socket l) tmp ?w1"
  have own1: "own_inv ?w1" using assms(1,2,4) by (rule own_inv_create)
  then have own2: "own_inv ?w2" by (intro own_inv_move_assign) simp_all
  have tmp: "fd_of tmp ?w2 = -1" using assms(3) by (simp add: socket_move_assign_def Let_def fd_of_def)
  have "open_fds (snd (listener_start l tmp res w)) = open_fds (socket_destroy tmp ?w2)"
    by (simp add: listener_start_def Let_def)
  also have "\<dots> = open_fds ?w2" using own_no_minus [OF own2] by (simp add: own2 tmp)
  also have "\<dots> = open_fds ?w1 - {fd_of (l_socket l) w}"
    using assms(3) open_fds_close [OF own1, of "l_socket l"]
    by (simp add: socket_move_assign_def Let_def fd_of_def)
  finally have op: "open_fds (snd (listener_start l tmp res w)) = open_fds ?w1 - {fd_of (l_socket l) w}" .
  have "fd_of (l_socket l) w = -1 \<or> fd_of (l_socket l) w \<in> open_fds w"
    using own_inv_owned [OF assms(1), of "l_socket l"] by (auto simp: is_valid_def)
  with assms(4) show ?thesis unfolding op by auto
qed

end
