(* ===== verification/Epoll_Server.thy ===== *)
theory Epoll_Server
  imports Server_Conversation Net_Listener "HOL-Library.AList"
begin

text \<open>
  \<open>include/server/epoll_server.hpp\<close> and \<open>src/server/epoll_server.cpp\<close>: the event-driven server.
  One thread owns all connections; the sockets are non-blocking, and the kernel's interest list
  says which events it will report.  The state holds the program's objects and the kernel's side
  of them: the sockets' descriptors, the epoll instance, the interest list, and per descriptor the
  script of its traffic.  The numbers of new \<open>Socket\<close> objects come from a counter.
\<close>

section \<open>State\<close>

datatype EpollState = READING | WRITING | CLOSING

record EpollConnection =
  ec_sock :: nat
  ec_parser :: HttpParser
  ec_write_buffer :: bytes
  ec_write_offset :: nat
  ec_request_count :: int
  ec_keep_alive :: bool
  ec_state :: EpollState

definition new_epoll_connection :: "nat \<Rightarrow> EpollConnection" where
  "new_epoll_connection sock = \<lparr>ec_sock = sock, ec_parser = initial_parser, ec_write_buffer = [],
     ec_write_offset = 0, ec_request_count = 0, ec_keep_alive = True, ec_state = READING\<rparr>"

record EpollServer =
  ep_epoll_fd :: int
  ep_listener :: Listener
  ep_router :: "Router option"
  ep_connections :: "(int \<times> EpollConnection) list"
  ep_running :: bool
  ep_max_events :: int
  ep_enable_keepalive :: bool
  ep_keepalive_timeout_sec :: int
  ep_max_requests_per_conn :: int
  ep_store :: store
  ep_interest :: "int \<Rightarrow> 32 word option"
  ep_io :: "int \<Rightarrow> net_io"
  ep_next :: nat
  ep_epoll_open :: "int set"

text \<open>All descriptors the server holds: those of sockets, and its epoll instance while that is open.\<close>

definition descriptors :: "EpollServer \<Rightarrow> int set" where
  "descriptors s = open_fds (ep_store s) \<union> ep_epoll_open s"

text \<open>The event bits of \<open>sys/epoll.h\<close>.\<close>

definition EPOLLIN :: "32 word" where "EPOLLIN = 1"
definition EPOLLOUT :: "32 word" where "EPOLLOUT = 4"
definition EPOLLERR :: "32 word" where "EPOLLERR = 8"
definition EPOLLHUP :: "32 word" where "EPOLLHUP = 16"
definition EPOLLET :: "32 word" where "EPOLLET = 2147483648"

definition has_event :: "32 word \<Rightarrow> 32 word \<Rightarrow> bool" where
  "has_event ev bits = (and ev bits \<noteq> 0)"

section \<open>Construction and settings\<close>

definition silent_io :: net_io where
  "silent_io = \<lparr>inq = [], outq = [], wire = [], rcv_timeo = 0, snd_timeo = 0, nonblock = False\<rparr>"

text \<open>\<open>create_result\<close> is what \<open>epoll_create1\<close> returns: a descriptor that is open from then on, or -1.\<close>

definition new_epoll_server :: "uint16_t \<Rightarrow> int \<Rightarrow> int \<Rightarrow> int \<Rightarrow> EpollServer" where
  "new_epoll_server port_nr backlog_nr max_events create_result =
     \<lparr>ep_epoll_fd = create_result, ep_listener = new_listener 0 port_nr backlog_nr,
      ep_router = None, ep_connections = [], ep_running = False, ep_max_events = max_events,
      ep_enable_keepalive = True, ep_keepalive_timeout_sec = 30, ep_max_requests_per_conn = 1000,
      ep_store = socket_new 0 (-1) empty_store, ep_interest = (\<lambda>_. None), ep_io = (\<lambda>_. silent_io),
      ep_next = 1, ep_epoll_open = {create_result} - {-1}\<rparr>"

definition set_router :: "Router option \<Rightarrow> EpollServer \<Rightarrow> EpollServer" where
  "set_router r s = s\<lparr>ep_router := r\<rparr>"

definition set_keepalive :: "bool \<Rightarrow> int \<Rightarrow> int \<Rightarrow> EpollServer \<Rightarrow> EpollServer" where
  "set_keepalive enable timeout_sec max_requests s =
     s\<lparr>ep_enable_keepalive := enable, ep_keepalive_timeout_sec := timeout_sec,
       ep_max_requests_per_conn := max_requests\<rparr>"

section \<open>The interest list\<close>

text \<open>\<open>epoll_ctl\<close>: adding fails on a registered descriptor, and when the kernel is out of memory
  (\<open>mem = False\<close>); the other two fail on a descriptor that is not registered.\<close>

definition add_to_epoll :: "bool \<Rightarrow> int \<Rightarrow> 32 word \<Rightarrow> EpollServer \<Rightarrow> bool \<times> EpollServer" where
  "add_to_epoll mem fd events s =
     (if ep_epoll_fd s \<noteq> -1 \<and> mem \<and> ep_interest s fd = None
      then (True, s\<lparr>ep_interest := (ep_interest s)(fd \<mapsto> events)\<rparr>) else (False, s))"

definition modify_epoll :: "int \<Rightarrow> 32 word \<Rightarrow> EpollServer \<Rightarrow> bool \<times> EpollServer" where
  "modify_epoll fd events s =
     (if ep_epoll_fd s \<noteq> -1 \<and> ep_interest s fd \<noteq> None
      then (True, s\<lparr>ep_interest := (ep_interest s)(fd \<mapsto> events)\<rparr>) else (False, s))"

definition remove_from_epoll :: "int \<Rightarrow> EpollServer \<Rightarrow> EpollServer" where
  "remove_from_epoll fd s =
     (if ep_epoll_fd s \<noteq> -1 then s\<lparr>ep_interest := (ep_interest s)(fd := None)\<rparr> else s)"

text \<open>An operation on the sockets; the kernel forgets the interest in a descriptor that is closed.\<close>

definition on_store :: "(store \<Rightarrow> store) \<Rightarrow> EpollServer \<Rightarrow> EpollServer" where
  "on_store f s =
     (let w = f (ep_store s) in
      s\<lparr>ep_store := w, ep_interest := (\<lambda>fd. if fd \<in> open_fds w then ep_interest s fd else None)\<rparr>)"

definition connections_find :: "EpollServer \<Rightarrow> int \<Rightarrow> EpollConnection option" where
  "connections_find s = map_of (ep_connections s)"

text \<open>\<open>connections_.erase(fd)\<close> destroys the connection, and its socket with it.\<close>

definition erase_connection :: "int \<Rightarrow> EpollServer \<Rightarrow> EpollServer" where
  "erase_connection fd s =
     (case connections_find s fd of
        None \<Rightarrow> s
      | Some c \<Rightarrow> on_store (socket_destroy (ec_sock c))
                   (s\<lparr>ep_connections := AList.delete fd (ep_connections s)\<rparr>))"

definition close_connection :: "int \<Rightarrow> EpollServer \<Rightarrow> EpollServer" where
  "close_connection fd s = erase_connection fd (remove_from_epoll fd s)"

definition put_connection :: "int \<Rightarrow> EpollConnection \<Rightarrow> EpollServer \<Rightarrow> EpollServer" where
  "put_connection fd c s = s\<lparr>ep_connections := AList.update fd c (ep_connections s)\<rparr>"

section \<open>Accepting\<close>

text \<open>
  A new socket is blocking, and \<open>fcntl\<close> makes it non-blocking; \<open>F_GETFL\<close> and \<open>F_SETFL\<close> with
  \<open>O_NONBLOCK\<close> have no way to fail on a descriptor that is open, so their results, which the code does
  not look at, are not arguments.

  One round of \<open>accept_connections\<close> for a client the kernel has: the new \<open>Socket\<close> object, made
  non-blocking, the registration, and the move of the socket into the map, where \<open>connections_[fd] =\<close>
  destroys what was there before.
\<close>

definition fcntl_nonblock :: "net_io \<Rightarrow> net_io" where
  "fcntl_nonblock io = io\<lparr>nonblock := True\<rparr>"

definition accepted_io :: net_io where
  "accepted_io = fcntl_nonblock silent_io"

definition accept_one :: "int \<Rightarrow> bool \<Rightarrow> EpollServer \<Rightarrow> EpollServer" where
  "accept_one client_fd mem s =
     (let i = ep_next s; j = Suc i;
          s1 = on_store (listener_accept (ep_listener s) i client_fd)
                 (s\<lparr>ep_next := Suc j, ep_io := (ep_io s)(client_fd := accepted_io)\<rparr>) in
      (case add_to_epoll mem client_fd (or EPOLLIN EPOLLET) s1 of
         (False, s2) \<Rightarrow> on_store (socket_destroy i) s2
       | (True, s2) \<Rightarrow>
           let s3 = on_store (socket_move_new j i) s2;
               s4 = (case connections_find s3 client_fd of
                       Some old \<Rightarrow> on_store (socket_destroy (ec_sock old)) s3
                     | None \<Rightarrow> s3) in
           on_store (socket_destroy i) (put_connection client_fd (new_epoll_connection j) s4)))"

text \<open>How a handler ends: it returns, an exception leaves it, or a call in it does not return.\<close>

datatype epoll_end = Continues EpollServer | Throws | Hangs

text \<open>The script: the descriptors \<open>accept\<close> returns, each with the kernel's memory for its
  registration; the call that ends the loop fails with -1.  At the end of the script no client is
  waiting: \<open>accept\<close> fails with EAGAIN on a non-blocking listener and waits on a blocking one.\<close>

definition accept_failed :: "EpollServer \<Rightarrow> EpollServer" where
  "accept_failed s =
     on_store (socket_destroy (ep_next s))
       (on_store (listener_accept (ep_listener s) (ep_next s) (-1)) (s\<lparr>ep_next := Suc (ep_next s)\<rparr>))"

definition listener_blocks :: "EpollServer \<Rightarrow> bool" where
  "listener_blocks s =
     (let fd = fd_of (l_socket (ep_listener s)) (ep_store s) in is_valid fd \<and> \<not> nonblock (ep_io s fd))"

fun accept_connections :: "(int \<times> bool) list \<Rightarrow> EpollServer \<Rightarrow> epoll_end" where
  "accept_connections [] s = (if listener_blocks s then Hangs else Continues (accept_failed s))"
| "accept_connections ((client_fd, mem) # clients) s =
     (if \<not> is_valid client_fd \<or> \<not> is_valid (fd_of (l_socket (ep_listener s)) (ep_store s))
      then Continues (accept_failed s)
      else accept_connections clients (accept_one client_fd mem s))"

section \<open>Writing\<close>

datatype flush_end = Flushed | Would_block | Send_failed | Send_hangs

text \<open>The loop of \<open>handle_write\<close>; it sends with \<open>MSG_NOSIGNAL\<close>.\<close>

function flush_loop :: "bytes \<Rightarrow> nat \<Rightarrow> net_io \<Rightarrow> flush_end \<times> nat \<times> net_io" where
  "flush_loop buf offset io =
     (if \<not> offset < length buf then (Flushed, offset, io)
      else
        (case sys_send True (drop offset buf) io of
           (Returns (Inl EAGAIN), io') \<Rightarrow> (Would_block, offset, io')
         | (Returns (Inl EINTR), io') \<Rightarrow> flush_loop buf offset io'
         | (Returns (Inl EOTHER), io') \<Rightarrow> (Send_failed, offset, io')
         | (Returns (Inr n), io') \<Rightarrow> flush_loop buf (offset + n) io'
         | (_, io') \<Rightarrow> (Send_hangs, offset, io')))"
  by pat_completeness auto
termination
  by (relation "measure (\<lambda>(b, n, io). length (outq io))") (auto intro: sys_send_shrinks)

declare flush_loop.simps [simp del]

definition handle_write :: "int \<Rightarrow> EpollServer \<Rightarrow> epoll_end" where
  "handle_write fd s =
     (case connections_find s fd of
        None \<Rightarrow> Continues s
      | Some econn \<Rightarrow>
          (case flush_loop (ec_write_buffer econn) (ec_write_offset econn) (ep_io s fd) of
             (res, offset, io) \<Rightarrow>
               let c = econn\<lparr>ec_write_offset := offset\<rparr>;
                   s1 = put_connection fd c (s\<lparr>ep_io := (ep_io s)(fd := io)\<rparr>) in
               (case res of
                  Would_block \<Rightarrow> Continues s1
                | Send_failed \<Rightarrow> Continues (close_connection fd s1)
                | Send_hangs \<Rightarrow> Hangs
                | Flushed \<Rightarrow>
                    if \<not> ec_keep_alive c \<or> ec_request_count c \<ge> ep_max_requests_per_conn s1
                    then Continues (close_connection fd s1)
                    else
                      let c2 = c\<lparr>ec_parser := reset (ec_parser c), ec_write_buffer := [],
                                 ec_write_offset := 0, ec_state := READING\<rparr> in
                      Continues (snd (modify_epoll fd (or EPOLLIN EPOLLET) (put_connection fd c2 s1))))))"

section \<open>Reading\<close>

datatype drain_end = Drained | Peer_closed | Recv_failed | Got_request | Got_error | Recv_hangs

text \<open>The loop of \<open>handle_read\<close>, up to the first result of the parser that ends it.\<close>

definition READ_SIZE :: nat where "READ_SIZE = 4096"

function drain_loop :: "HttpParser \<Rightarrow> net_io \<Rightarrow> drain_end \<times> HttpParser \<times> net_io" where
  "drain_loop parser io =
     (case sys_recv READ_SIZE io of
        (Returns (Inl EAGAIN), io') \<Rightarrow> (Drained, parser, io')
      | (Returns (Inl EINTR), io') \<Rightarrow> drain_loop parser io'
      | (Returns (Inl EOTHER), io') \<Rightarrow> (Recv_failed, parser, io')
      | (Returns (Inr bs), io') \<Rightarrow>
          if bs = [] then (Peer_closed, parser, io')
          else
            (case feed bs parser of
               (R_COMPLETE, parser') \<Rightarrow> (Got_request, parser', io')
             | (R_ERROR, parser') \<Rightarrow> (Got_error, parser', io')
             | (R_INCOMPLETE, parser') \<Rightarrow> drain_loop parser' io')
      | (_, io') \<Rightarrow> (Recv_hangs, parser, io'))"
  by pat_completeness auto
termination
  by (relation "measure (\<lambda>(p, io). inq_size io)") (auto simp: READ_SIZE_def intro: sys_recv_size_sym)

declare drain_loop.simps [simp del]

text \<open>The application behind the server; without a router every request is answered with 500.\<close>

definition epoll_serve :: "filesystem \<Rightarrow> Router option \<Rightarrow> Request \<Rightarrow> Response option" where
  "epoll_serve fs router_ptr req =
     (case router_ptr of
        Some router \<Rightarrow> route fs router req
      | None \<Rightarrow> Some (error InternalServerError []))"

text \<open>What \<open>handle_read\<close> does with a response: into the buffer, over to writing, and a first try.\<close>

definition begin_write :: "int \<Rightarrow> EpollConnection \<Rightarrow> bytes \<Rightarrow> bool \<Rightarrow> int \<Rightarrow> EpollServer \<Rightarrow> epoll_end" where
  "begin_write fd econn data keep n s =
     (let c = econn\<lparr>ec_write_buffer := data, ec_write_offset := 0, ec_request_count := n,
                    ec_keep_alive := keep, ec_state := WRITING\<rparr> in
      handle_write fd (snd (modify_epoll fd (or EPOLLOUT EPOLLET) (put_connection fd c s))))"

definition handle_read :: "filesystem \<Rightarrow> (nat \<Rightarrow> int \<Rightarrow> nat) \<Rightarrow> int \<Rightarrow> EpollServer \<Rightarrow> epoll_end" where
  "handle_read fs clock fd s =
     (case connections_find s fd of
        None \<Rightarrow> Continues s
      | Some econn \<Rightarrow>
          (case drain_loop (ec_parser econn) (ep_io s fd) of
             (res, parser, io) \<Rightarrow>
               let c = econn\<lparr>ec_parser := parser\<rparr>;
                   s1 = put_connection fd c (s\<lparr>ep_io := (ep_io s)(fd := io)\<rparr>);
                   now = clock (ec_sock c) (ec_request_count c) in
               (case res of
                  Drained \<Rightarrow> Continues s1
                | Peer_closed \<Rightarrow> Continues (close_connection fd s1)
                | Recv_failed \<Rightarrow> Continues (close_connection fd s1)
                | Recv_hangs \<Rightarrow> Hangs
                | Got_request \<Rightarrow>
                    (case get_request parser of
                       (req, parser') \<Rightarrow>
                         let keep_alive = (ep_enable_keepalive s1 \<and> should_keep_alive req) in
                         (case epoll_serve fs (ep_router s1) req of
                            None \<Rightarrow> Throws
                          | Some res \<Rightarrow>
                              begin_write fd (c\<lparr>ec_parser := parser'\<rparr>)
                                (serialize now (res\<lparr>rs_keep_alive := keep_alive\<rparr>)) keep_alive
                                (ec_request_count c + 1) s1))
                | Got_error \<Rightarrow>
                    begin_write fd c
                      (serialize now ((error (error_code parser) [])\<lparr>rs_keep_alive := False\<rparr>)) False
                      (ec_request_count c) s1)))"

section \<open>Stopping\<close>

definition clear_connections :: "EpollServer \<Rightarrow> EpollServer" where
  "clear_connections s =
     (on_store (fold (\<lambda>(fd, c). socket_destroy (ec_sock c)) (ep_connections s)) s)\<lparr>ep_connections := []\<rparr>"

definition epoll_stop :: "EpollServer \<Rightarrow> EpollServer" where
  "epoll_stop s =
     (let s1 = on_store (listener_stop (ep_listener s)) (s\<lparr>ep_running := False\<rparr>);
          s2 = fold (\<lambda>(fd, c). remove_from_epoll fd) (ep_connections s1) s1 in
      clear_connections s2)"

text \<open>\<open>close\<close> on a bare descriptor: an open epoll instance goes with its interest list; otherwise it is
  the descriptor of a socket that is pulled away, or a descriptor that is not open.\<close>

definition close_fd :: "int \<Rightarrow> EpollServer \<Rightarrow> EpollServer" where
  "close_fd fd s =
     (if fd \<in> ep_epoll_open s
      then s\<lparr>ep_epoll_open := ep_epoll_open s - {fd}, ep_interest := (\<lambda>_. None)\<rparr>
      else on_store (sys_close fd) s)"

text \<open>The destructor, with that of the listener.\<close>

definition epoll_destroy :: "EpollServer \<Rightarrow> EpollServer" where
  "epoll_destroy s =
     (let s1 = epoll_stop s;
          s2 = (if ep_epoll_fd s1 \<noteq> -1 then close_fd (ep_epoll_fd s1) s1 else s1) in
      on_store (socket_destroy (l_socket (ep_listener s2))) s2)"

section \<open>The event loop\<close>

text \<open>An event is a descriptor with its bits; one on the listener comes with the clients that wait
  for \<open>accept\<close>.\<close>

type_synonym epoll_event = "int \<times> 32 word \<times> (int \<times> bool) list"

definition handle_event ::
  "filesystem \<Rightarrow> (nat \<Rightarrow> int \<Rightarrow> nat) \<Rightarrow> int \<Rightarrow> epoll_event \<Rightarrow> EpollServer \<Rightarrow> epoll_end" where
  "handle_event fs clock listen_fd e s =
     (case e of (fd, ev, clients) \<Rightarrow>
        if fd = listen_fd then accept_connections clients s
        else if has_event ev (or EPOLLERR EPOLLHUP) then Continues (close_connection fd s)
        else if has_event ev EPOLLIN then handle_read fs clock fd s
        else if has_event ev EPOLLOUT then handle_write fd s
        else Continues s)"

fun handle_events ::
  "filesystem \<Rightarrow> (nat \<Rightarrow> int \<Rightarrow> nat) \<Rightarrow> int \<Rightarrow> epoll_event list \<Rightarrow> EpollServer \<Rightarrow> epoll_end" where
  "handle_events fs clock listen_fd [] s = Continues s"
| "handle_events fs clock listen_fd (e # es) s =
     (case handle_event fs clock listen_fd e s of
        Continues s' \<Rightarrow> handle_events fs clock listen_fd es s'
      | r \<Rightarrow> r)"

text \<open>What meets the thread at a call of \<open>epoll_wait\<close>: the traffic there has been, whether
  \<open>stop\<close> has been called before, and the result.  A \<open>stop\<close> in the middle of a round would race
  with the handlers for the map of connections; it is modelled between rounds only.\<close>

datatype wait_result = Ready "epoll_event list" | Interrupted | Wait_failed

type_synonym wait_round = "(int \<Rightarrow> net_io \<Rightarrow> net_io) \<times> bool \<times> wait_result"

definition network :: "(int \<Rightarrow> net_io \<Rightarrow> net_io) \<Rightarrow> EpollServer \<Rightarrow> EpollServer" where
  "network f s = s\<lparr>ep_io := (\<lambda>fd. f fd (ep_io s fd))\<rparr>"

text \<open>The loop of \<open>start\<close> over a list of rounds; at the end of the list it is still in the loop.\<close>

fun event_loop ::
  "filesystem \<Rightarrow> (nat \<Rightarrow> int \<Rightarrow> nat) \<Rightarrow> int \<Rightarrow> wait_round list \<Rightarrow> EpollServer \<Rightarrow> epoll_end" where
  "event_loop fs clock listen_fd [] s = Continues s"
| "event_loop fs clock listen_fd ((traffic, stopped, result) # rounds) s =
     (let s0 = (if stopped then epoll_stop s else s) in
      if \<not> ep_running s0 then Continues s0
      else
        (case result of
           Interrupted \<Rightarrow> event_loop fs clock listen_fd rounds (network traffic s0)
         | Wait_failed \<Rightarrow> Continues (network traffic s0)
         | Ready es \<Rightarrow>
             (case handle_events fs clock listen_fd es (network traffic s0) of
                Continues s' \<Rightarrow> event_loop fs clock listen_fd rounds s'
              | r \<Rightarrow> r)))"

text \<open>\<open>start\<close> up to the loop: whether it is reached.  The listener's socket is a new one, so it is blocking
  until \<open>fcntl\<close> is called on it.\<close>

definition epoll_listen :: "start_results \<Rightarrow> bool \<Rightarrow> EpollServer \<Rightarrow> bool \<times> EpollServer" where
  "epoll_listen res mem s =
     (let tmp = ep_next s;
          up = fst (listener_start (ep_listener s) tmp res (ep_store s));
          s1 = on_store (\<lambda>w. snd (listener_start (ep_listener s) tmp res w)) (s\<lparr>ep_next := Suc tmp\<rparr>) in
      if \<not> up then (False, s1)
      else
        let listen_fd = listener_fd (ep_listener s1) (ep_store s1);
            s2 = s1\<lparr>ep_io := (ep_io s1)(listen_fd := fcntl_nonblock silent_io)\<rparr> in
        (case add_to_epoll mem listen_fd EPOLLIN s2 of
           (False, s3) \<Rightarrow> (False, s3)
         | (True, s3) \<Rightarrow> (True, s3\<lparr>ep_running := True\<rparr>)))"

definition epoll_start ::
  "filesystem \<Rightarrow> (nat \<Rightarrow> int \<Rightarrow> nat) \<Rightarrow> start_results \<Rightarrow> bool \<Rightarrow> wait_round list \<Rightarrow> EpollServer \<Rightarrow> epoll_end" where
  "epoll_start fs clock res mem rounds s =
     (case epoll_listen res mem s of
        (False, s1) \<Rightarrow> Continues s1
      | (True, s1) \<Rightarrow>
          if ep_max_events s1 < 0 then Throws
          else event_loop fs clock (fd_of (l_socket (ep_listener s1)) (ep_store s1)) rounds s1)"

section \<open>What the kernel can report\<close>

text \<open>
  The contract of the system calls: \<open>socket\<close> and \<open>accept\<close> return descriptors that were not open;
  \<open>epoll_wait\<close> reports a descriptor at most once, and only registered ones, with events they are
  registered for (errors and hang-ups are always reported).
\<close>

fun possible_clients :: "(int \<times> bool) list \<Rightarrow> EpollServer \<Rightarrow> bool" where
  "possible_clients [] s = True"
| "possible_clients ((client_fd, mem) # clients) s =
     (client_fd = -1 \<or>
      0 \<le> client_fd \<and> client_fd \<notin> descriptors s \<and>
      possible_clients clients (accept_one client_fd mem s))"

definition reportable :: "EpollServer \<Rightarrow> epoll_event \<Rightarrow> bool" where
  "reportable s e =
     (case ep_interest s (fst e) of
        None \<Rightarrow> False
      | Some m \<Rightarrow> (has_event (fst (snd e)) EPOLLIN \<longrightarrow> has_event m EPOLLIN) \<and>
                  (has_event (fst (snd e)) EPOLLOUT \<longrightarrow> has_event m EPOLLOUT))"

definition reported :: "epoll_event list \<Rightarrow> EpollServer \<Rightarrow> bool" where
  "reported es s =
     (distinct (map fst es) \<and> int (length es) \<le> ep_max_events s \<and> list_all (reportable s) es)"

fun possible_events ::
  "filesystem \<Rightarrow> (nat \<Rightarrow> int \<Rightarrow> nat) \<Rightarrow> int \<Rightarrow> epoll_event list \<Rightarrow> EpollServer \<Rightarrow> bool" where
  "possible_events fs clock listen_fd [] s = True"
| "possible_events fs clock listen_fd (e # es) s =
     ((fst e = listen_fd \<longrightarrow> possible_clients (snd (snd e)) s) \<and>
      (case handle_event fs clock listen_fd e s of
         Continues s' \<Rightarrow> possible_events fs clock listen_fd es s'
       | _ \<Rightarrow> True))"

text \<open>Traffic changes what will be received and what room there is, not what has been sent.\<close>

definition traffic_only :: "(int \<Rightarrow> net_io \<Rightarrow> net_io) \<Rightarrow> bool" where
  "traffic_only f = (\<forall>fd io. wire (f fd io) = wire io \<and> nonblock (f fd io) = nonblock io)"

fun possible_rounds ::
  "filesystem \<Rightarrow> (nat \<Rightarrow> int \<Rightarrow> nat) \<Rightarrow> int \<Rightarrow> wait_round list \<Rightarrow> EpollServer \<Rightarrow> bool" where
  "possible_rounds fs clock listen_fd [] s = True"
| "possible_rounds fs clock listen_fd ((traffic, stopped, result) # rounds) s =
     (let s0 = network traffic (if stopped then epoll_stop s else s) in
      traffic_only traffic \<and>
      (case result of
         Ready es \<Rightarrow> reported es s0 \<and> possible_events fs clock listen_fd es s0 \<and>
           (case handle_events fs clock listen_fd es s0 of
              Continues s' \<Rightarrow> possible_rounds fs clock listen_fd rounds s'
            | _ \<Rightarrow> True)
       | _ \<Rightarrow> possible_rounds fs clock listen_fd rounds s0))"

definition possible_start ::
  "filesystem \<Rightarrow> (nat \<Rightarrow> int \<Rightarrow> nat) \<Rightarrow> start_results \<Rightarrow> bool \<Rightarrow> wait_round list \<Rightarrow> EpollServer \<Rightarrow> bool" where
  "possible_start fs clock res mem rounds s =
     ((r_socket res = -1 \<or> 0 \<le> r_socket res \<and> r_socket res \<notin> descriptors s) \<and>
      possible_rounds fs clock (r_socket res) rounds (snd (epoll_listen res mem s)))"

section \<open>The server as a system\<close>

text \<open>The states between the calls of \<open>epoll_wait\<close>.\<close>

inductive epoll_step ::
  "filesystem \<Rightarrow> (nat \<Rightarrow> int \<Rightarrow> nat) \<Rightarrow> EpollServer \<Rightarrow> EpollServer \<Rightarrow> bool"
  for fs :: filesystem and clock :: "nat \<Rightarrow> int \<Rightarrow> nat"
where
  listen: "r_socket res = -1 \<or> 0 \<le> r_socket res \<and> r_socket res \<notin> descriptors s \<Longrightarrow>
     epoll_step fs clock s (snd (epoll_listen res mem s))"
| network: "traffic_only f \<Longrightarrow> epoll_step fs clock s (network f s)"
| events: "ep_running s \<Longrightarrow> listen_fd = fd_of (l_socket (ep_listener s)) (ep_store s) \<Longrightarrow>
     reported es s \<Longrightarrow> possible_events fs clock listen_fd es s \<Longrightarrow>
     handle_events fs clock listen_fd es s = Continues s' \<Longrightarrow> epoll_step fs clock s s'"
| stop: "epoll_step fs clock s (epoll_stop s)"

inductive_cases epoll_stepE: "epoll_step fs clock s s'"

end
