(* ===== verification/Epoll_Inv.thy ===== *)
theory Epoll_Inv
  imports Epoll_Server
begin

text \<open>
  The invariant of the event-driven server: every socket has one owner, the interest list
  follows the state of each connection, and what each connection has been sent is what the
  dialogue of the threaded server allows.
\<close>

section \<open>The store under the server's operations\<close>

lemma fd_of_Some: "objs w i = Some fd \<Longrightarrow> fd_of i w = fd"
  by (simp add: fd_of_def)

lemma on_store_fields [simp]:
  "ep_store (on_store f s) = f (ep_store s)"
  "ep_interest (on_store f s) fd = (if fd \<in> open_fds (f (ep_store s)) then ep_interest s fd else None)"
  "ep_epoll_fd (on_store f s) = ep_epoll_fd s" "ep_listener (on_store f s) = ep_listener s"
  "ep_router (on_store f s) = ep_router s" "ep_connections (on_store f s) = ep_connections s"
  "ep_running (on_store f s) = ep_running s" "ep_max_events (on_store f s) = ep_max_events s"
  "ep_enable_keepalive (on_store f s) = ep_enable_keepalive s"
  "ep_max_requests_per_conn (on_store f s) = ep_max_requests_per_conn s"
  "ep_io (on_store f s) = ep_io s" "ep_next (on_store f s) = ep_next s"
  "ep_epoll_open (on_store f s) = ep_epoll_open s"
  by (simp_all add: on_store_def Let_def)

lemma connections_find_frame [simp]:
  "connections_find (on_store f s) = connections_find s"
  "connections_find (s\<lparr>ep_io := io\<rparr>) = connections_find s"
  "connections_find (s\<lparr>ep_interest := i\<rparr>) = connections_find s"
  "connections_find (s\<lparr>ep_next := n\<rparr>) = connections_find s"
  "connections_find (s\<lparr>ep_store := w\<rparr>) = connections_find s"
  "connections_find (s\<lparr>ep_running := b\<rparr>) = connections_find s"
  by (simp_all add: connections_find_def)

lemma put_connection_fields [simp]:
  "connections_find (put_connection fd c s) = (connections_find s)(fd \<mapsto> c)"
  "ep_store (put_connection fd c s) = ep_store s" "ep_interest (put_connection fd c s) = ep_interest s"
  "ep_epoll_fd (put_connection fd c s) = ep_epoll_fd s" "ep_listener (put_connection fd c s) = ep_listener s"
  "ep_router (put_connection fd c s) = ep_router s" "ep_running (put_connection fd c s) = ep_running s"
  "ep_max_events (put_connection fd c s) = ep_max_events s"
  "ep_enable_keepalive (put_connection fd c s) = ep_enable_keepalive s"
  "ep_max_requests_per_conn (put_connection fd c s) = ep_max_requests_per_conn s"
  "ep_io (put_connection fd c s) = ep_io s" "ep_next (put_connection fd c s) = ep_next s"
  "ep_epoll_open (put_connection fd c s) = ep_epoll_open s"
  by (simp_all add: put_connection_def connections_find_def update_conv')

section \<open>What may be on the wire\<close>

text \<open>The configuration of the threaded server that means the same for a connection; this server answers
  one request before it looks at its limit.\<close>

definition epoll_config :: "EpollServer \<Rightarrow> Config" where
  "epoll_config s = default_config\<lparr>max_requests_per_conn := max 1 (ep_max_requests_per_conn s),
     enable_keepalive := ep_enable_keepalive s\<rparr>"

lemma epoll_config_fields [simp]:
  "max_requests_per_conn (epoll_config s) = max 1 (ep_max_requests_per_conn s)"
  "enable_keepalive (epoll_config s) = ep_enable_keepalive s"
  by (simp_all add: epoll_config_def)

lemma wants_keep_alive_conj:
  "wants_keep_alive config req = (enable_keepalive config \<and> should_keep_alive req)"
  by (simp add: wants_keep_alive_def Let_def)

text \<open>All of an allowed dialogue, a beginning of one, and one that can go on with request \<open>n\<close>.\<close>

definition concluded ::
  "(Request \<Rightarrow> Response option) \<Rightarrow> Config \<Rightarrow> (int \<Rightarrow> nat) \<Rightarrow> bytes \<Rightarrow> bool" where
  "concluded serve config clk w = (\<exists>rs. dialogue serve config 0 rs \<and> w = transcript clk 0 rs)"

definition conforms :: "(Request \<Rightarrow> Response option) \<Rightarrow> Config \<Rightarrow> bytes \<Rightarrow> bool" where
  "conforms serve config w =
     (\<exists>clk rs k. dialogue serve config 0 rs \<and> w = take k (transcript clk 0 rs))"

definition ongoing ::
  "(Request \<Rightarrow> Response option) \<Rightarrow> Config \<Rightarrow> (int \<Rightarrow> nat) \<Rightarrow> int \<Rightarrow> bytes \<Rightarrow> bool" where
  "ongoing serve config clk n w =
     (n < max_requests_per_conn config \<and>
      (\<exists>hist. int (length hist) = n \<and> w = transcript clk 0 hist \<and>
         (\<forall>rs. dialogue serve config n rs \<longrightarrow> dialogue serve config 0 (hist @ rs))))"

lemma transcript_append:
  "transcript clk n (as @ bs) = transcript clk n as @ transcript clk (n + int (length as)) bs"
  by (induction as arbitrary: n) (simp_all add: add.assoc)

lemma conforms_Nil [simp]: "conforms serve config []"
  unfolding conforms_def using dialogue.silent [of serve config 0] by fastforce

lemma concluded_conforms: "concluded serve config clk (w @ v) \<Longrightarrow> conforms serve config w"
proof -
  assume "concluded serve config clk (w @ v)"
  then obtain rs where "dialogue serve config 0 rs" "w = take (length w) (transcript clk 0 rs)"
    by (auto simp: concluded_def) (metis append_eq_conv_conj)
  then show ?thesis unfolding conforms_def by blast
qed

lemma ongoing_concluded: "ongoing serve config clk n w \<Longrightarrow> concluded serve config clk w"
  unfolding ongoing_def concluded_def using dialogue.silent [of serve config n] by force

lemma ongoing_start: "0 < max_requests_per_conn config \<Longrightarrow> ongoing serve config clk 0 []"
  by (auto simp: ongoing_def intro!: exI [of _ "[]"])

lemma ongoing_one:
  assumes "ongoing serve config clk n w" "dialogue serve config n [r]"
  shows "concluded serve config clk (w @ serialize (clk n) r)"
proof -
  obtain hist where h: "int (length hist) = n" "w = transcript clk 0 hist"
    "\<forall>rs. dialogue serve config n rs \<longrightarrow> dialogue serve config 0 (hist @ rs)"
    using assms(1) by (auto simp: ongoing_def)
  then have "dialogue serve config 0 (hist @ [r])" using assms(2) by blast
  with h show ?thesis unfolding concluded_def
    by (intro exI [of _ "hist @ [r]"]) (simp add: transcript_append)
qed

lemma ongoing_more:
  assumes "ongoing serve config clk n w" "n + 1 < max_requests_per_conn config"
    "\<And>rs. dialogue serve config (n + 1) rs \<Longrightarrow> dialogue serve config n (r # rs)"
  shows "ongoing serve config clk (n + 1) (w @ serialize (clk n) r)"
proof -
  obtain hist where h: "int (length hist) = n" "w = transcript clk 0 hist"
    "\<forall>rs. dialogue serve config n rs \<longrightarrow> dialogue serve config 0 (hist @ rs)"
    using assms(1) by (auto simp: ongoing_def)
  have "dialogue serve config 0 ((hist @ [r]) @ rs)" if "dialogue serve config (n + 1) rs" for rs
    using h(3) assms(3) [OF that] by simp
  with h assms(2) show ?thesis unfolding ongoing_def
    by (intro conjI exI [of _ "hist @ [r]"]) (simp_all add: transcript_append)
qed

section \<open>The invariant\<close>

text \<open>Who owns what: the objects are the listener and the connections' sockets, each connection
  stands under its own descriptor, and only open descriptors are registered.\<close>

definition store_inv :: "EpollServer \<Rightarrow> bool" where
  "store_inv s =
     (own_inv (ep_store s) \<and> l_socket (ep_listener s) < ep_next s \<and>
      distinct (map fst (ep_connections s)) \<and>
      (\<forall>x g. objs (ep_store s) x = Some g \<longrightarrow> x < ep_next s \<and>
         (x = l_socket (ep_listener s) \<or> (\<exists>fd c. connections_find s fd = Some c \<and> ec_sock c = x))) \<and>
      (\<forall>fd c. connections_find s fd = Some c \<longrightarrow> fd \<noteq> -1 \<and> objs (ep_store s) (ec_sock c) = Some fd \<and>
         ec_sock c \<noteq> l_socket (ep_listener s)) \<and>
      (\<forall>fd m. ep_interest s fd = Some m \<longrightarrow> fd \<in> open_fds (ep_store s) \<and> ep_epoll_fd s \<noteq> -1) \<and>
      ep_epoll_open s = {ep_epoll_fd s} - {-1})"

text \<open>What a connection in its state needs of its interest and its traffic.\<close>

definition to_send :: "EpollConnection \<Rightarrow> net_io \<Rightarrow> bytes" where
  "to_send c io = wire io @ drop (ec_write_offset c) (ec_write_buffer c)"

definition promised ::
  "(Request \<Rightarrow> Response option) \<Rightarrow> Config \<Rightarrow> (int \<Rightarrow> nat) \<Rightarrow> EpollConnection \<Rightarrow> bytes \<Rightarrow> bool" where
  "promised serve config clk c w =
     (concluded serve config clk w \<and>
      (ec_keep_alive c \<longrightarrow> ec_request_count c < max_requests_per_conn config \<longrightarrow>
         ongoing serve config clk (ec_request_count c) w))"

definition conn_inv ::
  "(Request \<Rightarrow> Response option) \<Rightarrow> Config \<Rightarrow> (int \<Rightarrow> nat) \<Rightarrow> 32 word option \<Rightarrow> net_io \<Rightarrow> EpollConnection \<Rightarrow> bool" where
  "conn_inv serve config clk interest io c =
     (nonblock io \<and>
      (case ec_state c of
         READING \<Rightarrow> interest = Some (or EPOLLIN EPOLLET) \<and> ec_write_buffer c = [] \<and>
                    ec_write_offset c = 0 \<and> parser_inv (ec_parser c) \<and>
                    ongoing serve config clk (ec_request_count c) (wire io)
       | WRITING \<Rightarrow> interest = Some (or EPOLLOUT EPOLLET) \<and>
                    ec_write_offset c < length (ec_write_buffer c) \<and>
                    promised serve config clk c (to_send c io)
       | CLOSING \<Rightarrow> False))"

text \<open>The parameters: the application, and the configuration it was started with.\<close>

definition settings :: "Router option \<Rightarrow> Config \<Rightarrow> EpollServer \<Rightarrow> bool" where
  "settings r config s = (ep_router s = r \<and> epoll_config s = config)"

text \<open>All is well but for the descriptors in \<open>X\<close>; whatever is registered, the listener too, is non-blocking.\<close>

definition inv_but ::
  "int set \<Rightarrow> filesystem \<Rightarrow> (nat \<Rightarrow> int \<Rightarrow> nat) \<Rightarrow> Router option \<Rightarrow> Config \<Rightarrow> EpollServer \<Rightarrow> bool" where
  "inv_but X fs clock r config s =
     (settings r config s \<and> store_inv s \<and>
      (\<forall>fd. fd \<notin> X \<longrightarrow> conforms (epoll_serve fs r) config (wire (ep_io s fd))) \<and>
      (\<forall>fd m. fd \<notin> X \<longrightarrow> ep_interest s fd = Some m \<longrightarrow> nonblock (ep_io s fd)) \<and>
      (\<forall>fd c. fd \<notin> X \<longrightarrow> connections_find s fd = Some c \<longrightarrow>
         conn_inv (epoll_serve fs r) config (clock (ec_sock c)) (ep_interest s fd) (ep_io s fd) c))"

definition epoll_inv ::
  "filesystem \<Rightarrow> (nat \<Rightarrow> int \<Rightarrow> nat) \<Rightarrow> Router option \<Rightarrow> Config \<Rightarrow> EpollServer \<Rightarrow> bool" where
  "epoll_inv fs clock r config s = inv_but {} fs clock r config s"

lemma epoll_inv_but: "epoll_inv fs clock r config s \<Longrightarrow> inv_but X fs clock r config s"
  by (simp add: epoll_inv_def inv_but_def)

lemma conn_inv_nonblock: "conn_inv serve config clk i io c \<Longrightarrow> nonblock io"
  by (simp add: conn_inv_def)

lemma conn_inv_conforms: "conn_inv serve config clk i io c \<Longrightarrow> conforms serve config (wire io)"
  using concluded_conforms [of serve config clk "wire io" "[]"] ongoing_concluded
  by (auto simp: conn_inv_def promised_def to_send_def intro: concluded_conforms
      split: EpollState.splits)

lemma store_invD:
  assumes "store_inv s"
  shows store_own: "own_inv (ep_store s)"
    and store_conn: "connections_find s fd = Some c \<Longrightarrow> fd \<noteq> -1 \<and> objs (ep_store s) (ec_sock c) = Some fd \<and>
         ec_sock c \<noteq> l_socket (ep_listener s) \<and> fd \<in> open_fds (ep_store s)"
    and store_interest: "ep_interest s fd = Some m \<Longrightarrow> fd \<in> open_fds (ep_store s) \<and> ep_epoll_fd s \<noteq> -1"
    and store_live: "objs (ep_store s) x = Some g \<Longrightarrow> x < ep_next s"
  using assms own_open [of "ep_store s" "ec_sock c" fd] unfolding store_inv_def by blast+

lemma store_conn_unique:
  assumes "store_inv s" "connections_find s fd = Some c" "connections_find s g = Some d" "ec_sock c = ec_sock d"
  shows "fd = g"
  using store_conn [OF assms(1,2)] store_conn [OF assms(1,3)] assms(4) by simp

section \<open>Small changes\<close>

lemma store_inv_put:
  assumes "store_inv s" "connections_find s fd = Some c" "ec_sock d = ec_sock c"
  shows "store_inv (put_connection fd d s)"
proof -
  have "(\<exists>g d'. ((connections_find s)(fd \<mapsto> d)) g = Some d' \<and> ec_sock d' = x) \<longleftrightarrow>
      (\<exists>g d. connections_find s g = Some d \<and> ec_sock d = x)" for x
    using assms(2,3) by (metis fun_upd_apply option.inject)
  moreover have "distinct (map fst (ep_connections (put_connection fd d s)))"
    using assms(1) by (simp add: put_connection_def distinct_update store_inv_def)
  ultimately show ?thesis using assms by (auto simp: store_inv_def)
qed

lemma inv_but_put:
  assumes "inv_but X fs clock r config s" "fd \<in> X" "connections_find s fd = Some c" "ec_sock c' = ec_sock c"
  shows "inv_but X fs clock r config (put_connection fd c' s)"
  using assms store_inv_put [of s fd c c']
  by (auto simp: inv_but_def settings_def epoll_config_def)

lemma inv_but_io:
  "inv_but X fs clock r config s \<Longrightarrow> fd \<in> X \<Longrightarrow>
     inv_but X fs clock r config (s\<lparr>ep_io := (ep_io s)(fd := io)\<rparr>)"
  by (auto simp: inv_but_def settings_def epoll_config_def store_inv_def)

lemma modify_registered:
  "store_inv s \<Longrightarrow> ep_interest s fd = Some m \<Longrightarrow>
     snd (modify_epoll fd ev s) = s\<lparr>ep_interest := (ep_interest s)(fd \<mapsto> ev)\<rparr>"
  using store_interest [of s fd] by (simp add: modify_epoll_def)

lemma inv_but_modify:
  "inv_but X fs clock r config s \<Longrightarrow> fd \<in> X \<Longrightarrow>
     inv_but X fs clock r config (snd (modify_epoll fd ev s))"
  by (auto simp: modify_epoll_def inv_but_def settings_def epoll_config_def store_inv_def)

lemma inv_restore:
  assumes "inv_but {fd} fs clock r config s" "connections_find s fd = Some c"
    "conn_inv (epoll_serve fs r) config (clock (ec_sock c)) (ep_interest s fd) (ep_io s fd) c"
  shows "epoll_inv fs clock r config s"
  using assms conn_inv_conforms [OF assms(3)] conn_inv_nonblock [OF assms(3)]
  unfolding epoll_inv_def inv_but_def by (metis insert_iff empty_iff option.inject)

text \<open>What a handler of \<open>fd\<close> owes: the invariant, the listener and the interest in the other descriptors,
  and that it does not wait; an exception is one of the application.\<close>

definition listen_fd_of :: "EpollServer \<Rightarrow> int" where
  "listen_fd_of s = fd_of (l_socket (ep_listener s)) (ep_store s)"

lemma listen_fd_of_frame [simp]:
  "listen_fd_of (put_connection fd c s) = listen_fd_of s" "listen_fd_of (s\<lparr>ep_io := io\<rparr>) = listen_fd_of s"
  "listen_fd_of (s\<lparr>ep_interest := i\<rparr>) = listen_fd_of s" "listen_fd_of (s\<lparr>ep_next := n\<rparr>) = listen_fd_of s"
  "listen_fd_of (s\<lparr>ep_running := b\<rparr>) = listen_fd_of s"
  by (simp_all add: listen_fd_of_def)

definition keeps_interest :: "int set \<Rightarrow> EpollServer \<Rightarrow> EpollServer \<Rightarrow> bool" where
  "keeps_interest X s s' =
     ((\<forall>g m. g \<notin> X \<longrightarrow> ep_interest s g = Some m \<longrightarrow> ep_interest s' g = Some m) \<and>
      listen_fd_of s' = listen_fd_of s)"

lemma keeps_interest_refl [simp]: "keeps_interest X s s"
  by (simp add: keeps_interest_def)

lemma keeps_interest_trans:
  "keeps_interest X s1 s2 \<Longrightarrow> keeps_interest X s2 s3 \<Longrightarrow> keeps_interest X s1 s3"
  by (simp add: keeps_interest_def)

lemma keeps_interest_put [simp]:
  "keeps_interest X s (put_connection fd c s') = keeps_interest X s s'"
  "keeps_interest X s (s'\<lparr>ep_io := io\<rparr>) = keeps_interest X s s'"
  "keeps_interest X (put_connection fd c s) s' = keeps_interest X s s'"
  "keeps_interest X (s\<lparr>ep_io := io\<rparr>) s' = keeps_interest X s s'"
  by (simp_all add: keeps_interest_def)

lemma keeps_interest_modify:
  "fd \<in> X \<Longrightarrow> keeps_interest X s (snd (modify_epoll fd ev s))"
  by (auto simp: keeps_interest_def modify_epoll_def)

section \<open>Closing\<close>

lemma remove_fields:
  assumes "store_inv s"
  shows "remove_from_epoll fd s = s\<lparr>ep_interest := (ep_interest s)(fd := None)\<rparr>"
  using store_interest [OF assms] by (cases "ep_interest s fd") (auto simp: remove_from_epoll_def fun_upd_idem)

lemma close_fields:
  assumes inv: "store_inv s"
  shows "connections_find (close_connection fd s) = (connections_find s)(fd := None)"
    "g \<noteq> fd \<Longrightarrow> ep_interest (close_connection fd s) g = ep_interest s g"
    "ep_interest (close_connection fd s) fd = None"
    "ep_io (close_connection fd s) = ep_io s"
    "ep_next (close_connection fd s) = ep_next s"
    "ep_listener (close_connection fd s) = ep_listener s"
    "ep_epoll_fd (close_connection fd s) = ep_epoll_fd s \<and>
     ep_epoll_open (close_connection fd s) = ep_epoll_open s"
    "ep_running (close_connection fd s) = ep_running s"
    "ep_router (close_connection fd s) = ep_router s"
    "epoll_config (close_connection fd s) = epoll_config s"
    "ep_connections (close_connection fd s) = AList.delete fd (ep_connections s)"
    "ep_store (close_connection fd s) = (case connections_find s fd of None \<Rightarrow> ep_store s
       | Some c \<Rightarrow> socket_destroy (ec_sock c) (ep_store s))"
proof -
  have d: "connections_find s fd = None \<Longrightarrow> AList.delete fd (ep_connections s) = ep_connections s"
    by (simp add: connections_find_def map_of_eq_None_iff)
  have i: "ep_interest s g = None" if "connections_find s fd = Some c" "g \<noteq> fd"
    "g \<notin> open_fds (socket_destroy (ec_sock c) (ep_store s))" for g c
    using that store_own [OF inv] store_conn [OF inv that(1)] store_interest [OF inv, of g]
    by (cases "ep_interest s g") (auto simp: fd_of_def)
  note defs = close_connection_def erase_connection_def remove_fields [OF inv]
  show "connections_find (close_connection fd s) = (connections_find s)(fd := None)"
    "ep_connections (close_connection fd s) = AList.delete fd (ep_connections s)"
    using d by (auto simp: defs connections_find_def delete_conv' split: option.splits)
  show "ep_interest (close_connection fd s) g = ep_interest s g" if "g \<noteq> fd" for g
    using i that by (auto simp: defs split: option.splits)
qed (simp_all add: close_connection_def erase_connection_def remove_fields [OF inv] epoll_config_def
    split: option.splits)

lemma store_inv_close:
  assumes inv: "store_inv s"
  shows "store_inv (close_connection fd s)"
proof (cases "connections_find s fd")
  case None
  with inv show ?thesis
    using close_fields(2,3) [OF inv]
    by (auto simp: store_inv_def close_fields(1,4-) [OF inv] distinct_delete)
      (metis option.distinct(1))+
next
  case (Some c)
  note c = store_conn [OF inv Some]
  have other: "ec_sock d \<noteq> ec_sock c" if "connections_find s g = Some d" "g \<noteq> fd" for g d
    using store_conn_unique [OF inv that(1) Some] that(2) by blast
  have live: "(\<exists>g d. g \<noteq> fd \<and> connections_find s g = Some d \<and> ec_sock d = x) \<or> x = l_socket (ep_listener s)"
    if "objs (ep_store s) x = Some g" "x \<noteq> ec_sock c" for x g
    using inv that Some unfolding store_inv_def by (metis option.inject)
  have reg: "g \<noteq> fd \<and> g \<in> open_fds (ep_store s) \<and> ep_epoll_fd s \<noteq> -1"
    if "ep_interest (close_connection fd s) g = Some m" for g m
    using that store_interest [OF inv, of g] close_fields(2,3) [OF inv] by (metis option.distinct(1))
  show ?thesis
    unfolding store_inv_def
    using inv Some c other live reg
    by (auto simp: close_fields(1,4-) [OF inv] distinct_delete store_inv_def own_inv_destroy fd_of_def)
      blast
qed

lemma inv_close:
  assumes inv: "inv_but {fd} fs clock r config s"
    and w: "conforms (epoll_serve fs r) config (wire (ep_io s fd))"
  shows "epoll_inv fs clock r config (close_connection fd s)"
proof -
  from inv have st: "store_inv s" by (simp add: inv_but_def)
  have "conforms (epoll_serve fs r) config (wire (ep_io s g))" for g
    using inv w by (cases "g = fd") (auto simp: inv_but_def)
  moreover have "nonblock (ep_io s g)" if "ep_interest (close_connection fd s) g = Some m" for g m
    using inv that close_fields(2,3) [OF st] by (cases "g = fd") (auto simp: inv_but_def)
  ultimately show ?thesis
    using inv store_inv_close [OF st]
    by (auto simp: epoll_inv_def inv_but_def settings_def close_fields [OF st])
qed

lemma keeps_interest_close:
  assumes "store_inv s" "fd \<in> X"
  shows "keeps_interest X s (close_connection fd s)"
proof -
  have "listen_fd_of (close_connection fd s) = listen_fd_of s"
    using store_conn [OF assms(1), of fd] close_fields(6,12) [OF assms(1), of fd]
    by (auto simp: listen_fd_of_def fd_of_def split: option.splits)
  then show ?thesis
    unfolding keeps_interest_def using assms close_fields(2) [of s _ fd] by metis
qed

end
