(* ===== verification/Epoll_Handlers.thy ===== *)
theory Epoll_Handlers
  imports Epoll_Inv
begin

text \<open>
  The handlers of the event-driven server keep its invariant: writing, and reading with the
  first write of the response.
\<close>

definition handler_ok ::
  "filesystem \<Rightarrow> (nat \<Rightarrow> int \<Rightarrow> nat) \<Rightarrow> Router option \<Rightarrow> Config \<Rightarrow> int set \<Rightarrow> EpollServer \<Rightarrow> epoll_end \<Rightarrow> bool" where
  "handler_ok fs clock r config X s e =
     (case e of
        Continues s' \<Rightarrow> epoll_inv fs clock r config s' \<and> keeps_interest X s s'
      | Throws \<Rightarrow> \<exists>req. wellformed req \<and> epoll_serve fs r req = None
      | Hangs \<Rightarrow> False)"

lemma handler_ok_trans:
  "keeps_interest X s s' \<Longrightarrow> handler_ok fs clock r config X s' e \<Longrightarrow> handler_ok fs clock r config X s e"
  by (auto simp: handler_ok_def intro: keeps_interest_trans split: epoll_end.splits)

section \<open>Writing\<close>

lemma flush_loop_spec:
  "flush_loop buf off io = (res, off', io') \<Longrightarrow> off \<le> length buf \<Longrightarrow>
     off' \<le> length buf \<and> wire io' @ drop off' buf = wire io @ drop off buf \<and>
     nonblock io' = nonblock io \<and> (res = Flushed \<longrightarrow> off' = length buf) \<and>
     (res = Would_block \<longrightarrow> off' < length buf) \<and> (res = Send_hangs \<longrightarrow> \<not> nonblock io)"
proof (induction buf off io rule: flush_loop.induct)
  case (1 buf off io)
  note unfold = flush_loop.simps [of buf off io]
  show ?case
  proof (cases "off < length buf")
    case False
    with "1.prems" show ?thesis by (auto simp: unfold)
  next
    case off: True
    obtain s io1 where s: "sys_send True (drop off buf) io = (s, io1)"
      by (cases "sys_send True (drop off buf) io")
    note frame = sys_send_frame [OF s]
    consider (sent) k where "s = Returns (Inr k)" | (intr) "s = Returns (Inl EINTR)"
      | (stop) "\<And>k. s \<noteq> Returns (Inr k)" "s \<noteq> Returns (Inl EINTR)" by blast
    then show ?thesis
    proof cases
      case sent
      with s have k: "k \<le> length (drop off buf)" "wire io1 = wire io @ take k (drop off buf)"
        using sys_send_sent by blast+
      from "1.prems" off s sent have "flush_loop buf (off + k) io1 = (res, off', io')"
        by (simp add: unfold)
      moreover have "take k (drop off buf) @ drop (off + k) buf = drop off buf"
        by (metis append_take_drop_id drop_drop add.commute)
      ultimately show ?thesis
        using "1.IH"(2) [of s io1 "Inr k" k] off s sent k frame by simp
    next
      case intr
      then have "wire io1 = wire io" using s sys_send_none by fastforce
      moreover from "1.prems" off s intr have "flush_loop buf off io1 = (res, off', io')"
        by (simp add: unfold)
      ultimately show ?thesis
        using "1.IH"(1) [of s io1 "Inl EINTR" EINTR] off s intr "1.prems"(2) frame by simp
    next
      case stop
      then have "wire io1 = wire io" using s sys_send_none by blast
      then show ?thesis
        using "1.prems" off s stop frame sys_send_returns [of True _ io io1] sys_send_nosignal [OF s]
        by (auto simp: unfold split: outcome.splits sum.splits errno.splits)
    qed
  qed
qed

text \<open>A connection that has something to write, or has just finished.\<close>

definition may_write ::
  "(Request \<Rightarrow> Response option) \<Rightarrow> Config \<Rightarrow> (int \<Rightarrow> nat) \<Rightarrow> 32 word option \<Rightarrow> net_io \<Rightarrow> EpollConnection \<Rightarrow> bool" where
  "may_write serve config clk interest io c =
     (nonblock io \<and> ec_state c = WRITING \<and> interest = Some (or EPOLLOUT EPOLLET) \<and>
      ec_write_offset c \<le> length (ec_write_buffer c) \<and> promised serve config clk c (to_send c io))"

lemma promised_offset [simp]:
  "promised serve config clk (c\<lparr>ec_write_offset := n\<rparr>) w = promised serve config clk c w"
  by (simp add: promised_def)

text \<open>The ways a handler leaves its connection: closed, or with a new entry and interest.\<close>

lemma inv_but_put_io:
  "inv_but {fd} fs clock r config s \<Longrightarrow> connections_find s fd = Some c \<Longrightarrow> ec_sock c' = ec_sock c \<Longrightarrow>
     inv_but {fd} fs clock r config (put_connection fd c' (s\<lparr>ep_io := (ep_io s)(fd := io)\<rparr>))"
  by (rule inv_but_put [of _ _ _ _ _ _ _ c]) (auto intro: inv_but_io)

lemma inv_but_put_modify:
  fixes ev :: "32 word"
  assumes inv: "inv_but {fd} fs clock r config s" and c: "connections_find s fd = Some c"
    and sock: "ec_sock c' = ec_sock c" and reg: "ep_interest s fd = Some m"
  defines "t \<equiv> snd (modify_epoll fd ev (put_connection fd c' s))"
  shows "inv_but {fd} fs clock r config t"
    and "t = (put_connection fd c' s)\<lparr>ep_interest := (ep_interest s)(fd \<mapsto> ev)\<rparr>"
proof -
  have inv1: "inv_but {fd} fs clock r config (put_connection fd c' s)"
    by (rule inv_but_put [OF inv _ c sock]) simp
  then show "inv_but {fd} fs clock r config t" unfolding t_def by (rule inv_but_modify) simp
  show "t = (put_connection fd c' s)\<lparr>ep_interest := (ep_interest s)(fd \<mapsto> ev)\<rparr>"
    unfolding t_def using inv1 reg
    by (subst modify_registered [where m = m]) (simp_all add: inv_but_def)
qed

lemma handler_ok_close:
  assumes "inv_but {fd} fs clock r config s1" "conforms (epoll_serve fs r) config (wire (ep_io s1 fd))"
    and "keeps_interest {fd} s s1"
  shows "handler_ok fs clock r config {fd} s (Continues (close_connection fd s1))"
proof -
  have "store_inv s1" using assms(1) by (simp add: inv_but_def)
  then show ?thesis
    using inv_close [OF assms(1,2)] keeps_interest_trans [OF assms(3) keeps_interest_close [of s1 fd]]
    by (simp add: handler_ok_def)
qed

lemma handler_ok_again:
  assumes inv: "inv_but {fd} fs clock r config s" and c: "connections_find s fd = Some c"
    and reg: "ep_interest s fd = Some m" and nb: "nonblock (ep_io s fd)"
    and go: "ongoing (epoll_serve fs r) config (clock (ec_sock c)) (ec_request_count c) (wire (ep_io s fd))"
  shows "handler_ok fs clock r config {fd} s (Continues (snd (modify_epoll fd (or EPOLLIN EPOLLET)
    (put_connection fd (c\<lparr>ec_parser := reset p, ec_write_buffer := [], ec_write_offset := 0,
       ec_state := READING\<rparr>) s))))"
proof -
  define d where "d = c\<lparr>ec_parser := reset p, ec_write_buffer := [], ec_write_offset := 0, ec_state := READING\<rparr>"
  define t where "t = snd (modify_epoll fd (or EPOLLIN EPOLLET) (put_connection fd d s))"
  have "ec_sock d = ec_sock c" by (simp add: d_def)
  note t = inv_but_put_modify [OF inv c this reg, of "or EPOLLIN EPOLLET", folded t_def]
  have "conn_inv (epoll_serve fs r) config (clock (ec_sock d)) (ep_interest t fd) (ep_io t fd) d"
    using nb go by (simp add: conn_inv_def t(2) d_def)
  then have "epoll_inv fs clock r config t" by (intro inv_restore [OF t(1)]) (simp add: t(2))
  moreover have "keeps_interest {fd} s t" by (auto simp: keeps_interest_def t(2))
  ultimately show ?thesis by (simp add: handler_ok_def t_def d_def)
qed

text \<open>The server once \<open>send\<close> has been called: \<open>c1\<close> is the entry, \<open>s1\<close> the state.\<close>

lemma after_flush:
  assumes inv: "inv_but {fd} fs clock r config s" and c: "connections_find s fd = Some c"
    and w: "may_write (epoll_serve fs r) config (clock (ec_sock c)) (ep_interest s fd) (ep_io s fd) c"
    and fl: "flush_loop (ec_write_buffer c) (ec_write_offset c) (ep_io s fd) = (res, off, io)"
  defines "c1 \<equiv> c\<lparr>ec_write_offset := off\<rparr>"
  defines "s1 \<equiv> put_connection fd c1 (s\<lparr>ep_io := (ep_io s)(fd := io)\<rparr>)"
  shows "inv_but {fd} fs clock r config s1" "keeps_interest {fd} s s1" "connections_find s1 fd = Some c1"
    "ep_interest s1 fd = Some (or EPOLLOUT EPOLLET)" "nonblock (ep_io s1 fd)" "res \<noteq> Send_hangs"
    "res = Would_block \<Longrightarrow> conn_inv (epoll_serve fs r) config (clock (ec_sock c1)) (ep_interest s1 fd) (ep_io s1 fd) c1"
    "conforms (epoll_serve fs r) config (wire (ep_io s1 fd))"
    "res = Flushed \<Longrightarrow> ec_keep_alive c1 \<Longrightarrow> \<not> ec_request_count c1 \<ge> ep_max_requests_per_conn s1 \<Longrightarrow>
       ongoing (epoll_serve fs r) config (clock (ec_sock c1)) (ec_request_count c1) (wire (ep_io s1 fd))"
proof -
  have fl': "off \<le> length (ec_write_buffer c)" "nonblock io" "res \<noteq> Send_hangs"
    "res = Flushed \<longrightarrow> off = length (ec_write_buffer c)"
    "res = Would_block \<longrightarrow> off < length (ec_write_buffer c)"
    and sent: "to_send c1 io = to_send c (ep_io s fd)"
    using flush_loop_spec [OF fl] w by (auto simp: may_write_def to_send_def c1_def)
  show inv1: "inv_but {fd} fs clock r config s1"
    unfolding s1_def by (rule inv_but_put_io [OF inv c]) (simp add: c1_def)
  show s1: "keeps_interest {fd} s s1" "connections_find s1 fd = Some c1" "ep_interest s1 fd = Some (or EPOLLOUT EPOLLET)"
    "nonblock (ep_io s1 fd)" "res \<noteq> Send_hangs"
    using w fl' by (simp_all add: s1_def may_write_def)
  have io: "ep_io s1 fd = io" by (simp add: s1_def)
  have p: "promised (epoll_serve fs r) config (clock (ec_sock c)) c1 (to_send c1 io)"
    using w sent by (simp add: may_write_def c1_def)
  then show "conforms (epoll_serve fs r) config (wire (ep_io s1 fd))"
    using io by (auto simp: promised_def to_send_def intro: concluded_conforms)
  show "conn_inv (epoll_serve fs r) config (clock (ec_sock c1)) (ep_interest s1 fd) (ep_io s1 fd) c1"
    if "res = Would_block"
    using that fl' w p s1(3) io by (simp add: conn_inv_def may_write_def c1_def)
  have "max_requests_per_conn config = max 1 (ep_max_requests_per_conn s1)"
    using inv1 by (auto simp: inv_but_def settings_def)
  then show "ongoing (epoll_serve fs r) config (clock (ec_sock c1)) (ec_request_count c1) (wire (ep_io s1 fd))"
    if "res = Flushed" "ec_keep_alive c1" "\<not> ec_request_count c1 \<ge> ep_max_requests_per_conn s1"
    using that p fl' by (simp add: promised_def to_send_def c1_def io)
qed

lemma handle_write_ok:
  assumes inv: "inv_but {fd} fs clock r config s" and c: "connections_find s fd = Some c"
    and w: "may_write (epoll_serve fs r) config (clock (ec_sock c)) (ep_interest s fd) (ep_io s fd) c"
  shows "handler_ok fs clock r config {fd} s (handle_write fd s)"
proof -
  obtain res off io where fl: "flush_loop (ec_write_buffer c) (ec_write_offset c) (ep_io s fd) = (res, off, io)"
    by (cases "flush_loop (ec_write_buffer c) (ec_write_offset c) (ep_io s fd)") auto
  define c1 where "c1 = c\<lparr>ec_write_offset := off\<rparr>"
  define s1 where "s1 = put_connection fd c1 (s\<lparr>ep_io := (ep_io s)(fd := io)\<rparr>)"
  note F = after_flush [OF inv c w fl, folded c1_def, folded s1_def]
  note close = handler_ok_close [OF F(1,8,2)]
  note step = handle_write_def [of fd s, unfolded c fl Let_def option.case prod.case,
      folded c1_def, folded s1_def]
  show ?thesis
  proof (cases res)
    case Would_block
    with inv_restore [OF F(1,3) F(7)] F(2) show ?thesis by (simp add: step handler_ok_def)
  next
    case Flushed
    show ?thesis
    proof (cases "\<not> ec_keep_alive c1 \<or> ec_request_count c1 \<ge> ep_max_requests_per_conn s1")
      case True
      with close Flushed show ?thesis by (simp add: step)
    next
      case False
      with handler_ok_again [OF F(1,3,4,5) F(9) [OF Flushed], of "ec_parser c1"]
      have "handler_ok fs clock r config {fd} s1 (Continues (snd (modify_epoll fd (or EPOLLIN EPOLLET)
          (put_connection fd (c1\<lparr>ec_parser := reset (ec_parser c1), ec_write_buffer := [], ec_write_offset := 0,
             ec_state := READING\<rparr>) s1))))" by (simp del: reset_initial)
      with False Flushed show ?thesis
        unfolding step by (intro handler_ok_trans [OF F(2)]) (simp del: reset_initial)
    qed
  qed (use close F(6) in \<open>simp_all add: step\<close>)
qed

section \<open>Reading\<close>

lemma drain_loop_spec:
  "drain_loop p io = (res, p', io') \<Longrightarrow> parser_inv p \<Longrightarrow>
     parser_inv p' \<and> wire io' = wire io \<and> nonblock io' = nonblock io \<and>
     (res = Got_request \<longrightarrow> p_state p' = COMPLETE) \<and> (res = Got_error \<longrightarrow> p_state p' = ERROR) \<and>
     (res = Recv_hangs \<longrightarrow> \<not> nonblock io)"
proof (induction p io rule: drain_loop.induct)
  case (1 p io)
  note unfold = drain_loop.simps [of p io]
  obtain r io1 where r: "sys_recv READ_SIZE io = (r, io1)" by (cases "sys_recv READ_SIZE io")
  note frame = sys_recv_frame [OF r]
  consider (data) bs where "r = Returns (Inr bs)" "bs \<noteq> []" | (intr) "r = Returns (Inl EINTR)"
    | (stop) "\<And>bs. r = Returns (Inr bs) \<Longrightarrow> bs = []" "r \<noteq> Returns (Inl EINTR)" by blast
  then show ?case
  proof cases
    case data
    obtain st q where q: "feed bs p = (st, q)" by (cases "feed bs p")
    have inv: "parser_inv q" using feed_inv [OF "1.prems"(2), of bs] q by simp
    show ?thesis
    proof (cases st)
      case R_INCOMPLETE
      with "1.prems"(1) r data q have "drain_loop q io1 = (res, p', io')" by (simp add: unfold)
      with "1.IH"(2) [of r io1 "Inr bs" bs st q] r data q R_INCOMPLETE inv frame show ?thesis by simp
    qed (use "1.prems"(1) r data q inv frame feed_complete_state feed_error_state in
        \<open>auto simp: unfold\<close>)
  next
    case intr
    with "1.prems"(1) r have "drain_loop p io1 = (res, p', io')" by (simp add: unfold)
    with "1.IH"(1) [of r io1 "Inl EINTR" EINTR] r intr "1.prems"(2) frame show ?thesis by simp
  next
    case stop
    with "1.prems" r frame sys_recv_returns [of READ_SIZE io io1] kernel.recv_no_signal [of READ_SIZE io io1]
    show ?thesis
      by (auto simp: unfold split: outcome.splits sum.splits errno.splits)
  qed
qed

lemma begin_write_ok:
  assumes inv: "inv_but {fd} fs clock r config s" and c: "connections_find s fd = Some c"
    and reg: "ep_interest s fd = Some m" and nb: "nonblock (ep_io s fd)"
    and sock: "ec_sock c' = ec_sock c"
    and p: "promised (epoll_serve fs r) config (clock (ec_sock c))
      (c'\<lparr>ec_request_count := n, ec_keep_alive := keep\<rparr>) (wire (ep_io s fd) @ data)"
  shows "handler_ok fs clock r config {fd} s (begin_write fd c' data keep n s)"
proof -
  define d where "d = c'\<lparr>ec_write_buffer := data, ec_write_offset := 0, ec_request_count := n,
    ec_keep_alive := keep, ec_state := WRITING\<rparr>"
  define t where "t = snd (modify_epoll fd (or EPOLLOUT EPOLLET) (put_connection fd d s))"
  have "ec_sock d = ec_sock c" by (simp add: d_def sock)
  note t = inv_but_put_modify [OF inv c this reg, of "or EPOLLOUT EPOLLET", folded t_def]
  have "handler_ok fs clock r config {fd} t (handle_write fd t)"
    by (rule handle_write_ok [OF t(1), of d])
      (use nb p in \<open>simp_all add: t(2) may_write_def d_def to_send_def promised_def sock\<close>)
  moreover have "keeps_interest {fd} s t" by (simp add: keeps_interest_def t(2))
  ultimately show ?thesis
    unfolding begin_write_def Let_def d_def [symmetric] t_def [symmetric] by (rule handler_ok_trans [rotated])
qed

text \<open>The two kinds of response keep the promise.\<close>

lemma promised_answer:
  assumes go: "ongoing serve config clk n w" and req: "wellformed req" "serve req = Some res"
    and c: "ec_request_count c = n + 1" "ec_keep_alive c = wants_keep_alive config req"
  shows "promised serve config clk c
    (w @ serialize (clk n) (res\<lparr>rs_keep_alive := wants_keep_alive config req\<rparr>))"
proof -
  have n: "n < max_requests_per_conn config" using go by (simp add: ongoing_def)
  show ?thesis
    unfolding promised_def c
    using ongoing_one [OF go dialogue_one [OF n req(1), of serve res]] req(2)
      ongoing_more [OF go, of "res\<lparr>rs_keep_alive := True\<rparr>"] dialogue.answered [of n config req serve res] n req
    by auto
qed

lemma promised_refusal:
  assumes go: "ongoing serve config clk n w" and code: "code \<in> parse_error_codes"
    and c: "\<not> ec_keep_alive c"
  shows "promised serve config clk c (w @ serialize (clk n) ((error code [])\<lparr>rs_keep_alive := False\<rparr>))"
proof -
  have "n < max_requests_per_conn config" using go by (simp add: ongoing_def)
  then show ?thesis
    using ongoing_one [OF go dialogue.refused] code c by (simp add: promised_def)
qed

text \<open>The server once a readable connection has been drained: \<open>c1\<close> is its entry, \<open>s1\<close> the state.\<close>

lemma after_drain:
  assumes inv: "epoll_inv fs clock r config s" and c: "connections_find s fd = Some c" and rd: "ec_state c = READING"
    and dr: "drain_loop (ec_parser c) (ep_io s fd) = (res, p, io)"
  defines "c1 \<equiv> c\<lparr>ec_parser := p\<rparr>"
  defines "s1 \<equiv> put_connection fd c1 (s\<lparr>ep_io := (ep_io s)(fd := io)\<rparr>)"
  shows "inv_but {fd} fs clock r config s1" "keeps_interest {fd} s s1" "connections_find s1 fd = Some c1"
    "ep_interest s1 fd = Some (or EPOLLIN EPOLLET)" "ep_io s1 fd = io" "wire io = wire (ep_io s fd)" "nonblock io"
    "ep_enable_keepalive s1 = enable_keepalive config" "ep_router s1 = r"
    "ongoing (epoll_serve fs r) config (clock (ec_sock c)) (ec_request_count c) (wire (ep_io s fd))"
    "conn_inv (epoll_serve fs r) config (clock (ec_sock c1)) (ep_interest s1 fd) (ep_io s1 fd) c1"
    "res \<noteq> Recv_hangs" "res = Got_request \<Longrightarrow> wellformed (p_request p)"
    "res = Got_error \<Longrightarrow> p_error_code p \<in> parse_error_codes"
proof -
  have ci: "conn_inv (epoll_serve fs r) config (clock (ec_sock c)) (ep_interest s fd) (ep_io s fd) c"
    using inv c by (simp add: epoll_inv_def inv_but_def)
  then have go: "ongoing (epoll_serve fs r) config (clock (ec_sock c)) (ec_request_count c) (wire (ep_io s fd))"
    and reg: "ep_interest s fd = Some (or EPOLLIN EPOLLET)" and pi: "parser_inv (ec_parser c)"
    and nb: "nonblock (ep_io s fd)"
    using rd by (simp_all add: conn_inv_def)
  note spec = drain_loop_spec [OF dr pi]
  show "wire io = wire (ep_io s fd)" "nonblock io" "res \<noteq> Recv_hangs"
    "ongoing (epoll_serve fs r) config (clock (ec_sock c)) (ec_request_count c) (wire (ep_io s fd))"
    using spec nb go by simp_all
  show "inv_but {fd} fs clock r config s1"
    unfolding s1_def by (rule inv_but_put_io [OF epoll_inv_but [OF inv] c]) (simp add: c1_def)
  show s1: "keeps_interest {fd} s s1" "connections_find s1 fd = Some c1" "ep_interest s1 fd = Some (or EPOLLIN EPOLLET)"
    "ep_io s1 fd = io"
    using reg by (simp_all add: s1_def)
  show "ep_enable_keepalive s1 = enable_keepalive config" "ep_router s1 = r"
    using inv by (auto simp: s1_def epoll_inv_def inv_but_def settings_def)
  show "conn_inv (epoll_serve fs r) config (clock (ec_sock c1)) (ep_interest s1 fd) (ep_io s1 fd) c1"
    using ci rd spec s1 by (simp add: conn_inv_def c1_def)
  show "res = Got_request \<Longrightarrow> wellformed (p_request p)" "res = Got_error \<Longrightarrow> p_error_code p \<in> parse_error_codes"
    using spec parser_inv_complete parser_inv_error_code by blast+
qed

lemma handle_read_ok:
  assumes inv: "epoll_inv fs clock r config s"
    and c: "connections_find s fd = Some c" and rd: "ec_state c = READING"
  shows "handler_ok fs clock r config {fd} s (handle_read fs clock fd s)"
proof -
  obtain res p io where dr: "drain_loop (ec_parser c) (ep_io s fd) = (res, p, io)"
    by (cases "drain_loop (ec_parser c) (ep_io s fd)") auto
  define c1 where "c1 = c\<lparr>ec_parser := p\<rparr>"
  define s1 where "s1 = put_connection fd c1 (s\<lparr>ep_io := (ep_io s)(fd := io)\<rparr>)"
  note D = after_drain [OF inv c rd dr, folded c1_def, folded s1_def]
  note step = handle_read_def [of fs clock fd s, unfolded c dr Let_def option.case prod.case,
      folded c1_def, folded s1_def]
  have cf: "ec_sock c1 = ec_sock c" "ec_request_count c1 = ec_request_count c" by (simp_all add: c1_def)
  have conf: "conforms (epoll_serve fs r) config (wire (ep_io s1 fd))"
    using concluded_conforms [of _ _ _ _ "[]"] ongoing_concluded [OF D(10)] D(5,6) by fastforce
  have answers: "handler_ok fs clock r config {fd} s (begin_write fd c' data k n s1)"
    if "ec_sock c' = ec_sock c" "promised (epoll_serve fs r) config (clock (ec_sock c))
          (c'\<lparr>ec_request_count := n, ec_keep_alive := k\<rparr>) (wire (ep_io s fd) @ data)" for c' data k n
    by (rule handler_ok_trans [OF D(2)], rule begin_write_ok [OF D(1,3,4)]) (use that D(5-7) cf in auto)
  show ?thesis
  proof (cases res)
    case Drained
    with inv_restore [OF D(1,3,11)] D(2) show ?thesis by (simp add: step handler_ok_def)
  next
    case Got_request
    note req = D(13) [OF Got_request]
    show ?thesis
    proof (cases "epoll_serve fs r (p_request p)")
      case None
      with Got_request D(9) have "handle_read fs clock fd s = Throws" by (simp add: step get_request_def)
      with None req show ?thesis by (auto simp: handler_ok_def)
    next
      case (Some resp)
      with Got_request D(8,9) show ?thesis
        using promised_answer [OF D(10) req Some]
        by (simp add: step get_request_def cf wants_keep_alive_conj [symmetric] answers)
    qed
  next
    case Got_error
    with promised_refusal [OF D(10) D(14)] show ?thesis by (simp add: step cf answers)
  qed (use handler_ok_close [OF D(1) conf D(2)] D(12) in \<open>simp_all add: step\<close>)
qed

end
