(* ===== verification/Epoll_Events.thy ===== *)
theory Epoll_Events
  imports Epoll_Handlers
begin

text \<open>
  Accepting, the dispatch of a round of events, listening and stopping keep the invariant of the
  event-driven server, which makes it an invariant of every run.
\<close>

section \<open>Accepting\<close>

lemma destroy_new:
  "objs w i = None \<Longrightarrow> socket_destroy i (socket_new i (-1) w) = w"
  by (auto simp: socket_destroy_def socket_close_def socket_new_def fd_of_def is_valid_def fun_upd_idem)

lemma destroy_created:
  "objs w i = None \<Longrightarrow> fd \<noteq> -1 \<Longrightarrow> fd \<notin> open_fds w \<Longrightarrow> socket_destroy i (socket_create i fd w) = w"
  by (auto simp: socket_destroy_def socket_close_def socket_create_def socket_new_def sys_close_def
      fd_of_def is_valid_def fun_upd_idem Let_def)

lemma epoll_config_frame [simp]:
  "epoll_config (s\<lparr>ep_next := n\<rparr>) = epoll_config s" "epoll_config (s\<lparr>ep_io := io\<rparr>) = epoll_config s"
  "epoll_config (on_store f s) = epoll_config s" "epoll_config (put_connection fd c s) = epoll_config s"
  "epoll_config (s\<lparr>ep_interest := i\<rparr>) = epoll_config s" "epoll_config (s\<lparr>ep_running := b\<rparr>) = epoll_config s"
  by (simp_all add: epoll_config_def)

lemma fresh_object: "store_inv s \<Longrightarrow> ep_next s \<le> i \<Longrightarrow> objs (ep_store s) i = None"
  using store_live [of s i] by (cases "objs (ep_store s) i") force+

lemma on_store_undo:
  assumes "store_inv s" "g (f (ep_store s)) = ep_store s" "open_fds (ep_store s) \<subseteq> open_fds (f (ep_store s))"
  shows "on_store g (on_store f s) = s"
proof -
  have "ep_interest (on_store g (on_store f s)) fd = ep_interest s fd" for fd
    using assms store_interest [OF assms(1), of fd] by (cases "ep_interest s fd") auto
  then have "ep_interest (on_store g (on_store f s)) = ep_interest s" ..
  then show ?thesis using assms(2) by (simp add: on_store_def Let_def)
qed

lemma store_inv_next:
  "store_inv s \<Longrightarrow> ep_next s \<le> n \<Longrightarrow> store_inv (s\<lparr>ep_next := n\<rparr>)"
  by (fastforce simp: store_inv_def)

lemma store_inv_io [simp]: "store_inv (s\<lparr>ep_io := io\<rparr>) = store_inv s"
  by (simp add: store_inv_def)

lemma accept_failed_eq:
  assumes "store_inv s"
  shows "accept_failed s = s\<lparr>ep_next := Suc (ep_next s)\<rparr>"
proof -
  have "listener_accept l i (-1) w = socket_new i (-1) w" for l i w
    by (simp add: listener_accept_def socket_create_def)
  then show ?thesis
    unfolding accept_failed_def using fresh_object [OF assms, of "ep_next s"]
    by (subst on_store_undo) (simp_all add: store_inv_next assms destroy_new)
qed

lemma epoll_inv_next:
  "epoll_inv fs clock r config s \<Longrightarrow> ep_next s \<le> n \<Longrightarrow> epoll_inv fs clock r config (s\<lparr>ep_next := n\<rparr>)"
  by (auto simp: epoll_inv_def inv_but_def settings_def store_inv_next)

lemma epoll_inv_store: "epoll_inv fs clock r config s \<Longrightarrow> store_inv s"
  by (simp add: epoll_inv_def inv_but_def)

text \<open>A descriptor the kernel has just handed out is nobody's.\<close>

lemma new_descriptor:
  assumes "store_inv s" "fd \<notin> open_fds (ep_store s)"
  shows "ep_interest s fd = None" "connections_find s fd = None"
  using assms(2) store_interest [OF assms(1), of fd] store_conn [OF assms(1), of fd]
  by (cases "ep_interest s fd"; cases "connections_find s fd"; force)+

text \<open>The state in which \<open>accept_one\<close> has its new \<open>Socket\<close>, and how it goes on.\<close>

definition accepted_state :: "int \<Rightarrow> EpollServer \<Rightarrow> EpollServer" where
  "accepted_state fd s = s\<lparr>ep_next := Suc (Suc (ep_next s)), ep_io := (ep_io s)(fd := accepted_io)\<rparr>"

lemma accepted_state_find [simp]: "connections_find (accepted_state fd s) = connections_find s"
  by (simp add: accepted_state_def)

lemma accept_socket:
  assumes inv: "store_inv s" and l: "is_valid (fd_of (l_socket (ep_listener s)) (ep_store s))"
  shows "on_store (listener_accept (ep_listener s) i fd) (accepted_state fd s) =
    (accepted_state fd s)\<lparr>ep_store := socket_create i fd (ep_store s), ep_interest := ep_interest s\<rparr>"
proof -
  have acc: "listener_accept (ep_listener s) i fd (ep_store s) = socket_create i fd (ep_store s)"
    using l by (simp add: listener_accept_def)
  define s1 where "s1 = on_store (listener_accept (ep_listener s) i fd) (accepted_state fd s)"
  have "ep_interest s1 = ep_interest s"
  proof
    fix g
    show "ep_interest s1 g = ep_interest s g"
      using store_interest [OF inv, of g] by (cases "ep_interest s g") (auto simp: s1_def accepted_state_def acc)
  qed
  then have "s1 = (accepted_state fd s)\<lparr>ep_store := socket_create i fd (ep_store s), ep_interest := ep_interest s\<rparr>"
    unfolding s1_def on_store_def Let_def by (simp add: accepted_state_def acc)
  then show ?thesis by (simp only: s1_def)
qed

lemma accept_one_refused:
  assumes inv: "store_inv s" and l: "is_valid (fd_of (l_socket (ep_listener s)) (ep_store s))"
    and fd: "0 \<le> fd" "fd \<notin> open_fds (ep_store s)" and no: "ep_epoll_fd s = -1 \<or> \<not> mem"
  shows "accept_one fd mem s = accepted_state fd s"
proof -
  let ?i = "ep_next s" and ?s0 = "accepted_state fd s"
  have inv0: "store_inv ?s0" using store_inv_next [OF inv] by (simp add: accepted_state_def)
  have "accept_one fd mem s =
      on_store (socket_destroy ?i) (on_store (listener_accept (ep_listener s) ?i fd) ?s0)"
    using no unfolding accept_one_def Let_def accepted_state_def [symmetric]
    by (auto simp: add_to_epoll_def) (simp_all add: accepted_state_def)
  also have "\<dots> = ?s0"
    using fd l fresh_object [OF inv order_refl]
    by (intro on_store_undo [OF inv0]) (auto simp: accepted_state_def listener_accept_def destroy_created)
  finally show ?thesis .
qed

lemma accept_one_accepted:
  assumes inv: "store_inv s" and l: "is_valid (fd_of (l_socket (ep_listener s)) (ep_store s))"
    and fd: "0 \<le> fd" "fd \<notin> open_fds (ep_store s)" and yes: "ep_epoll_fd s \<noteq> -1" "mem"
  defines "i \<equiv> ep_next s" and "s0 \<equiv> accepted_state fd s"
  defines "w \<equiv> socket_destroy i (socket_move_new (Suc i) i (socket_create i fd (ep_store s)))"
  shows "accept_one fd mem s = put_connection fd (new_epoll_connection (Suc i))
    (s0\<lparr>ep_store := w, ep_interest := (ep_interest s)(fd \<mapsto> or EPOLLIN EPOLLET)\<rparr>)" (is "_ = ?t")
    and "objs w = (objs (ep_store s))(Suc i \<mapsto> fd)" "open_fds w = insert fd (open_fds (ep_store s))" "own_inv w"
proof -
  let ?w1 = "socket_create i fd (ep_store s)" and ?c = "new_epoll_connection (Suc i)"
  have none: "objs (ep_store s) i = None" "objs (ep_store s) (Suc i) = None"
    unfolding i_def using fresh_object [OF inv] by simp_all
  have own: "own_inv (socket_move_new (Suc i) i ?w1)"
    using store_own [OF inv] fd none by (intro own_inv_move_new own_inv_create) auto
  show w: "objs w = (objs (ep_store s))(Suc i \<mapsto> fd)" "open_fds w = insert fd (open_fds (ep_store s))" "own_inv w"
    using own fd none own_no_minus [OF store_own [OF inv]]
    by (auto simp: w_def fd_of_def own_inv_destroy)
  define s2 where "s2 = s0\<lparr>ep_store := ?w1, ep_interest := (ep_interest s)(fd \<mapsto> or EPOLLIN EPOLLET)\<rparr>"
  have "add_to_epoll mem fd (or EPOLLIN EPOLLET) (s0\<lparr>ep_store := ?w1, ep_interest := ep_interest s\<rparr>) = (True, s2)"
    using yes new_descriptor(1) [OF inv fd(2)] by (simp add: add_to_epoll_def s2_def s0_def accepted_state_def)
  moreover have "connections_find (on_store (socket_move_new (Suc i) i) s2) fd = None"
    using new_descriptor(2) [OF inv fd(2)] by (simp add: s2_def s0_def accepted_state_def connections_find_def)
  ultimately have step: "accept_one fd mem s = on_store (socket_destroy i)
      (put_connection fd ?c (on_store (socket_move_new (Suc i) i) s2))" (is "_ = ?s4")
    unfolding accept_one_def Let_def i_def [symmetric] accepted_state_def [of fd s, folded i_def, symmetric]
      s0_def [symmetric] accept_socket [OF inv l, of i fd, folded s0_def] by simp
  have "ep_interest ?s4 = (ep_interest s)(fd \<mapsto> or EPOLLIN EPOLLET)"
  proof
    fix g
    show "ep_interest ?s4 g = ((ep_interest s)(fd \<mapsto> or EPOLLIN EPOLLET)) g"
      using store_interest [OF inv, of g] w(2) fd(1) by (cases "ep_interest s g") (auto simp: s2_def w_def)
  qed
  then have "?s4 = ?t"
    unfolding on_store_def Let_def put_connection_def by (simp add: s2_def w_def)
  with step show "accept_one fd mem s = ?t" by simp
qed

lemma epoll_inv_accepted:
  assumes inv: "epoll_inv fs clock r config s" and fd: "fd \<notin> open_fds (ep_store s)"
  shows "epoll_inv fs clock r config (accepted_state fd s)"
  using inv new_descriptor(2) [OF epoll_inv_store [OF inv] fd] unfolding epoll_inv_def inv_but_def
  by (auto simp: accepted_state_def settings_def store_inv_next accepted_io_def fcntl_nonblock_def silent_io_def)

lemma store_invI:
  assumes "own_inv (ep_store s)" "l_socket (ep_listener s) < ep_next s" "distinct (map fst (ep_connections s))"
    and "\<And>x g. objs (ep_store s) x = Some g \<Longrightarrow> x < ep_next s \<and>
      (x = l_socket (ep_listener s) \<or> (\<exists>fd c. connections_find s fd = Some c \<and> ec_sock c = x))"
    and "\<And>fd c. connections_find s fd = Some c \<Longrightarrow> fd \<noteq> -1 \<and> objs (ep_store s) (ec_sock c) = Some fd \<and>
      ec_sock c \<noteq> l_socket (ep_listener s)"
    and "\<And>fd m. ep_interest s fd = Some m \<Longrightarrow> fd \<in> open_fds (ep_store s) \<and> ep_epoll_fd s \<noteq> -1"
    and "ep_epoll_open s = {ep_epoll_fd s} - {-1}"
  shows "store_inv s"
  using assms unfolding store_inv_def by blast

lemma store_inv_new_connection:
  assumes st: "store_inv s" and fd: "0 \<le> fd" "fd \<notin> open_fds (ep_store s)" and up: "ep_epoll_fd s \<noteq> -1"
    and w: "objs w = (objs (ep_store s))(Suc (ep_next s) \<mapsto> fd)" "open_fds w = insert fd (open_fds (ep_store s))" "own_inv w"
  shows "store_inv (put_connection fd (new_epoll_connection (Suc (ep_next s)))
    ((accepted_state fd s)\<lparr>ep_store := w, ep_interest := (ep_interest s)(fd \<mapsto> m)\<rparr>))" (is "store_inv ?t")
proof -
  let ?i = "ep_next s" and ?c = "new_epoll_connection (Suc (ep_next s))"
  have t: "connections_find ?t = (connections_find s)(fd \<mapsto> ?c)" "ep_next ?t = Suc (Suc ?i)"
    "ep_listener ?t = ep_listener s" "ep_connections ?t = AList.update fd ?c (ep_connections s)"
    by (simp_all add: accepted_state_def connections_find_def put_connection_def update_conv')
  have live: "x < ep_next ?t \<and> (x = l_socket (ep_listener ?t) \<or>
      (\<exists>g c. connections_find ?t g = Some c \<and> ec_sock c = x))" if x: "objs w x = Some g" for x g
  proof (cases "x = Suc ?i")
    case True
    then have "connections_find ?t fd = Some ?c \<and> ec_sock ?c = x" by (simp add: t(1) new_epoll_connection_def)
    with True show ?thesis by (auto simp: accepted_state_def)
  next
    case False
    then have "objs (ep_store s) x = Some g" using x w by simp
    then have "x < ?i" "x = l_socket (ep_listener s) \<or> (\<exists>g c. connections_find s g = Some c \<and> ec_sock c = x)"
      using st unfolding store_inv_def by blast+
    moreover have "g \<noteq> fd" if "connections_find s g = Some c" for g c
      using that new_descriptor(2) [OF st fd(2)] by auto
    ultimately show ?thesis by (simp add: accepted_state_def) blast
  qed
  have "ec_sock c \<noteq> Suc ?i" if "connections_find s g = Some c" for g c
    using store_conn [OF st that] fresh_object [OF st, of "Suc ?i"] by auto
  then have entry: "g \<noteq> -1 \<and> objs w (ec_sock c) = Some g \<and> ec_sock c \<noteq> l_socket (ep_listener s)"
    if "connections_find ?t g = Some c" for g c
    using that fd store_conn [OF st] st
    by (auto simp: t(1) w new_epoll_connection_def store_inv_def split: if_splits)
  have base: "own_inv (ep_store ?t)" "l_socket (ep_listener ?t) < ep_next ?t" "ep_store ?t = w"
    "distinct (map fst (ep_connections ?t))" "ep_epoll_fd ?t \<noteq> -1" "open_fds (ep_store ?t) = insert fd (open_fds (ep_store s))"
    using st up w by (auto simp: t(2-) distinct_update store_inv_def) (simp_all add: accepted_state_def)
  have reg: "h \<in> open_fds (ep_store ?t)" if "ep_interest ?t h = Some n" for h n
    using that st base(6) by (auto simp: store_inv_def split: if_splits)
  show ?thesis
  proof (rule store_invI)
    show "x < ep_next ?t \<and> (x = l_socket (ep_listener ?t) \<or> (\<exists>g c. connections_find ?t g = Some c \<and> ec_sock c = x))"
      if "objs (ep_store ?t) x = Some g" for x g
      by (rule live) (use that base(3) in simp)
    show "g \<noteq> -1 \<and> objs (ep_store ?t) (ec_sock c) = Some g \<and> ec_sock c \<noteq> l_socket (ep_listener ?t)"
      if "connections_find ?t g = Some c" for g c
      using entry [OF that] unfolding base(3) t(3) .
    show "ep_epoll_open ?t = {ep_epoll_fd ?t} - {-1}"
      using st by (simp add: store_inv_def) (simp add: accepted_state_def)
  qed (use base reg in blast)+
qed

lemma accept_one_ok:
  assumes inv: "epoll_inv fs clock r config s" and l: "is_valid (fd_of (l_socket (ep_listener s)) (ep_store s))"
    and fd: "0 \<le> fd" "fd \<notin> open_fds (ep_store s)"
  shows "epoll_inv fs clock r config (accept_one fd mem s) \<and> keeps_interest {} s (accept_one fd mem s)"
proof (cases "ep_epoll_fd s \<noteq> -1 \<and> mem")
  case False
  then have "accept_one fd mem s = accepted_state fd s"
    using accept_one_refused [OF epoll_inv_store [OF inv] l fd] by blast
  with epoll_inv_accepted [OF inv fd(2)] show ?thesis
    by (simp add: keeps_interest_def accepted_state_def listen_fd_of_def)
next
  case True
  note st = epoll_inv_store [OF inv]
  let ?i = "ep_next s" and ?c = "new_epoll_connection (Suc (ep_next s))"
  define w where "w = socket_destroy ?i (socket_move_new (Suc ?i) ?i (socket_create ?i fd (ep_store s)))"
  note acc = accept_one_accepted [OF st l fd True [THEN conjunct1] True [THEN conjunct2], folded w_def]
  define t where "t = accept_one fd mem s"
  have t: "connections_find t = (connections_find s)(fd \<mapsto> ?c)" "epoll_config t = epoll_config s"
    "ep_interest t = (ep_interest s)(fd \<mapsto> or EPOLLIN EPOLLET)" "ep_io t = (ep_io s)(fd := accepted_io)"
    "ep_router t = ep_router s" "ep_max_requests_per_conn t = ep_max_requests_per_conn s"
    by (simp_all add: t_def acc(1)) (simp_all add: accepted_state_def epoll_config_def)
  have "store_inv t"
    unfolding t_def acc(1) by (rule store_inv_new_connection [OF st fd True [THEN conjunct1] acc(2-4)])
  moreover have "0 < max_requests_per_conn config" using inv by (auto simp: epoll_inv_def inv_but_def settings_def)
  then have "conn_inv (epoll_serve fs r) config (clock (Suc ?i)) (Some (or EPOLLIN EPOLLET)) accepted_io ?c"
    by (simp add: conn_inv_def new_epoll_connection_def accepted_io_def fcntl_nonblock_def silent_io_def ongoing_start)
  moreover have "nonblock accepted_io" "wire accepted_io = []"
    by (simp_all add: accepted_io_def fcntl_nonblock_def silent_io_def)
  ultimately have "epoll_inv fs clock r config t"
    using inv by (auto simp: epoll_inv_def inv_but_def settings_def t new_epoll_connection_def)
  moreover have "listen_fd_of t = listen_fd_of s"
    using acc(2) st by (simp add: listen_fd_of_def fd_of_def t_def acc(1) store_inv_def)
      (simp add: accepted_state_def)
  then have "keeps_interest {} s t" using new_descriptor(1) [OF st fd(2)] by (auto simp: keeps_interest_def t)
  ultimately show ?thesis by (simp add: t_def)
qed

lemma accept_failed_ok:
  "epoll_inv fs clock r config s \<Longrightarrow> handler_ok fs clock r config X s (Continues (accept_failed s))"
  by (simp add: accept_failed_eq epoll_inv_store epoll_inv_next keeps_interest_def handler_ok_def)

text \<open>A listener that is registered has been made non-blocking.\<close>

lemma registered_listener:
  assumes "epoll_inv fs clock r config s" "listen_fd_of s \<noteq> -1 \<longrightarrow> ep_interest s (listen_fd_of s) \<noteq> None"
  shows "\<not> listener_blocks s"
  using assms by (auto simp: listener_blocks_def Let_def is_valid_def listen_fd_of_def epoll_inv_def inv_but_def)

lemma accept_connections_ok:
  "epoll_inv fs clock r config s \<Longrightarrow> possible_clients clients s \<Longrightarrow>
   listen_fd_of s \<noteq> -1 \<longrightarrow> ep_interest s (listen_fd_of s) \<noteq> None \<Longrightarrow>
     handler_ok fs clock r config {} s (accept_connections clients s)"
proof (induction clients s rule: accept_connections.induct)
  case (1 s)
  have "\<not> listener_blocks s" using registered_listener [OF "1.prems"(1,3)] .
  with "1.prems"(1) show ?case by (simp add: accept_failed_ok)
next
  case (2 fd mem clients s)
  show ?case
  proof (cases "\<not> is_valid fd \<or> \<not> is_valid (fd_of (l_socket (ep_listener s)) (ep_store s))")
    case True
    with "2.prems"(1) show ?thesis by (auto simp: accept_failed_ok)
  next
    case False
    with "2.prems" have s': "epoll_inv fs clock r config (accept_one fd mem s)"
      "keeps_interest {} s (accept_one fd mem s)" "possible_clients clients (accept_one fd mem s)"
      using accept_one_ok [OF "2.prems"(1), of fd mem] by (auto simp: is_valid_def descriptors_def)
    with "2.prems"(3) have "listen_fd_of (accept_one fd mem s) \<noteq> -1 \<longrightarrow>
        ep_interest (accept_one fd mem s) (listen_fd_of (accept_one fd mem s)) \<noteq> None"
      by (auto simp: keeps_interest_def)
    with "2.IH" False s' show ?thesis by (auto intro: handler_ok_trans)
  qed
qed

section \<open>A round of events\<close>

lemma event_masks [simp]:
  "\<not> has_event (or EPOLLOUT EPOLLET) EPOLLIN" "\<not> has_event (or EPOLLIN EPOLLET) EPOLLOUT"
  by (simp_all add: has_event_def EPOLLIN_def EPOLLOUT_def EPOLLET_def)

lemma epoll_inv_conn:
  "epoll_inv fs clock r config s \<Longrightarrow> connections_find s fd = Some c \<Longrightarrow>
     conn_inv (epoll_serve fs r) config (clock (ec_sock c)) (ep_interest s fd) (ep_io s fd) c"
  by (simp add: epoll_inv_def inv_but_def)

lemma reported_state:
  assumes inv: "epoll_inv fs clock r config s" and c: "connections_find s fd = Some c"
    and rep: "reportable s (fd, ev, cl)"
  shows "has_event ev EPOLLIN \<Longrightarrow> ec_state c = READING"
    and "has_event ev EPOLLOUT \<Longrightarrow> ec_state c = WRITING"
  using epoll_inv_conn [OF inv c] rep
  by (auto simp: conn_inv_def reportable_def split: EpollState.splits)

lemma handler_ok_idle:
  "epoll_inv fs clock r config s \<Longrightarrow> handler_ok fs clock r config X s (Continues s)"
  by (simp add: handler_ok_def)

text \<open>What \<open>epoll_wait\<close> reports as readable or writable is in the state the handler expects.\<close>

lemma readable_ok:
  assumes inv: "epoll_inv fs clock r config s" and rep: "reportable s (fd, ev, cl)"
    and ev: "\<not> has_event ev (or EPOLLERR EPOLLHUP)" "has_event ev EPOLLIN"
  shows "handler_ok fs clock r config {fd} s (handle_read fs clock fd s)"
proof (cases "connections_find s fd")
  case None
  with handler_ok_idle [OF inv] show ?thesis by (simp add: handle_read_def)
next
  case (Some c)
  with handle_read_ok [OF inv Some] reported_state(1) [OF inv Some rep] ev show ?thesis by simp
qed

lemma writable_ok:
  assumes inv: "epoll_inv fs clock r config s" and rep: "reportable s (fd, ev, cl)"
    and ev: "\<not> has_event ev (or EPOLLERR EPOLLHUP)" "\<not> has_event ev EPOLLIN" "has_event ev EPOLLOUT"
  shows "handler_ok fs clock r config {fd} s (handle_write fd s)"
proof (cases "connections_find s fd")
  case None
  with handler_ok_idle [OF inv] show ?thesis by (simp add: handle_write_def)
next
  case (Some c)
  have "may_write (epoll_serve fs r) config (clock (ec_sock c)) (ep_interest s fd) (ep_io s fd) c"
    using epoll_inv_conn [OF inv Some] reported_state(2) [OF inv Some rep] ev
    by (simp add: conn_inv_def may_write_def)
  from handle_write_ok [OF epoll_inv_but [OF inv] Some this] show ?thesis .
qed

lemma handler_ok_mono:
  "handler_ok fs clock r config X s e \<Longrightarrow> X \<subseteq> Y \<Longrightarrow> handler_ok fs clock r config Y s e"
  by (auto simp: handler_ok_def keeps_interest_def split: epoll_end.splits)

text \<open>While the loop runs, its \<open>listen_fd\<close> is that of the listener, unless that has been closed.\<close>

definition listens_on :: "int \<Rightarrow> EpollServer \<Rightarrow> bool" where
  "listens_on listen_fd s = (listen_fd_of s \<noteq> -1 \<longrightarrow> listen_fd_of s = listen_fd)"

lemma handle_event_ok:
  assumes inv: "epoll_inv fs clock r config s" and rep: "reportable s e" and lis: "listens_on listen_fd s"
    and acc: "fst e = listen_fd \<longrightarrow> possible_clients (snd (snd e)) s"
  shows "handler_ok fs clock r config {fst e} s (handle_event fs clock listen_fd e s)"
proof -
  obtain fd ev cl where e: "e = (fd, ev, cl)" by (cases e)
  note rep = rep [unfolded e]
  consider (accept) "fd = listen_fd" | (hup) "fd \<noteq> listen_fd" "has_event ev (or EPOLLERR EPOLLHUP)"
    | (inp) "fd \<noteq> listen_fd" "\<not> has_event ev (or EPOLLERR EPOLLHUP)" "has_event ev EPOLLIN"
    | (outp) "fd \<noteq> listen_fd" "\<not> has_event ev (or EPOLLERR EPOLLHUP)" "\<not> has_event ev EPOLLIN"
        "has_event ev EPOLLOUT"
    | (none) "fd \<noteq> listen_fd" "\<not> has_event ev (or EPOLLERR EPOLLHUP)" "\<not> has_event ev EPOLLIN"
        "\<not> has_event ev EPOLLOUT" by blast
  then show ?thesis
  proof cases
    case accept
    have "listen_fd_of s \<noteq> -1 \<longrightarrow> ep_interest s (listen_fd_of s) \<noteq> None"
      using lis rep accept by (auto simp: listens_on_def reportable_def split: option.splits)
    with accept accept_connections_ok [OF inv, of cl] acc show ?thesis
      by (auto simp: handle_event_def e intro: handler_ok_mono)
  next
    case hup
    have "conforms (epoll_serve fs r) config (wire (ep_io s fd))"
      using inv by (simp add: epoll_inv_def inv_but_def)
    with inv_close [OF epoll_inv_but [OF inv]] keeps_interest_close [OF epoll_inv_store [OF inv]] hup
    show ?thesis by (simp add: handle_event_def e handler_ok_def)
  next
    case inp
    with readable_ok [OF inv rep] show ?thesis by (simp add: handle_event_def e)
  next
    case outp
    with writable_ok [OF inv rep] show ?thesis by (simp add: handle_event_def e)
  next
    case none
    with handler_ok_idle [OF inv] show ?thesis by (simp add: handle_event_def e)
  qed
qed

lemma reportable_keeps:
  "keeps_interest X s s' \<Longrightarrow> fst e \<notin> X \<Longrightarrow> reportable s e \<Longrightarrow> reportable s' e"
  by (auto simp: keeps_interest_def reportable_def split: option.splits)

lemma handle_events_ok:
  "epoll_inv fs clock r config s \<Longrightarrow> distinct (map fst es) \<Longrightarrow> list_all (reportable s) es \<Longrightarrow>
   listens_on listen_fd s \<Longrightarrow> possible_events fs clock listen_fd es s \<Longrightarrow>
     handler_ok fs clock r config UNIV s (handle_events fs clock listen_fd es s)"
proof (induction es arbitrary: s)
  case Nil
  then show ?case by (simp add: handler_ok_def)
next
  case (Cons e es)
  have ok: "handler_ok fs clock r config {fst e} s (handle_event fs clock listen_fd e s)"
    using Cons.prems by (intro handle_event_ok) auto
  show ?case
  proof (cases "handle_event fs clock listen_fd e s")
    case (Continues s')
    with ok have s': "epoll_inv fs clock r config s'" "keeps_interest {fst e} s s'"
      by (simp_all add: handler_ok_def)
    have "reportable s' e'" if "e' \<in> set es" for e'
      using Cons.prems(2,3) that
      by (intro reportable_keeps [OF s'(2)]) (auto simp: list_all_iff image_iff)
    then have "list_all (reportable s') es" by (simp add: list_all_iff)
    moreover have "listens_on listen_fd s'"
      using s'(2) Cons.prems(4) by (simp add: listens_on_def keeps_interest_def)
    ultimately have "handler_ok fs clock r config UNIV s' (handle_events fs clock listen_fd es s')"
      using Cons.IH [OF s'(1)] Cons.prems Continues by simp
    moreover have "keeps_interest UNIV s s'" using s'(2) by (simp add: keeps_interest_def)
    ultimately show ?thesis using Continues by (auto intro: handler_ok_trans)
  qed (use ok in \<open>simp_all add: handler_ok_def\<close>)
qed

section \<open>Traffic and stopping\<close>

lemma epoll_inv_network:
  assumes "traffic_only f" "epoll_inv fs clock r config s"
  shows "epoll_inv fs clock r config (network f s)"
proof -
  have io: "wire (ep_io (network f s) fd) = wire (ep_io s fd)"
    "nonblock (ep_io (network f s) fd) = nonblock (ep_io s fd)" for fd
    using assms(1) by (simp_all add: network_def traffic_only_def)
  have "conn_inv serve cfg clk i (ep_io (network f s) fd) c = conn_inv serve cfg clk i (ep_io s fd) c"
    for serve cfg clk i fd c
    by (simp add: conn_inv_def to_send_def io split: EpollState.split)
  with assms(2) io show ?thesis
    unfolding epoll_inv_def inv_but_def settings_def by (simp add: network_def)
qed

lemma fold_remove_fields [simp]:
  "ep_store (fold (\<lambda>(fd, c). remove_from_epoll fd) cs s) = ep_store s"
  "ep_connections (fold (\<lambda>(fd, c). remove_from_epoll fd) cs s) = ep_connections s"
  "ep_listener (fold (\<lambda>(fd, c). remove_from_epoll fd) cs s) = ep_listener s"
  "ep_io (fold (\<lambda>(fd, c). remove_from_epoll fd) cs s) = ep_io s"
  "ep_next (fold (\<lambda>(fd, c). remove_from_epoll fd) cs s) = ep_next s"
  "ep_router (fold (\<lambda>(fd, c). remove_from_epoll fd) cs s) = ep_router s"
  "ep_running (fold (\<lambda>(fd, c). remove_from_epoll fd) cs s) = ep_running s"
  "ep_enable_keepalive (fold (\<lambda>(fd, c). remove_from_epoll fd) cs s) = ep_enable_keepalive s"
  "ep_max_requests_per_conn (fold (\<lambda>(fd, c). remove_from_epoll fd) cs s) = ep_max_requests_per_conn s"
  "ep_epoll_fd (fold (\<lambda>(fd, c). remove_from_epoll fd) cs s) = ep_epoll_fd s"
  "ep_epoll_open (fold (\<lambda>(fd, c). remove_from_epoll fd) cs s) = ep_epoll_open s"
  by (induction cs arbitrary: s) (auto simp: remove_from_epoll_def split: if_splits)

lemma fold_destroy_conns:
  "fold (\<lambda>(fd, c). socket_destroy (ec_sock c)) cs w = fold socket_destroy (map (\<lambda>(fd, c). ec_sock c) cs) w"
  by (induction cs arbitrary: w) auto

text \<open>After \<open>stop\<close> no descriptor is open, nothing is registered and no connection is left.\<close>

lemma epoll_stop_fields:
  assumes inv: "store_inv s"
  shows "ep_connections (epoll_stop s) = []" "\<not> ep_running (epoll_stop s)"
    "own_inv (ep_store (epoll_stop s))" "open_fds (ep_store (epoll_stop s)) = {}"
    "ep_interest (epoll_stop s) = (\<lambda>_. None)"
    "objs (ep_store (epoll_stop s)) x = Some fd \<Longrightarrow> x = l_socket (ep_listener s) \<and> x < ep_next s"
    "ep_io (epoll_stop s) = ep_io s" "ep_next (epoll_stop s) = ep_next s"
    "ep_listener (epoll_stop s) = ep_listener s" "ep_router (epoll_stop s) = ep_router s"
    "epoll_config (epoll_stop s) = epoll_config s"
    "ep_epoll_fd (epoll_stop s) = ep_epoll_fd s" "ep_epoll_open (epoll_stop s) = ep_epoll_open s"
proof -
  let ?socks = "map (\<lambda>(fd, c). ec_sock c) (ep_connections s)"
  let ?w1 = "listener_stop (ep_listener s) (ep_store s)"
  have store: "ep_store (epoll_stop s) = fold socket_destroy ?socks ?w1"
    by (simp add: epoll_stop_def clear_connections_def Let_def fold_destroy_conns)
  show own: "own_inv (ep_store (epoll_stop s))"
    unfolding store by (intro own_inv_fold_destroy listener_stop_inv store_own [OF inv])
  have objs: "objs (ep_store (epoll_stop s)) x = (if x \<in> set ?socks then None else objs ?w1 x)" for x
    unfolding store by (rule objs_fold_destroy)
  show left: "x = l_socket (ep_listener s) \<and> x < ep_next s"
    if "objs (ep_store (epoll_stop s)) x = Some fd" for x fd
  proof -
    from that have x: "x \<notin> set ?socks" "\<exists>g. objs (ep_store s) x = Some g"
      using objs [of x] objs_close_None [of "l_socket (ep_listener s)" "ep_store s" x]
      by (auto simp: listener_stop_def split: if_splits)
    then have "x < ep_next s" "x = l_socket (ep_listener s) \<or> (\<exists>g c. connections_find s g = Some c \<and> ec_sock c = x)"
      using inv by (auto simp: store_inv_def)
    moreover have "ec_sock c \<noteq> x" if "connections_find s g = Some c" for g c
      using x(1) map_of_SomeD [of "ep_connections s" g c] that by (force simp: connections_find_def)
    ultimately show ?thesis by blast
  qed
  have "fd_of (l_socket (ep_listener s)) ?w1 = -1" by (simp add: listener_stop_def fd_of_closed)
  then have "fd = -1" if "objs (ep_store (epoll_stop s)) (l_socket (ep_listener s)) = Some fd" for fd
    using that by (auto simp: objs fd_of_def split: if_splits)
  then show op: "open_fds (ep_store (epoll_stop s)) = {}"
    using own_owner [OF own] own_no_minus [OF own] left by fastforce
  show "ep_interest (epoll_stop s) = (\<lambda>_. None)"
    using op store by (simp add: epoll_stop_def clear_connections_def Let_def on_store_def fold_destroy_conns)
qed (simp_all add: epoll_stop_def clear_connections_def Let_def epoll_config_def)

lemma epoll_inv_stop:
  assumes "epoll_inv fs clock r config s"
  shows "epoll_inv fs clock r config (epoll_stop s)"
proof -
  note st = epoll_inv_store [OF assms]
  note stop = epoll_stop_fields [OF st]
  have "connections_find (epoll_stop s) = (\<lambda>_. None)" by (rule ext) (simp add: connections_find_def stop(1))
  moreover from this have "store_inv (epoll_stop s)"
    using stop(1,3-6,8,9,12,13) st by (simp add: store_inv_def)
  ultimately show ?thesis
    using assms stop(5,7,10,11) by (simp add: epoll_inv_def inv_but_def settings_def)
qed

text \<open>The destructor closes the epoll instance, which was open, and leaves nothing.\<close>

lemma epoll_destroy_clean:
  assumes "store_inv s"
  shows "descriptors (epoll_destroy s) = {} \<and> bad_closes (ep_store (epoll_destroy s)) = 0 \<and>
    (\<forall>x. objs (ep_store (epoll_destroy s)) x = None)"
proof -
  note stop = epoll_stop_fields [OF assms]
  define s2 where "s2 = (if ep_epoll_fd (epoll_stop s) \<noteq> -1 then close_fd (ep_epoll_fd (epoll_stop s)) (epoll_stop s)
    else epoll_stop s)"
  have "ep_epoll_open s = {ep_epoll_fd s} - {-1}" using assms by (simp add: store_inv_def)
  then have s2: "ep_store s2 = ep_store (epoll_stop s)" "ep_listener s2 = ep_listener s" "ep_epoll_open s2 = {}"
    by (auto simp: s2_def close_fd_def stop(9,12,13))
  have destroy: "epoll_destroy s = on_store (socket_destroy (l_socket (ep_listener s2))) s2"
    by (simp add: epoll_destroy_def Let_def s2_def)
  have store: "ep_store (epoll_destroy s) = socket_destroy (l_socket (ep_listener s)) (ep_store (epoll_stop s))"
    by (simp add: destroy s2)
  then have own: "own_inv (ep_store (epoll_destroy s))" using stop(3) by (simp add: own_inv_destroy)
  moreover have "objs (ep_store (epoll_destroy s)) x = None" for x
    using stop(6) [of x] by (cases "objs (ep_store (epoll_stop s)) x") (auto simp: store)
  ultimately show ?thesis
    using no_object_no_fd own_no_bad by (auto simp: descriptors_def) (simp add: destroy s2)
qed

section \<open>Listening\<close>

lemma store_inv_register:
  "store_inv s \<Longrightarrow> fd \<in> open_fds (ep_store s) \<Longrightarrow> ep_epoll_fd s \<noteq> -1 \<Longrightarrow>
     store_inv (s\<lparr>ep_interest := (ep_interest s)(fd \<mapsto> m)\<rparr>)"
  unfolding store_inv_def by (elim conjE, intro conjI) (simp_all del: not_None_eq)

text \<open>The state after \<open>listener_.start()\<close>, whether it succeeded or not.\<close>

lemma epoll_inv_listener_started:
  assumes inv: "epoll_inv fs clock r config s"
    and fd: "r_socket res = -1 \<or> 0 \<le> r_socket res \<and> r_socket res \<notin> open_fds (ep_store s)"
  defines "w \<equiv> snd (listener_start (ep_listener s) (ep_next s) res (ep_store s))"
    and "s1 \<equiv> on_store (\<lambda>w. snd (listener_start (ep_listener s) (ep_next s) res w)) (s\<lparr>ep_next := Suc (ep_next s)\<rparr>)"
  shows "epoll_inv fs clock r config s1" and "ep_store s1 = w"
    and "r_socket res \<noteq> -1 \<Longrightarrow> r_socket res \<in> open_fds w"
    and "connections_find s g = Some c \<Longrightarrow> g \<noteq> r_socket res"
proof -
  let ?l = "ep_listener s" and ?tmp = "ep_next s"
  note st = epoll_inv_store [OF inv]
  have tmp: "objs (ep_store s) ?tmp = None" "?tmp \<noteq> l_socket ?l"
    using fresh_object [OF st] st by (auto simp: store_inv_def)
  have own: "own_inv w" unfolding w_def using store_own [OF st] tmp(1) fd by (rule listener_start_inv)
  have objs: "objs w = (objs (ep_store s))(l_socket ?l \<mapsto> r_socket res)"
    unfolding w_def by (rule listener_start_objs [OF tmp])
  have op: "open_fds w = (if r_socket res = -1 then {} else {r_socket res}) \<union>
      (open_fds (ep_store s) - {fd_of (l_socket ?l) (ep_store s)})"
    unfolding w_def by (rule listener_start_open [OF store_own [OF st] tmp fd])
  have conn: "g \<in> open_fds w" "g \<noteq> r_socket res" if "connections_find s g = Some c" for g c
    using store_conn [OF st that] own_unique [OF store_own [OF st], of "ec_sock c" g "l_socket ?l"] fd
    by (auto simp: op fd_of_def split: option.split)
  then show "connections_find s g = Some c \<Longrightarrow> g \<noteq> r_socket res" by blast
  show "ep_store s1 = w" by (simp add: s1_def w_def)
  show "r_socket res \<noteq> -1 \<Longrightarrow> r_socket res \<in> open_fds w" by (simp add: op)
  have "store_inv s1"
    unfolding store_inv_def using st own objs
    by (auto simp: s1_def w_def [symmetric] store_inv_def less_Suc_eq put_connection_def split: if_splits)
  moreover have "ep_interest s1 g = ep_interest s g" if "connections_find s g = Some c" for g c
    using conn [OF that] by (simp add: s1_def w_def)
  ultimately show "epoll_inv fs clock r config s1"
    using inv by (auto simp: epoll_inv_def inv_but_def settings_def s1_def)
qed

lemma epoll_inv_nonblocking:
  assumes inv: "epoll_inv fs clock r config s" and fd: "\<And>g c. connections_find s g = Some c \<Longrightarrow> g \<noteq> fd"
  shows "epoll_inv fs clock r config (s\<lparr>ep_io := (ep_io s)(fd := fcntl_nonblock silent_io)\<rparr>)"
  using inv fd unfolding epoll_inv_def inv_but_def
  by (auto simp: settings_def fcntl_nonblock_def silent_io_def)

lemma epoll_inv_register:
  assumes inv: "epoll_inv fs clock r config s" and fd: "\<And>g c. connections_find s g = Some c \<Longrightarrow> g \<noteq> fd"
    and op: "fd \<in> open_fds (ep_store s)" and nb: "nonblock (ep_io s fd)"
  shows "epoll_inv fs clock r config (snd (add_to_epoll mem fd ev s))"
proof (cases "ep_epoll_fd s \<noteq> -1 \<and> mem \<and> ep_interest s fd = None")
  case False
  with inv show ?thesis by (auto simp: add_to_epoll_def)
next
  case True
  define t where "t = s\<lparr>ep_interest := (ep_interest s)(fd \<mapsto> ev)\<rparr>"
  have "store_inv t"
    unfolding t_def using True op by (intro store_inv_register epoll_inv_store [OF inv]) simp_all
  moreover have "ep_interest t g = ep_interest s g" if "connections_find s g = Some c" for g c
    using fd [OF that] by (simp add: t_def)
  moreover have "nonblock (ep_io t g)" if "ep_interest t g = Some m" for g m
    using inv that nb by (cases "g = fd") (auto simp: t_def epoll_inv_def inv_but_def)
  ultimately have "epoll_inv fs clock r config t"
    using inv by (auto simp: epoll_inv_def inv_but_def settings_def) (auto simp: t_def)
  with True show ?thesis by (simp add: add_to_epoll_def t_def)
qed

lemma epoll_inv_listen:
  assumes inv: "epoll_inv fs clock r config s"
    and fd: "r_socket res = -1 \<or> 0 \<le> r_socket res \<and> r_socket res \<notin> descriptors s"
  shows "epoll_inv fs clock r config (snd (epoll_listen res mem s))"
proof -
  have fd: "r_socket res = -1 \<or> 0 \<le> r_socket res \<and> r_socket res \<notin> open_fds (ep_store s)"
    using fd by (auto simp: descriptors_def)
  let ?l = "ep_listener s" and ?tmp = "ep_next s"
  define w where "w = snd (listener_start ?l ?tmp res (ep_store s))"
  define s1 where "s1 = on_store (\<lambda>w. snd (listener_start ?l ?tmp res w)) (s\<lparr>ep_next := Suc ?tmp\<rparr>)"
  note started = epoll_inv_listener_started [OF inv fd, folded s1_def w_def]
  show ?thesis
  proof (cases "fst (listener_start ?l ?tmp res (ep_store s))")
    case False
    then have "snd (epoll_listen res mem s) = s1" by (simp add: epoll_listen_def Let_def s1_def)
    with started(1) show ?thesis by simp
  next
    case True
    have "?tmp \<noteq> l_socket ?l" using epoll_inv_store [OF inv] by (auto simp: store_inv_def)
    then have lfd: "fd_of (l_socket ?l) w = r_socket res" "r_socket res \<noteq> -1"
      using True listener_start_fd [of ?tmp ?l res "ep_store s"] by (simp_all add: w_def)
    have s1: "connections_find s1 = connections_find s" "ep_listener s1 = ?l" by (simp_all add: s1_def)
    define s2 where "s2 = s1\<lparr>ep_io := (ep_io s1)(r_socket res := fcntl_nonblock silent_io)\<rparr>"
    have "g \<noteq> r_socket res" if "connections_find s1 g = Some c" for g c using started(4) that by (simp add: s1)
    from epoll_inv_nonblocking [OF started(1) this]
    have inv2: "epoll_inv fs clock r config s2" by (simp add: s2_def)
    define s3 where "s3 = snd (add_to_epoll mem (r_socket res) EPOLLIN s2)"
    have inv3: "epoll_inv fs clock r config s3"
      unfolding s3_def using started(2-4) lfd(2)
      by (intro epoll_inv_register [OF inv2]) (auto simp: s2_def s1 fcntl_nonblock_def)
    then have "epoll_inv fs clock r config (s3\<lparr>ep_running := True\<rparr>)"
      by (simp add: epoll_inv_def inv_but_def settings_def store_inv_def)
    moreover have "snd (epoll_listen res mem s) \<in> {s3, s3\<lparr>ep_running := True\<rparr>}"
      using True lfd by (simp add: epoll_listen_def Let_def s1_def [symmetric] s1 started(2) s3_def s2_def
          split: prod.split bool.split)
    ultimately show ?thesis using inv3 by auto
  qed
qed

section \<open>The invariant of the system\<close>

text \<open>A server as its user sets it up: constructed, with a router or not, and with its keep-alive
  settings.\<close>

definition epoll_init :: "Router option \<Rightarrow> Config \<Rightarrow> EpollServer \<Rightarrow> bool" where
  "epoll_init r config s =
     (config = epoll_config s \<and>
      (\<exists>p b m cr enable timeout k.
         s = set_keepalive enable timeout k (set_router r (new_epoll_server p b m cr))))"

lemma epoll_inv_init:
  assumes "epoll_init r config s"
  shows "epoll_inv fs clock r config s"
proof -
  obtain p b m cr enable timeout k where
    s: "s = set_keepalive enable timeout k (set_router r (new_epoll_server p b m cr))"
    using assms by (auto simp: epoll_init_def)
  have "own_inv (socket_new 0 (-1) empty_store)"
    by (intro own_inv_new own_inv_empty) (simp add: empty_store_def)
  then have "store_inv s"
    by (auto simp: store_inv_def s set_keepalive_def set_router_def new_epoll_server_def
        connections_find_def empty_store_def split: if_splits)
  moreover have "connections_find s = (\<lambda>_. None)" "ep_io s = (\<lambda>_. silent_io)" "ep_router s = r"
    "ep_interest s = (\<lambda>_. None)"
    by (rule ext, simp_all add: s set_keepalive_def set_router_def new_epoll_server_def connections_find_def)
  ultimately show ?thesis
    using assms by (auto simp: epoll_inv_def inv_but_def settings_def epoll_init_def silent_io_def)
qed

lemma epoll_inv_step:
  assumes "epoll_step fs clock s s'" "epoll_inv fs clock r config s"
  shows "epoll_inv fs clock r config s'"
  using assms
proof (induction rule: epoll_step.induct)
  case (listen res s mem)
  show ?case by (rule epoll_inv_listen [OF listen.prems listen.hyps])
next
  case (network f s)
  show ?case by (rule epoll_inv_network [OF network.hyps network.prems])
next
  case (events s listen_fd es s')
  have "handler_ok fs clock r config UNIV s (handle_events fs clock listen_fd es s)"
    by (rule handle_events_ok)
      (use events.hyps events.prems in \<open>auto simp: reported_def listens_on_def listen_fd_of_def\<close>)
  with events.hyps show ?case by (simp add: handler_ok_def)
next
  case (stop s)
  then show ?case by (rule epoll_inv_stop)
qed

interpretation epoll: invariant_system "epoll_init r config" "epoll_step fs clock"
    "epoll_inv fs clock r config" for fs clock r config
  by unfold_locales (auto intro: epoll_inv_init epoll_inv_step)

abbreviation epoll_reach ::
  "filesystem \<Rightarrow> (nat \<Rightarrow> int \<Rightarrow> nat) \<Rightarrow> Router option \<Rightarrow> Config \<Rightarrow> EpollServer \<Rightarrow> bool" where
  "epoll_reach fs clock r config \<equiv> reach (epoll_init r config) (epoll_step fs clock)"

section \<open>The loop itself\<close>

text \<open>What a run of the loop owes.\<close>

definition loop_ok ::
  "filesystem \<Rightarrow> (nat \<Rightarrow> int \<Rightarrow> nat) \<Rightarrow> Router option \<Rightarrow> Config \<Rightarrow> epoll_end \<Rightarrow> bool" where
  "loop_ok fs clock r config e =
     (case e of
        Continues s' \<Rightarrow> epoll_inv fs clock r config s'
      | Throws \<Rightarrow> \<exists>req. wellformed req \<and> epoll_serve fs r req = None
      | Hangs \<Rightarrow> False)"

lemma listens_on_keeps: "keeps_interest X s s' \<Longrightarrow> listens_on listen_fd s \<Longrightarrow> listens_on listen_fd s'"
  by (simp add: listens_on_def keeps_interest_def)

lemma listens_on_stop: "listens_on listen_fd (epoll_stop s)" if "store_inv s"
proof -
  have "listen_fd_of (epoll_stop s) = -1"
    using epoll_stop_fields(3,4) [OF that] own_inv_owned [of "ep_store (epoll_stop s)" "l_socket (ep_listener (epoll_stop s))"]
    by (auto simp: listen_fd_of_def is_valid_def)
  then show ?thesis by (simp add: listens_on_def)
qed

lemma listens_on_network [simp]: "listens_on listen_fd (network f s) = listens_on listen_fd s"
  by (simp add: listens_on_def network_def)

declare event_loop.simps(2) [simp del]

text \<open>A round of events, followed by a rest that is known to be right.\<close>

lemma ready_round_ok:
  assumes inv: "epoll_inv fs clock r config s" and lis: "listens_on listen_fd s"
    and rep: "reported es s" "possible_events fs clock listen_fd es s"
    and rest: "\<And>s'. handle_events fs clock listen_fd es s = Continues s' \<Longrightarrow> epoll_inv fs clock r config s' \<Longrightarrow>
      listens_on listen_fd s' \<Longrightarrow> loop_ok fs clock r config (event_loop fs clock listen_fd rounds s')"
  shows "loop_ok fs clock r config (case handle_events fs clock listen_fd es s of
      Continues s' \<Rightarrow> event_loop fs clock listen_fd rounds s' | e \<Rightarrow> e)"
proof -
  have ok: "handler_ok fs clock r config UNIV s (handle_events fs clock listen_fd es s)"
    using inv lis rep by (intro handle_events_ok) (auto simp: reported_def)
  show ?thesis
  proof (cases "handle_events fs clock listen_fd es s")
    case (Continues s')
    with ok have "epoll_inv fs clock r config s'" "keeps_interest UNIV s s'" by (simp_all add: handler_ok_def)
    from rest [OF Continues this(1) listens_on_keeps [OF this(2) lis]] Continues show ?thesis by simp
  qed (use ok in \<open>simp_all add: handler_ok_def loop_ok_def\<close>)
qed

lemma event_loop_ok:
  "epoll_inv fs clock r config s \<Longrightarrow> listens_on listen_fd s \<Longrightarrow>
   possible_rounds fs clock listen_fd rounds s \<Longrightarrow>
     loop_ok fs clock r config (event_loop fs clock listen_fd rounds s)"
proof (induction rounds arbitrary: s)
  case Nil
  then show ?case by (simp add: loop_ok_def)
next
  case (Cons round rounds)
  obtain traffic stopped result where round: "round = (traffic, stopped, result)" by (cases round)
  define s0 where "s0 = (if stopped then epoll_stop s else s)"
  have inv0: "epoll_inv fs clock r config s0"
    using Cons.prems(1) by (simp add: s0_def epoll_inv_stop)
  have lis: "listens_on listen_fd (network traffic s0)"
    using Cons.prems(2) listens_on_stop [OF epoll_inv_store [OF Cons.prems(1)]] by (simp add: s0_def)
  have tr: "traffic_only traffic" using Cons.prems(3) by (simp add: round Let_def)
  note inv1 = epoll_inv_network [OF tr inv0]
  note loop = event_loop.simps(2) [of fs clock listen_fd traffic stopped result rounds s,
      folded s0_def, unfolded Let_def]
  show ?case
  proof (cases "ep_running s0")
    case False
    with inv0 show ?thesis by (simp add: loop round loop_ok_def)
  next
    case True
    show ?thesis
    proof (cases result)
      case (Ready es)
      have "loop_ok fs clock r config
          (case handle_events fs clock listen_fd es (network traffic s0) of
             Continues s' \<Rightarrow> event_loop fs clock listen_fd rounds s' | e \<Rightarrow> e)"
        by (rule ready_round_ok [OF inv1 lis])
          (use Cons.prems(3) Ready True in \<open>simp_all add: round s0_def Let_def Cons.IH\<close>)
      with True Ready show ?thesis by (simp add: loop [unfolded Ready] round)
    next
      case Interrupted
      have "possible_rounds fs clock listen_fd rounds (network traffic s0)"
        using Cons.prems(3) Interrupted by (simp add: round s0_def Let_def)
      from Cons.IH [OF inv1 lis this] True Interrupted show ?thesis by (simp add: loop [unfolded Interrupted] round)
    next
      case Wait_failed
      with True inv1 show ?thesis by (simp add: loop [unfolded Wait_failed] round loop_ok_def)
    qed
  qed
qed

end
