(* ===== verification/Http_Parser_Props.thy ===== *)
theory Http_Parser_Props
  imports Http_Parser_Roundtrip
begin

text \<open>
  The properties of the request parser: what its result means, that the cutting of the stream
  does not matter and where it does, the round trip with a printing client, and what becomes
  of a \<open>Content-Length\<close> that does not fit.
\<close>

section \<open>The cutting of the stream\<close>

lemma budget_new: "n \<le> MAX_REQUEST_LINE \<Longrightarrow> budget n initial_parser"
  by (simp add: budget_def split_safe_def initial_parser_def)

lemma unsplit_new: "unsplit initial_parser"
  by (simp add: unsplit_def initial_parser_def)

text \<open>C11. The parser is incremental: however the network cuts a message into chunks, feeding the
  chunks one by one gives the result, the error code and the request that feeding the whole at
  once gives.  The chunks must not be cut between the two characters of a line terminator,
  unless the message is no longer than the shortest limit (8192 bytes).\<close>

theorem feed_chunk_independent:
  assumes "length (concat (d # ds)) \<le> MAX_REQUEST_LINE \<or> (\<forall>c\<in>set (butlast (d # ds)). \<not> ends_cr c)"
  shows "outcome (feeds (d # ds) initial_parser) = outcome (snd (feed (concat (d # ds)) initial_parser))"
  using assms feeds_concat_budget [OF budget_new, of d ds] feeds_concat_unsplit [OF unsplit_new, of d ds]
  by blast

theorem feed_chunk_independent_witness:
  "outcome (feeds [''GET / HT'', ''TP/1.1'' @ [CR], LF # CRLF] initial_parser) =
   outcome (snd (feed (''GET / HTTP/1.1'' @ CRLF @ CRLF) initial_parser))"
  using feed_chunk_independent [of "''GET / HT''" "[''TP/1.1'' @ [CR], LF # CRLF]"]
  by (simp add: limits)

text \<open>A request line of exactly the permitted length.\<close>

definition longest_target :: string where
  "longest_target = CHR ''/'' # replicate 8178 (CHR ''a'')"

lemma longest_sendable: "sendable ''GET'' longest_target [] []"
  by (auto simp: sendable_def sendable_line_def sendable_fields_def allowed_methods_def
      longest_target_def limits valid_body_def sent_request_def stored_headers_def
      content_length_def header_def umap_find_def render_fields_def)

lemma longest_no_cr: "CR \<notin> set (request_line ''GET'' longest_target)"
  by (auto simp: request_line_def longest_target_def)

lemma length_longest: "length (request_line ''GET'' longest_target) = MAX_REQUEST_LINE"
  by (simp add: request_line_def longest_target_def limits)

lemma find_crlf_half:
  assumes "CR \<notin> set l"
  shows "find_str CRLF (l @ [CR]) = None"
proof (rule ccontr)
  assume "find_str CRLF (l @ [CR]) \<noteq> None"
  then obtain i where i: "find_str CRLF (l @ [CR]) = Some i" by blast
  then have "i < length l" using find_crlf_bound [OF i] by simp
  moreover have "drop i (l @ [CR]) ! 0 = CR"
    using find_str_at [OF i] by (auto simp: starts_with_ex)
  ultimately have "l ! i = CR" by (simp add: nth_append)
  with assms \<open>i < length l\<close> show False using nth_mem by fastforce
qed

text \<open>C40. The cut does matter at a limit: a request whose line has exactly 8192 bytes is accepted
  in one piece, and refused with 414 when a chunk ends between CR and LF, because the pending
  CR is counted as part of the line.\<close>

theorem feed_split_terminator:
  "fst (feed (render_request ''GET'' longest_target [] []) initial_parser) = R_COMPLETE \<and>
   (\<exists>a b. a @ b = render_request ''GET'' longest_target [] [] \<and>
      outcome (feeds [a, b] initial_parser) = (R_ERROR, URITooLong, empty_request))"
proof -
  let ?a = "request_line ''GET'' longest_target @ [CR]"
  let ?p = "add_bytes ?a initial_parser"
  have "find_str CRLF ?a = None" using longest_no_cr by (rule find_crlf_half)
  then have "parse_step ?p = parse_error URITooLong ?p"
    using length_longest
    by (simp add: parse_step_def parse_request_line_def initial_parser_def add_bytes_def)
  moreover have "\<not> terminal ?p" "p_state ?p \<noteq> ERROR"
    by (simp_all add: terminal_def initial_parser_def)
  ultimately have "feed_loop ?p = parse_error URITooLong ?p"
    using feed_loop_step [of ?p] feed_loop_terminal [of "parse_error URITooLong ?p"]
    by (auto simp: terminal_def)
  then have "outcome (feeds [?a, LF # CRLF] initial_parser) = (R_ERROR, URITooLong, empty_request)"
    by (simp add: feed_snd terminal_def outcome_def parse_result_def) (simp add: initial_parser_def)
  moreover have "?a @ LF # CRLF = render_request ''GET'' longest_target [] []"
    by (simp add: render_request_def render_fields_def)
  moreover have "fst (feed (render_request ''GET'' longest_target [] []) initial_parser) = R_COMPLETE"
    using feed_printed [OF longest_sendable, of "[]"] by simp
  ultimately show ?thesis by blast
qed

section \<open>What a result means\<close>

text \<open>C12. COMPLETE means a valid request, whatever bytes came before: a method of the four, a
  target that starts with a slash, HTTP/1.1, a request line of at most 8192 bytes, headers with
  distinct lower-case names and trimmed values, each at most 8192 bytes, at most 100 lines and 64 kB
  of them, a body of exactly \<open>Content-Length\<close> bytes and at most 1 MB, and a \<open>Content-Length\<close> on every
  POST.\<close>

theorem feed_complete_valid:
  assumes "feed d (feeds ds initial_parser) = (R_COMPLETE, q)"
  shows "valid_line (p_request q) \<and> valid_headers q \<and> valid_body (p_request q)"
proof -
  have "parser_inv q" using feed_inv [OF feeds_inv, of d ds] assms by simp
  with feed_complete_state [OF assms] show ?thesis by (simp add: parser_inv_def)
qed

lemma get_root_sendable: "sendable ''GET'' ''/'' [] []"
  by (simp add: sendable_def sendable_line_def sendable_fields_def allowed_methods_def
      limits valid_body_def sent_request_def stored_headers_def content_length_def header_def
      umap_find_def render_fields_def)

theorem feed_complete_valid_witness:
  "\<exists>q. feed (render_request ''GET'' ''/'' [] []) (feeds [] initial_parser) = (R_COMPLETE, q) \<and>
     valid_line (p_request q) \<and> valid_headers q \<and> valid_body (p_request q)"
proof -
  obtain q where "feed (render_request ''GET'' ''/'' [] []) (feeds [] initial_parser) = (R_COMPLETE, q)"
    using feed_printed [OF get_root_sendable, of "[]"] by simp
  with feed_complete_valid [OF this] show ?thesis by blast
qed

text \<open>C6. The parser decides its grammar: it takes a word exactly when the word starts with a message of the
  grammar, within the limits, and what it then hands out is the request that message stands for; the
  rest of the word stays in the buffer.  Method, target, fields and body of \<open>message_text\<close> are
  a grammar of requests in which no parser occurs.\<close>

theorem feed_decides_grammar:
  "(\<exists>q q'. feed d initial_parser = (R_COMPLETE, q) \<and> get_request q = (req, q') \<and> p_buffer q = rest) \<longleftrightarrow>
     (\<exists>m t fs b. d = message_text m t fs b @ rest \<and> legal m t fs b \<and> req = sent_request m t fs b)"
    (is "?lhs \<longleftrightarrow> ?rhs")
proof
  assume ?lhs
  then obtain q where q: "feed d initial_parser = (R_COMPLETE, q)" "p_request q = req" "p_buffer q = rest"
    by (auto simp: get_request_def)
  from q(1) obtain m t fs b rest' where "d = message_text m t fs b @ rest'" "legal m t fs b"
    "q = completed m t fs b rest'" unfolding feed_words by blast
  with q(2,3) show ?rhs by (intro exI [of _ m] exI [of _ t] exI [of _ fs] exI [of _ b]) (simp add: completed_def)
next
  assume ?rhs
  then obtain m t fs b where "d = message_text m t fs b @ rest" "legal m t fs b" "req = sent_request m t fs b"
    by blast
  then have "feed d initial_parser = (R_COMPLETE, completed m t fs b rest)" "p_request (completed m t fs b rest) = req"
    "p_buffer (completed m t fs b rest) = rest"
    using feed_words by (blast, simp_all add: completed_def)
  then show ?lhs by (simp add: get_request_def)
qed

text \<open>So a word that can be read can be read in one way only.\<close>

lemma grammar_unambiguous:
  assumes "message_text m t fs b @ rest = message_text m' t' fs' b' @ rest'" "legal m t fs b" "legal m' t' fs' b'"
  shows "sent_request m t fs b = sent_request m' t' fs' b' \<and> rest = rest'"
proof -
  have "feed (message_text m t fs b @ rest) initial_parser = (R_COMPLETE, completed m t fs b rest)"
    using feed_words assms(2) by blast
  moreover have "feed (message_text m t fs b @ rest) initial_parser = (R_COMPLETE, completed m' t' fs' b' rest')"
    using feed_words assms(1,3) by metis
  ultimately show ?thesis by (simp add: completed_def)
qed

text \<open>A refusal is one of five statuses.\<close>

theorem feed_error_status:
  assumes "feed d (feeds ds initial_parser) = (R_ERROR, q)"
  shows "status_int (p_error_code q) \<in> {400, 405, 413, 414, 431}"
proof -
  have "parser_inv q" using feed_inv [OF feeds_inv, of d ds] assms by simp
  with feed_error_state [OF assms] show ?thesis by (auto simp: parser_inv_def parse_error_codes_def)
qed

theorem feed_error_status_witness:
  "\<exists>q. feed (''BREW / HTTP/1.1'' @ CRLF) (feeds [] initial_parser) = (R_ERROR, q) \<and>
     status_int (p_error_code q) \<in> {400, 405, 413, 414, 431}"
proof -
  have "fst (feed (''BREW / HTTP/1.1'' @ CRLF) initial_parser) = R_ERROR" by code_simp
  then show ?thesis
    using feed_error_status [of "''BREW / HTTP/1.1'' @ CRLF" "[]"] by (cases "feed (''BREW / HTTP/1.1'' @ CRLF) initial_parser") simp
qed

text \<open>C33. An unfinished parse holds a bounded amount of memory: after INCOMPLETE, buffer, headers,
  method and target together are no longer than the three limits together.\<close>

theorem feed_incomplete_bounded:
  assumes "feed d (feeds ds initial_parser) = (R_INCOMPLETE, q)"
  shows "held_bytes q \<le> 8192 + 65536 + 1048576"
proof -
  have inv: "parser_inv q" using feed_inv [OF feeds_inv, of d ds] assms by simp
  have nt: "\<not> terminal q" using assms by (rule feed_incomplete_state)
  have "\<not> terminal (feeds ds initial_parser)"
  proof
    assume "terminal (feeds ds initial_parser)"
    then have "snd (feed d (feeds ds initial_parser)) = feeds ds initial_parser" by (simp add: feed_snd)
    with assms nt \<open>terminal (feeds ds initial_parser)\<close> show False by simp
  qed
  then have "q = feed_loop (add_bytes d (feeds ds initial_parser))"
    using arg_cong [OF assms, where f = snd] by (simp add: feed_snd)
  with nt feed_loop_stuck have "parse_step q = q" by blast
  from stuck_held_bytes [OF inv this nt] show ?thesis by (simp add: limits)
qed

theorem feed_incomplete_bounded_witness:
  "\<exists>q. feed ''GET /'' (feeds [''GE''] initial_parser) = (R_INCOMPLETE, q) \<and>
     held_bytes q \<le> 8192 + 65536 + 1048576"
proof -
  have "fst (feed ''GET /'' (feeds [''GE''] initial_parser)) = R_INCOMPLETE" by code_simp
  then show ?thesis
    using feed_incomplete_bounded [of "''GET /''" "[''GE'']"]
    by (cases "feed ''GET /'' (feeds [''GE''] initial_parser)") simp
qed

section \<open>Round trip\<close>

text \<open>What a client prints within the limits is what the application sees: feeding a printed
  request completes it, stores exactly its method, target, headers and body, and leaves the
  bytes that follow it in the buffer.\<close>

theorem feed_render_request:
  assumes "sendable m t hs b"
  shows "\<exists>q. feed (render_request m t hs b @ rest) initial_parser = (R_COMPLETE, q) \<and>
    p_request q = sent_request m t hs b \<and> p_buffer q = rest \<and>
    (\<forall>n. header (p_request q) n = map_of (rev (map (\<lambda>(k, v). (to_lower k, trim v)) hs)) (to_lower n))"
  by (simp add: feed_printed [OF assms] sent_request_header)

lemma literals:
  "to_string 2 = ''2''" "to_string 18446744073709551616 = ''18446744073709551616''"
  "to_lower ''Host'' = ''host''" "to_lower ''Content-Length'' = ''content-length''"
  "trim ''2'' = ''2''" "trim ''a'' = ''a''"
  "trim ''18446744073709551616'' = ''18446744073709551616''"
  by (simp_all add: to_string.simps digit_char_def char_of_def bit_0 trim_def isspace_def)
    code_simp+

lemma stoull_two: "stoull ''2'' = Inr 2"
  using stoull_to_string [of 2] by (simp add: literals)

lemma stoull_huge: "stoull ''18446744073709551616'' = Inl Out_of_range"
  using scan_number_to_string [of 18446744073709551616] nat_of_digits_to_string [of 18446744073709551616]
  by (simp add: literals stoull_def)

lemmas sendable_eval = sendable_def sendable_line_def sendable_fields_def sendable_field_def
  field_line_def render_fields_def allowed_methods_def limits

lemmas request_eval = valid_body_def sent_request_def stored_headers_def umap_put_def
  content_length_def header_def has_header_def umap_find_def

lemma echo_sendable: "sendable ''POST'' ''/api/echo'' [(''Host'', ''a''), (''Content-Length'', ''2'')] ''hi''"
  by (simp add: sendable_eval) (simp add: request_eval literals stoull_two limits)

theorem feed_render_request_witness:
  "\<exists>q. feed (render_request ''POST'' ''/api/echo'' [(''Host'', ''a''), (''Content-Length'', ''2'')] ''hi'' @
       ''GET'') initial_parser = (R_COMPLETE, q) \<and> rq_body (p_request q) = ''hi'' \<and> p_buffer q = ''GET''"
proof -
  from feed_render_request [OF echo_sendable, of "''GET''"]
  show ?thesis by (elim exE conjE) (auto simp: sent_request_def)
qed

section \<open>Lengths that do not fit\<close>

text \<open>A \<open>Content-Length\<close> of 2 to the 64 or more is not refused as too large: the exception of
  \<open>std::stoull\<close> is swallowed, the length counts as 0, and the POST completes with an empty body
  while its real body is left in the buffer as if it were the next request.\<close>

theorem feed_huge_content_length:
  "\<exists>q. feed (render_request ''POST'' ''/api/echo'' [(''Content-Length'', ''18446744073709551616'')] [] @ body)
       initial_parser = (R_COMPLETE, q) \<and> rq_body (p_request q) = [] \<and> p_buffer q = body"
proof -
  have "sendable ''POST'' ''/api/echo'' [(''Content-Length'', ''18446744073709551616'')] []"
    by (simp add: sendable_eval) (simp add: request_eval literals stoull_huge limits)
  from feed_printed [OF this, of body] show ?thesis by (simp add: sent_request_def)
qed

end
