(* ===== verification/Sample_Client.thy ===== *)
theory Sample_Client
  imports Server_Conversation Http_Parser_Props
begin

text \<open>A client for the examples: one request that asks to close the connection.\<close>

definition health_message :: message where
  "health_message = (''GET'', ''/health'', [(''Connection'', ''close'')], [])"

lemma to_lower_connection: "to_lower ''Connection'' = ''connection'' \<and> to_lower ''close'' = ''close''"
  by code_simp

lemma health_delivers: "delivers health_message [message_bytes health_message]"
proof -
  have "trim ''close'' = ''close''" by (simp add: trim_def isspace_def)
  then have "sendable ''GET'' ''/health'' [(''Connection'', ''close'')] []"
    by (simp add: sendable_eval) (simp add: request_eval to_lower_connection limits)
  then show ?thesis
    by (simp add: delivers_def health_message_def fair_chunks_def message_bytes_def render_request_def
        request_line_def render_fields_def field_line_def BUF_SIZE_def)
qed

end
