(* ===== verification/Router_Props.thy ===== *)
theory Router_Props
  imports Router
begin

text \<open>
  The properties of the router: dispatch against its declarative specification, which files
  the static handler can return and which it refuses, and the one it should refuse and does
  not.
\<close>

text \<open>C19. The dispatch loops compute the specification: the first route with the request's method and
  path answers, a throwing handler counts as 500, a path known under other methods only gets
  405 with the methods registered for it in \<open>Allow\<close>, then the first mount whose prefix matches
  is asked (GET and HEAD only), and everything else is 404.\<close>

theorem route_dispatch: "route fs r request = route_spec fs r request"
  by (rule route_route_spec)

text \<open>C20. What the static handler serves with 200 is the content of a regular file; the file's
  canonical path has the canonical path of the mount's directory as a prefix, the requested path
  had no dot-dot and no NUL in it, and the media type is the one of the file's extension.\<close>

theorem static_file_contained:
  assumes "serve_static_file fs mount path = Some res" "rs_status res = OK"
  shows "\<exists>f root. fs_canonical fs (sm_directory mount) = Some root \<and> starts_with f root \<and>
    fs_canonical fs (path_append (sm_directory mount) (relative_path (request_rel_path mount path))) = Some f \<and>
    fs_is_regular fs f = Some True \<and> fs_read fs f = Some (rs_body res) \<and>
    find_str ''..'' (request_rel_path mount path) = None \<and> CHR 0x00 \<notin> set (request_rel_path mount path) \<and>
    response_header res ''Content-Type'' = Some (get_mime_type f)"
  using assms(1,2)
proof (rule serve_static_file_ok)
  fix f root content
  assume a: "is_path_safe (request_rel_path mount path)"
    "fs_canonical fs (path_append (sm_directory mount) (relative_path (request_rel_path mount path))) = Some f"
    "fs_canonical fs (sm_directory mount) = Some root" "starts_with f root"
    "fs_is_regular fs f = Some True" "fs_read fs f = Some content"
    "res = set_header ''Content-Type'' (get_mime_type f) (ok_text content)"
  then have "rs_body res = content" "response_header res ''Content-Type'' = Some (get_mime_type f)"
    by (simp_all add: ok_text_def)
  with a show ?thesis by (auto simp: is_path_safe_iff)
qed

text \<open>A file system with one directory that holds one file, and a sibling directory.\<close>

definition sample_fs :: filesystem where
  "sample_fs = \<lparr>fs_canonical = (\<lambda>p. if p = ''/srv/www/a.txt'' then Some ''/srv/www/a.txt''
       else if p = ''/srv/www/link'' then Some ''/srv/www-private/key''
       else if p = ''/srv/www'' then Some ''/srv/www'' else None),
     fs_is_regular = (\<lambda>p. Some (p = ''/srv/www/a.txt'' \<or> p = ''/srv/www-private/key'')),
     fs_read = (\<lambda>p. if p = ''/srv/www/a.txt'' then Some ''hello'' else
       if p = ''/srv/www-private/key'' then Some ''secret'' else None)\<rparr>"

definition sample_mount :: StaticMount where
  "sample_mount = \<lparr>sm_prefix = ''/static'', sm_directory = ''/srv/www''\<rparr>"

lemma sample_serve:
  "serve_static_file sample_fs sample_mount ''/static/a.txt'' =
     Some (set_header ''Content-Type'' (get_mime_type ''/srv/www/a.txt'') (ok_text ''hello''))"
  "serve_static_file sample_fs sample_mount ''/static/link'' =
     Some (set_header ''Content-Type'' (get_mime_type ''/srv/www-private/key'') (ok_text ''secret''))"
  by (simp_all add: serve_static_file_def sample_fs_def sample_mount_def request_rel_path_def
      is_path_safe_def path_append_def relative_path_def)

theorem static_file_contained_witness:
  "\<exists>f. starts_with f ''/srv/www'' \<and> fs_read sample_fs f = Some ''hello''"
proof -
  have "rs_status (set_header ''Content-Type'' (get_mime_type ''/srv/www/a.txt'') (ok_text ''hello'')) = OK"
    by (simp add: ok_text_def)
  from static_file_contained [OF sample_serve(1) this] obtain f root where
    "fs_canonical sample_fs (sm_directory sample_mount) = Some root" "starts_with f root"
    "fs_read sample_fs f = Some (rs_body (set_header ''Content-Type'' (get_mime_type ''/srv/www/a.txt'')
       (ok_text ''hello'')))" by (elim exE conjE)
  moreover have "fs_canonical sample_fs (sm_directory sample_mount) = Some ''/srv/www''"
    by (simp add: sample_fs_def sample_mount_def)
  ultimately show ?thesis by (intro exI [of _ f]) (simp add: ok_text_def)
qed

text \<open>C21. A path with dot-dot in it, or a NUL, is refused with 403 before the file system is asked
  anything: the answer is the same whatever the file system holds.\<close>

theorem static_traversal_refused:
  assumes "find_str ''..'' (drop (length (sm_prefix mount)) path) \<noteq> None \<or>
    CHR 0x00 \<in> set (drop (length (sm_prefix mount)) path)"
  shows "\<forall>fs. serve_static_file fs mount path = Some (error Forbidden ''Forbidden'')"
proof -
  let ?d = "drop (length (sm_prefix mount)) path"
  have "find_str ''..'' (CHR ''/'' # ?d) \<noteq> None" if "find_str ''..'' ?d \<noteq> None"
    using that by (auto split: option.splits)
  then have "\<not> is_path_safe (request_rel_path mount path)"
    using assms by (auto simp: is_path_safe_iff request_rel_path_def Let_def)
  then show ?thesis by (simp add: serve_static_file_unsafe)
qed

theorem static_traversal_refused_witness:
  "\<forall>fs. serve_static_file fs sample_mount ''/static/../key'' = Some (error Forbidden ''Forbidden'')"
  by (rule static_traversal_refused) (simp add: sample_mount_def)

text \<open>The prefix test of the containment check is on characters, not on path components: a
  link from the served directory into a sibling directory whose name merely begins with the
  name of the served one is followed, and the file outside is served.\<close>

theorem static_sibling_served:
  "\<exists>fs mount path res f root. serve_static_file fs mount path = Some res \<and> rs_status res = OK \<and>
     fs_canonical fs (sm_directory mount) = Some root \<and>
     fs_canonical fs (path_append (sm_directory mount) (relative_path (request_rel_path mount path))) = Some f \<and>
     \<not> in_directory root f \<and> fs_read fs f = Some (rs_body res)"
proof -
  let ?res = "set_header ''Content-Type'' (get_mime_type ''/srv/www-private/key'') (ok_text ''secret'')"
  have "fs_canonical sample_fs (sm_directory sample_mount) = Some ''/srv/www''"
    "fs_canonical sample_fs (path_append (sm_directory sample_mount)
       (relative_path (request_rel_path sample_mount ''/static/link''))) = Some ''/srv/www-private/key''"
    "\<not> in_directory ''/srv/www'' ''/srv/www-private/key''"
    "rs_status ?res = OK" "fs_read sample_fs ''/srv/www-private/key'' = Some (rs_body ?res)"
    by (simp_all add: sample_fs_def sample_mount_def request_rel_path_def path_append_def
        relative_path_def in_directory_def ok_text_def)
  with sample_serve(2) show ?thesis by blast
qed

text \<open>A mount's prefix is matched at any character: what follows it need not begin with a slash, one is put
  in between.\<close>

theorem mount_prefix_any_char:
  assumes "name \<noteq> []" "hd name \<noteq> CHR ''/''"
  shows "static_loop fs (m # ms) (r\<lparr>rq_method := ''GET'', rq_target := sm_prefix m @ name\<rparr>) =
    static_loop fs (m # ms) (r\<lparr>rq_method := ''GET'', rq_target := sm_prefix m @ CHR ''/'' # name\<rparr>)"
  using assms by (simp add: serve_static_file_def request_rel_path_def)

theorem mount_prefix_any_char_witness:
  "static_loop sample_fs [sample_mount] (empty_request\<lparr>rq_method := ''GET'', rq_target := ''/statica.txt''\<rparr>) =
     static_loop sample_fs [sample_mount] (empty_request\<lparr>rq_method := ''GET'', rq_target := ''/static/a.txt''\<rparr>)"
  using mount_prefix_any_char [of "''a.txt''" sample_fs sample_mount "[]" empty_request] by (simp add: sample_mount_def)

text \<open>HEAD is answered as GET is, with the body.\<close>

theorem head_as_get:
  "static_loop fs ms (r\<lparr>rq_method := ''HEAD''\<rparr>) = static_loop fs ms (r\<lparr>rq_method := ''GET''\<rparr>)"
  by (induction ms) simp_all

text \<open>The media type depends on what follows the last dot, whatever its case, through the table;
  an unknown extension is an octet stream.\<close>

theorem mime_type_table:
  assumes "CHR ''.'' \<notin> set ext"
  shows "get_mime_type (stem @ CHR ''.'' # ext) = mime_lookup ext"
  using assms by (rule get_mime_type_ext)

theorem mime_type_table_witness: "get_mime_type ''/srv/a.b/Index.HTML'' = ''text/html''"
proof -
  have "mime_lookup ''HTML'' = ''text/html''" by code_simp
  with mime_type_table [of "''HTML''" "''/srv/a.b/Index''"] show ?thesis by simp
qed

end
