(* ===== verification/Epoll_Props.thy ===== *)
theory Epoll_Props
  imports Epoll_Events Sample_Client Router_Props
begin

text \<open>
  The properties of the event-driven server, with the lemmas on delivery they need: what its
  states look like, what its clients see, that its thread never waits in a handler, and what is
  left when it stops.
\<close>

section \<open>A kernel that makes progress\<close>

lemma flush_loop_delivers:
  "list_all makes_progress (outq io) \<Longrightarrow> length buf - off \<le> rooms (outq io) \<Longrightarrow> off \<le> length buf \<Longrightarrow>
     \<exists>io'. flush_loop buf off io = (Flushed, length buf, io') \<and> wire io' = wire io @ drop off buf \<and>
       inq io' = inq io"
proof (induction buf off io rule: flush_loop.induct)
  case (1 buf off io)
  note unfold = flush_loop.simps [of buf off io]
  show ?case
  proof (cases "off < length buf")
    case False
    with "1.prems" show ?thesis by (simp add: flush_loop.simps [of buf "length buf" io])
  next
    case off: True
    with "1.prems" obtain e es where es: "outq io = e # es" by (cases "outq io") (auto simp: rooms_def)
    with "1.prems"(1) consider (intr) "e = SIntr" | (room) n where "e = SRoom n" "0 < n"
      by (auto simp: makes_progress_def split: send_event.splits)
    then show ?thesis
    proof cases
      case intr
      with es have s: "sys_send True (drop off buf) io = (Returns (Inl EINTR), io\<lparr>outq := es\<rparr>)"
        by (simp add: sys_send_def)
      with "1.IH"(1) [of _ _ "Inl EINTR" EINTR] "1.prems" es intr off show ?thesis
        by (simp add: unfold rooms_def)
    next
      case room
      let ?d = "drop off buf"
      let ?io1 = "io\<lparr>outq := es, wire := wire io @ take n ?d\<rparr>"
      define k where "k = min n (length ?d)"
      from room es have s: "sys_send True ?d io = (Returns (Inr k), ?io1)"
        by (simp add: sys_send_def k_def)
      have k: "1 \<le> k" "off + k \<le> length buf" using room off by (auto simp: k_def)
      have "rooms (outq io) = Suc (rooms es)" using es room by (simp add: rooms_def)
      moreover have "take n ?d @ drop (off + k) buf = ?d"
        by (cases "n \<le> length ?d") (auto simp: k_def min_def add.commute drop_drop [symmetric]
            simp del: drop_drop)
      moreover have "flush_loop buf off io = flush_loop buf (off + k) ?io1"
        using off s by (simp add: unfold)
      ultimately show ?thesis
        using "1.IH"(2) [of "Returns (Inr k)" ?io1 "Inr k" k] off s k "1.prems" es by auto
    qed
  qed
qed

text \<open>Where a connection stands once its buffer has gone out.\<close>

definition write_done ::
  "int \<Rightarrow> EpollConnection \<Rightarrow> recv_event list \<Rightarrow> bytes \<Rightarrow> EpollServer \<Rightarrow> EpollServer \<Rightarrow> bool" where
  "write_done fd c q w s s' =
     (wire (ep_io s' fd) = w \<and> inq (ep_io s' fd) = q \<and>
      (if ec_keep_alive c \<and> ec_request_count c < ep_max_requests_per_conn s
       then ep_interest s' fd = Some (or EPOLLIN EPOLLET) \<and>
            (\<exists>c'. connections_find s' fd = Some c' \<and> ec_sock c' = ec_sock c \<and> ec_state c' = READING \<and>
               ec_parser c' = initial_parser \<and> ec_request_count c' = ec_request_count c)
       else connections_find s' fd = None \<and> fd \<notin> open_fds (ep_store s')))"

lemma handle_write_delivers:
  assumes st: "store_inv s" and c: "connections_find s fd = Some c" and reg: "ep_interest s fd = Some m"
    and off: "ec_write_offset c \<le> length (ec_write_buffer c)"
    and room: "list_all makes_progress (outq (ep_io s fd))"
      "length (ec_write_buffer c) - ec_write_offset c \<le> rooms (outq (ep_io s fd))"
  shows "\<exists>s'. handle_write fd s = Continues s' \<and> write_done fd c (inq (ep_io s fd)) (to_send c (ep_io s fd)) s s'"
proof -
  obtain io where fl: "flush_loop (ec_write_buffer c) (ec_write_offset c) (ep_io s fd) =
      (Flushed, length (ec_write_buffer c), io)" "wire io = to_send c (ep_io s fd)"
    "inq io = inq (ep_io s fd)"
    using flush_loop_delivers [OF room off] by (auto simp: to_send_def)
  define c1 where "c1 = c\<lparr>ec_write_offset := length (ec_write_buffer c)\<rparr>"
  define s1 where "s1 = put_connection fd c1 (s\<lparr>ep_io := (ep_io s)(fd := io)\<rparr>)"
  have st1: "store_inv s1"
    unfolding s1_def by (rule store_inv_put [of _ _ c]) (simp_all add: st c c1_def)
  note step = handle_write_def [of fd s, unfolded c fl(1) Let_def option.case prod.case,
      folded c1_def, folded s1_def]
  have f: "ec_keep_alive c1 = ec_keep_alive c" "ec_request_count c1 = ec_request_count c"
    "ec_sock c1 = ec_sock c" "ep_max_requests_per_conn s1 = ep_max_requests_per_conn s"
    "connections_find s1 fd = Some c1" "ep_interest s1 fd = Some m" "ep_io s1 fd = io"
    by (simp_all add: c1_def s1_def reg)
  show ?thesis
  proof (cases "ec_keep_alive c \<and> ec_request_count c < ep_max_requests_per_conn s")
    case False
    have "fd \<notin> open_fds (ep_store (close_connection fd s1))"
      using store_own [OF st1] store_conn [OF st1 f(5)]
      by (simp add: close_fields(12) [OF st1] f(5) fd_of_def)
    with False show ?thesis
      unfolding write_done_def by (auto simp: step f fl close_fields [OF st1])
  next
    case True
    define c2 where "c2 = c1\<lparr>ec_parser := initial_parser, ec_write_buffer := [],
        ec_write_offset := 0, ec_state := READING\<rparr>"
    have "store_inv (put_connection fd c2 s1)"
      by (rule store_inv_put [OF st1 f(5)]) (simp add: c2_def)
    then have m: "snd (modify_epoll fd (or EPOLLIN EPOLLET) (put_connection fd c2 s1)) =
        (put_connection fd c2 s1)\<lparr>ep_interest := (ep_interest s1)(fd \<mapsto> or EPOLLIN EPOLLET)\<rparr>"
      by (subst modify_registered) (simp_all add: f)
    have "handle_write fd s = Continues (snd (modify_epoll fd (or EPOLLIN EPOLLET) (put_connection fd c2 s1)))"
      using True by (simp add: step f c2_def)
    then show ?thesis
      using True unfolding write_done_def m by (auto simp: f fl(2,3) c2_def)
  qed
qed

section \<open>A request in segments\<close>

lemma drain_loop_data:
  assumes "d \<noteq> []" "length d \<le> READ_SIZE" "inq io = RBytes d # es" "feed d p = (st, q)"
  shows "drain_loop p io = (if st = R_COMPLETE then (Got_request, q, io\<lparr>inq := es\<rparr>)
    else if st = R_ERROR then (Got_error, q, io\<lparr>inq := es\<rparr>) else drain_loop q (io\<lparr>inq := es\<rparr>))"
proof -
  have "sys_recv READ_SIZE io = (Returns (Inr d), io\<lparr>inq := es\<rparr>)"
    using assms(2,3) by (simp add: sys_recv_def)
  then show ?thesis
    using assms(1,4) by (cases st) (simp_all add: drain_loop.simps [of p io])
qed

lemma drain_loop_chunks:
  assumes "nonblock io" "\<forall>d\<in>set es. d \<noteq> [] \<and> length d \<le> READ_SIZE" "inq io = map RBytes es"
    "\<And>es1 es2. es = es1 @ es2 \<Longrightarrow> es1 \<noteq> [] \<Longrightarrow> es2 \<noteq> [] \<Longrightarrow> \<not> terminal (feeds es1 p)"
    "p_state (feeds es p) \<noteq> ERROR" "es \<noteq> [] \<or> \<not> terminal p"
  shows "drain_loop p io = (if p_state (feeds es p) = COMPLETE then Got_request else Drained,
    feeds es p, io\<lparr>inq := []\<rparr>)"
  using assms
proof (induction es arbitrary: p io)
  case Nil
  then show ?case by (auto simp: drain_loop.simps [of p io] sys_recv_def terminal_def)
next
  case (Cons d es)
  obtain st q where q: "feed d p = (st, q)" by (cases "feed d p")
  let ?io = "io\<lparr>inq := map RBytes es\<rparr>"
  have dr: "drain_loop p io = (if st = R_COMPLETE then (Got_request, q, ?io)
      else if st = R_ERROR then (Got_error, q, ?io) else drain_loop q ?io)"
    by (rule drain_loop_data) (use Cons.prems q in auto)
  have res: "st = parse_result q" using q by (rule feed_result)
  show ?case
  proof (cases "terminal q")
    case True
    then have "es = []" using Cons.prems(4) [of "[d]" es] q by auto
    with True Cons.prems(5) q dr res show ?thesis by (auto simp: terminal_def parse_result_def)
  next
    case False
    then have "drain_loop p io = drain_loop q ?io" using dr res by (simp add: terminal_def parse_result_def)
    also have "\<dots> = (if p_state (feeds es q) = COMPLETE then Got_request else Drained, feeds es q, ?io\<lparr>inq := []\<rparr>)"
    proof (rule Cons.IH)
      show "\<not> terminal (feeds es1 q)" if "es = es1 @ es2" "es1 \<noteq> []" "es2 \<noteq> []" for es1 es2
        using Cons.prems(4) [of "d # es1" es2] that q by simp
    qed (use Cons.prems q False in auto)
    finally show ?thesis using q by simp
  qed
qed

text \<open>What the segments of a message do to a fresh parser.\<close>

lemma delivered_feeds:
  assumes "delivers msg cs"
  shows "p_state (feeds cs initial_parser) = COMPLETE" "p_request (feeds cs initial_parser) = message_request msg"
    and "cs = ds @ es \<Longrightarrow> es \<noteq> [] \<Longrightarrow> \<not> terminal (feeds ds initial_parser)"
proof -
  obtain m t hs b where msg: "msg = (m, t, hs, b)" by (cases msg)
  have fair: "fair_chunks cs" and bytes: "concat cs = render_request m t hs b @ []"
    and send: "sendable m t hs b"
    using assms(1) by (simp_all add: delivers_def msg message_bytes_def)
  note fed = feed_printed [OF send, of "[]", folded bytes]
  have "outcome (feeds cs initial_parser) = outcome (snd (feed (concat cs) initial_parser))"
    using fair by (intro feeds_whole) (auto simp: fair_chunks_def)
  then show "p_state (feeds cs initial_parser) = COMPLETE"
    "p_request (feeds cs initial_parser) = message_request msg"
    by (auto simp: fed outcome_def parse_result_def message_request_def msg split: if_splits)
  show "\<not> terminal (feeds ds initial_parser)" if "cs = ds @ es" "es \<noteq> []"
    using fair_prefix [of ds es] fair that fed by (cases "ds = []") auto
qed

lemma begin_write_delivers:
  assumes st: "store_inv s" and c: "connections_find s fd = Some c" and reg: "ep_interest s fd = Some m"
    and sock: "ec_sock c' = ec_sock c"
    and room: "list_all makes_progress (outq (ep_io s fd))" "length data \<le> rooms (outq (ep_io s fd))"
  shows "\<exists>s'. begin_write fd c' data keep n s = Continues s' \<and>
    write_done fd (c\<lparr>ec_keep_alive := keep, ec_request_count := n\<rparr>) (inq (ep_io s fd))
      (wire (ep_io s fd) @ data) s s'"
proof -
  define d where "d = c'\<lparr>ec_write_buffer := data, ec_write_offset := 0, ec_request_count := n,
    ec_keep_alive := keep, ec_state := WRITING\<rparr>"
  define s2 where "s2 = snd (modify_epoll fd (or EPOLLOUT EPOLLET) (put_connection fd d s))"
  have d: "ec_sock d = ec_sock c" by (simp add: d_def sock)
  have st1: "store_inv (put_connection fd d s)" by (rule store_inv_put [OF st c d])
  have s2: "s2 = (put_connection fd d s)\<lparr>ep_interest := (ep_interest s)(fd \<mapsto> or EPOLLOUT EPOLLET)\<rparr>"
    unfolding s2_def using st1 reg by (subst modify_registered) simp_all
  have st2: "store_inv s2"
    unfolding s2 using store_inv_register [OF st1, of fd "or EPOLLOUT EPOLLET"] store_interest [OF st reg] by simp
  obtain s' where "handle_write fd s2 = Continues s'" "write_done fd d (inq (ep_io s fd)) (to_send d (ep_io s2 fd)) s2 s'"
    using handle_write_delivers [OF st2, of fd d] room by (auto simp: s2 d_def)
  moreover have "to_send d (ep_io s2 fd) = wire (ep_io s fd) @ data" by (simp add: to_send_def s2 d_def)
  ultimately show ?thesis
    unfolding begin_write_def Let_def d_def [symmetric] s2_def [symmetric]
    by (auto simp: write_done_def d s2) (auto simp: d_def sock)
qed

text \<open>A response for which the socket has no room at all stays in the buffer.\<close>

lemma begin_write_blocked:
  assumes st: "store_inv s" and c: "connections_find s fd = Some c" and reg: "ep_interest s fd = Some m"
    and sock: "ec_sock c' = ec_sock c"
    and io: "nonblock (ep_io s fd)" "outq (ep_io s fd) = []" and data: "data \<noteq> []"
  obtains s' d where "begin_write fd c' data keep n s = Continues s'" "connections_find s' fd = Some d"
    "ec_state d = WRITING" "ec_write_buffer d = data" "ec_write_offset d = 0" "ep_io s' fd = ep_io s fd"
proof -
  define d where "d = c'\<lparr>ec_write_buffer := data, ec_write_offset := 0, ec_request_count := n,
    ec_keep_alive := keep, ec_state := WRITING\<rparr>"
  define s2 where "s2 = snd (modify_epoll fd (or EPOLLOUT EPOLLET) (put_connection fd d s))"
  have st1: "store_inv (put_connection fd d s)" by (rule store_inv_put [OF st c]) (simp add: d_def sock)
  have s2: "s2 = (put_connection fd d s)\<lparr>ep_interest := (ep_interest s)(fd \<mapsto> or EPOLLOUT EPOLLET)\<rparr>"
    unfolding s2_def using st1 reg by (subst modify_registered) simp_all
  have "flush_loop data 0 (ep_io s fd) = (Would_block, 0, ep_io s fd)"
    using io data by (simp add: flush_loop.simps [of data 0 "ep_io s fd"] sys_send_def)
  then have "handle_write fd s2 = Continues (put_connection fd (d\<lparr>ec_write_offset := 0\<rparr>)
      (s2\<lparr>ep_io := (ep_io s2)(fd := ep_io s fd)\<rparr>))"
    by (simp add: handle_write_def s2 Let_def) (simp add: d_def)
  then have "begin_write fd c' data keep n s = Continues (put_connection fd (d\<lparr>ec_write_offset := 0\<rparr>)
      (s2\<lparr>ep_io := (ep_io s2)(fd := ep_io s fd)\<rparr>))"
    unfolding begin_write_def Let_def d_def [symmetric] s2_def [symmetric] .
  then show ?thesis by (rule that [of _ "d\<lparr>ec_write_offset := 0\<rparr>"]) (simp_all add: d_def)
qed

section \<open>A server that has accepted a client\<close>

definition sample_new :: EpollServer where
  "sample_new = set_keepalive True 30 1000 (set_router None (new_epoll_server 8080 128 64 9))"

definition sample_results :: start_results where
  "sample_results = \<lparr>r_socket = 3, r_reuse = True, r_bind = 0, r_listen = 0\<rparr>"

definition sample_listening :: EpollServer where
  "sample_listening = snd (epoll_listen sample_results True sample_new)"

definition sample_server :: EpollServer where
  "sample_server = accept_failed (accept_one 5 True sample_listening)"

lemma sample_listening_fields:
  "ep_running sample_listening" "ep_store sample_listening = \<lparr>objs = [0 \<mapsto> 3], open_fds = {3}, bad_closes = 0\<rparr>"
  "ep_interest sample_listening = [3 \<mapsto> EPOLLIN]" "ep_listener sample_listening = \<lparr>l_socket = 0, l_port = 8080, l_backlog = 128\<rparr>"
  "ep_max_events sample_listening = 64" "ep_connections sample_listening = []" "ep_epoll_fd sample_listening = 9"
  "ep_next sample_listening = 2" "ep_io sample_listening = (\<lambda>_. silent_io)(3 := accepted_io)" "ep_router sample_listening = None"
  "ep_max_requests_per_conn sample_listening = 1000" "ep_enable_keepalive sample_listening"
  "ep_epoll_open sample_listening = {9}"
  by (simp_all add: sample_listening_def epoll_listen_def sample_new_def sample_results_def set_keepalive_def
    set_router_def new_epoll_server_def Let_def listener_start_def socket_create_def socket_new_def socket_move_assign_def
    socket_close_def socket_destroy_def fd_of_def is_valid_def on_store_def empty_store_def add_to_epoll_def sys_close_def accepted_io_def fun_eq_iff)

lemma sample_server_fields:
  "ep_running sample_server" "ep_store sample_server = \<lparr>objs = [0 \<mapsto> 3, 3 \<mapsto> 5], open_fds = {5, 3}, bad_closes = 0\<rparr>"
  "ep_interest sample_server = [3 \<mapsto> EPOLLIN, 5 \<mapsto> or EPOLLIN EPOLLET]"
  "ep_connections sample_server = [(5, new_epoll_connection 3)]" "ep_io sample_server = (\<lambda>_. silent_io)(3 := accepted_io, 5 := accepted_io)"
  "ep_router sample_server = None" "ep_max_requests_per_conn sample_server = 1000" "ep_enable_keepalive sample_server"
  "ep_max_events sample_server = 64" "ep_epoll_open sample_server = {9}" and sample_server_listener: "l_socket (ep_listener sample_server) = 0"
  by (simp_all add: sample_server_def accept_one_def sample_listening_fields accept_failed_def Let_def
      listener_accept_def socket_create_def socket_new_def socket_move_new_def socket_close_def socket_destroy_def
      fd_of_def is_valid_def on_store_def add_to_epoll_def sys_close_def fun_eq_iff put_connection_def
      connections_find_def)

lemma sample_accept: "accept_connections [(5, True)] sample_listening = Continues sample_server"
proof -
  have "nonblock (ep_io (accept_one 5 True sample_listening) 3)"
    "fd_of (l_socket (ep_listener (accept_one 5 True sample_listening))) (ep_store (accept_one 5 True sample_listening)) = 3"
    by (simp_all add: accept_one_def sample_listening_fields Let_def listener_accept_def socket_create_def
        socket_new_def socket_move_new_def socket_close_def socket_destroy_def fd_of_def is_valid_def on_store_def
        add_to_epoll_def sys_close_def put_connection_def connections_find_def accepted_io_def fcntl_nonblock_def)
  then have "\<not> listener_blocks (accept_one 5 True sample_listening)" by (simp add: listener_blocks_def Let_def)
  then show ?thesis by (simp add: sample_server_def sample_listening_fields is_valid_def fd_of_def)
qed

lemma sample_new_reach: "epoll_reach fs clock None (epoll_config sample_new) sample_new"
proof (rule reach_init)
  show "epoll_init None (epoll_config sample_new) sample_new"
    unfolding epoll_init_def sample_new_def
    by (intro conjI refl exI; simp add: set_keepalive_def)
qed

lemma sample_reach: "epoll_reach fs clock None (epoll_config sample_new) sample_server"
proof -
  note sample_new_reach
  moreover have "epoll_step fs clock sample_new sample_listening"
    unfolding sample_listening_def
    by (rule epoll_step.listen) (simp add: sample_results_def sample_new_def set_keepalive_def
        set_router_def new_epoll_server_def empty_store_def descriptors_def)
  ultimately have "epoll_reach fs clock None (epoll_config sample_new) sample_listening" by (rule reach_step)
  moreover have "epoll_step fs clock sample_listening sample_server"
  proof (rule epoll_step.events [of _ 3 "[(3, EPOLLIN, [(5, True)])]"])
    show "reported [(3, EPOLLIN, [(5, True)])] sample_listening"
      by (simp add: reported_def reportable_def sample_listening_fields)
    show "handle_events fs clock 3 [(3, EPOLLIN, [(5, True)])] sample_listening = Continues sample_server"
      by (simp add: handle_event_def sample_accept del: accept_connections.simps)
    show "possible_events fs clock 3 [(3, EPOLLIN, [(5, True)])] sample_listening"
      by (simp add: handle_event_def sample_accept descriptors_def sample_listening_fields del: accept_connections.simps)
  qed (simp_all add: sample_listening_fields fd_of_def)
  ultimately show ?thesis by (rule reach_step)
qed

lemma epoll_listen_fd:
  assumes st: "store_inv s" and up: "epoll_listen res mem s = (True, s1)"
  shows "fd_of (l_socket (ep_listener s1)) (ep_store s1) = r_socket res \<and> ep_max_events s1 = ep_max_events s"
proof -
  have tmp: "ep_next s \<noteq> l_socket (ep_listener s)" using st by (simp add: store_inv_def)
  have "fst (listener_start (ep_listener s) (ep_next s) res (ep_store s))"
    using up by (simp add: epoll_listen_def Let_def split: if_splits)
  from listener_start_fd [OF tmp this] show ?thesis
    using up by (auto simp: epoll_listen_def Let_def add_to_epoll_def split: if_splits)
qed

text \<open>What \<open>handle_read\<close> comes to when a request is complete.\<close>

lemma handle_read_request:
  assumes "connections_find s fd = Some c" "drain_loop (ec_parser c) (ep_io s fd) = (Got_request, p, io)"
    and "epoll_serve fs (ep_router s) (p_request p) = Some res"
    and "keep = (ep_enable_keepalive s \<and> should_keep_alive (p_request p))"
  shows "handle_read fs clock fd s = begin_write fd (c\<lparr>ec_parser := p\<lparr>p_request := empty_request\<rparr>\<rparr>)
    (serialize (clock (ec_sock c) (ec_request_count c)) (res\<lparr>rs_keep_alive := keep\<rparr>)) keep
    (ec_request_count c + 1)
    (put_connection fd (c\<lparr>ec_parser := p\<rparr>) (s\<lparr>ep_io := (ep_io s)(fd := io)\<rparr>))"
  using assms by (simp add: handle_read_def Let_def get_request_def)

section \<open>The states of the server\<close>

text \<open>What an entry of the map of connections is.\<close>

definition epoll_entry_ok :: "EpollServer \<Rightarrow> int \<Rightarrow> EpollConnection \<Rightarrow> bool" where
  "epoll_entry_ok s fd c =
     (fd \<in> open_fds (ep_store s) \<and> fd_of (ec_sock c) (ep_store s) = fd \<and>
      (case ec_state c of
         READING \<Rightarrow> ep_interest s fd = Some (or EPOLLIN EPOLLET) \<and> ec_write_buffer c = [] \<and>
                    ec_request_count c < max 1 (ep_max_requests_per_conn s) \<and> parser_inv (ec_parser c)
       | WRITING \<Rightarrow> ep_interest s fd = Some (or EPOLLOUT EPOLLET) \<and>
                    ec_write_offset c < length (ec_write_buffer c)
       | CLOSING \<Rightarrow> False))"

text \<open>C15. Every state of the event-driven server is well formed: each descriptor has one entry, under the
  number its socket owns; a connection reads with an empty write buffer and is registered for
  input, or writes with something left to write and is registered for output, and is never
  \<open>CLOSING\<close>; of the sockets only the listener is open besides the connections, and nothing was closed twice.\<close>

theorem epoll_wellformed:
  assumes "epoll_reach fs clock r config s"
  shows "distinct (map fst (ep_connections s)) \<and>
    (\<forall>(fd, c)\<in>set (ep_connections s). epoll_entry_ok s fd c) \<and>
    open_fds (ep_store s) \<subseteq> insert (fd_of (l_socket (ep_listener s)) (ep_store s)) (fst ` set (ep_connections s)) \<and>
    bad_closes (ep_store s) = 0"
proof -
  have inv: "epoll_inv fs clock r config s" using assms by (rule epoll.reach_inv)
  note st = epoll_inv_store [OF inv]
  have dist: "distinct (map fst (ep_connections s))" using st by (simp add: store_inv_def)
  have "epoll_entry_ok s fd c" if "(fd, c) \<in> set (ep_connections s)" for fd c
  proof -
    have c: "connections_find s fd = Some c" using that dist by (simp add: connections_find_def)
    have "config = epoll_config s" using inv by (simp add: epoll_inv_def inv_but_def settings_def)
    with epoll_inv_conn [OF inv c] store_conn [OF st c] show ?thesis
      by (auto simp: epoll_entry_ok_def conn_inv_def ongoing_def fd_of_def split: EpollState.splits)
  qed
  moreover have "fd \<in> insert (fd_of (l_socket (ep_listener s)) (ep_store s)) (fst ` set (ep_connections s))"
    if open_fd: "fd \<in> open_fds (ep_store s)" for fd
  proof -
    obtain x where x: "objs (ep_store s) x = Some fd" using own_owner [OF store_own [OF st] open_fd] by blast
    then consider "x = l_socket (ep_listener s)" | g c where "connections_find s g = Some c" "ec_sock c = x"
      using st by (auto simp: store_inv_def)
    then show ?thesis
    proof cases
      case (2 g c)
      with store_conn [OF st 2(1)] x have "g = fd" by simp
      with 2 show ?thesis by (force simp: connections_find_def dest: map_of_SomeD)
    qed (use x in \<open>simp add: fd_of_def\<close>)
  qed
  ultimately show ?thesis using dist own_no_bad [OF store_own [OF st]] by auto
qed

theorem epoll_wellformed_witness:
  "epoll_entry_ok sample_server 5 (new_epoll_connection 3) \<and> ep_connections sample_server \<noteq> []"
  using epoll_wellformed [OF sample_reach] by (simp add: sample_server_fields)

text \<open>C10. The event-driven server keeps to the same specification as the threaded one: at every moment,
  whatever the clients send and the kernel reports, each connection has been sent a prefix of a
  transcript the dialogue specification allows for its application and its limits; a limit on the
  requests of a connection that is not positive counts as one, for the server looks at it after a
  request only.\<close>

theorem epoll_protocol:
  assumes "epoll_reach fs clock r config s"
  shows "\<exists>clk rs k. dialogue (epoll_serve fs r) config 0 rs \<and>
    int (length rs) \<le> max 1 (ep_max_requests_per_conn s) \<and> (\<forall>q\<in>set (butlast rs). rs_keep_alive q) \<and>
    wire (ep_io s fd) = take k (transcript clk 0 rs)"
proof -
  have inv: "epoll_inv fs clock r config s" using assms by (rule epoll.reach_inv)
  then have "conforms (epoll_serve fs r) config (wire (ep_io s fd))"
    "config = epoll_config s"
    by (simp_all add: epoll_inv_def inv_but_def settings_def)
  moreover from this obtain clk rs k where rs: "dialogue (epoll_serve fs r) config 0 rs"
    "wire (ep_io s fd) = take k (transcript clk 0 rs)" by (auto simp: conforms_def)
  ultimately show ?thesis
    using dialogue_length [OF rs(1)] dialogue_keep_alive [OF rs(1)]
    by (intro exI [of _ clk] exI [of _ rs] exI [of _ k]) auto
qed

theorem epoll_protocol_witness:
  "\<exists>clk rs k. dialogue (epoll_serve sample_fs None) (epoll_config sample_new) 0 rs \<and>
     int (length rs) \<le> 1000 \<and> wire (ep_io sample_server 5) = take k (transcript clk 0 rs)"
  using epoll_protocol [OF sample_reach [of sample_fs "\<lambda>_ _. 0"], of 5] unfolding sample_server_fields
  by simp blast

section \<open>The thread never waits in a handler\<close>

text \<open>C23. No handler blocks: from any state, \<open>start\<close> runs through every sequence of events the kernel can
  report without waiting in \<open>accept\<close>, \<open>recv\<close> or \<open>send\<close>; only \<open>epoll_wait\<close> waits.  The listener does not
  make it wait either when no client is left, because it is non-blocking.  Given a \<open>max_events\<close> that is
  not negative, the only exceptions that leave \<open>start\<close> are those of the application, and the state it
  returns in satisfies the invariant.\<close>

theorem epoll_never_blocks:
  assumes "epoll_reach fs clock r config s" "0 \<le> ep_max_events s"
    and "possible_start fs clock res mem rounds s"
  shows "case epoll_start fs clock res mem rounds s of
      Continues s' \<Rightarrow> epoll_inv fs clock r config s'
    | Throws \<Rightarrow> \<exists>req. wellformed req \<and> epoll_serve fs r req = None
    | Hangs \<Rightarrow> False"
proof -
  have inv: "epoll_inv fs clock r config s" using assms(1) by (rule epoll.reach_inv)
  obtain up s1 where li: "epoll_listen res mem s = (up, s1)" by (cases "epoll_listen res mem s")
  have inv1: "epoll_inv fs clock r config s1"
    using epoll_inv_listen [OF inv, of res mem] assms(3) li by (simp add: possible_start_def)
  show ?thesis
  proof (cases up)
    case False
    with li inv1 show ?thesis by (simp add: epoll_start_def)
  next
    case True
    have lfd: "fd_of (l_socket (ep_listener s1)) (ep_store s1) = r_socket res"
      and me: "ep_max_events s1 = ep_max_events s"
      using epoll_listen_fd [OF epoll_inv_store [OF inv]] li True by auto
    have "loop_ok fs clock r config (event_loop fs clock (r_socket res) rounds s1)"
      using assms(3) li lfd
      by (intro event_loop_ok [OF inv1]) (simp_all add: possible_start_def listens_on_def listen_fd_of_def)
    with True li lfd me assms(2) show ?thesis
      by (simp add: epoll_start_def loop_ok_def)
  qed
qed

lemma network_id [simp]: "network (\<lambda>fd io. io) s = s"
  by (simp add: network_def)

definition sample_rounds :: "wait_round list" where
  "sample_rounds = [(\<lambda>fd io. io, False, Ready [(3, EPOLLIN, [(5, True)])]), (\<lambda>fd io. io, True, Interrupted)]"

theorem epoll_never_blocks_witness:
  "\<exists>s'. epoll_start sample_fs (\<lambda>_ _. 0) sample_results True sample_rounds sample_new = Continues s' \<and>
     epoll_inv sample_fs (\<lambda>_ _. 0) None (epoll_config sample_new) s'"
proof -
  have "reported [(3, EPOLLIN, [(5, True)])] sample_listening"
    by (simp add: reported_def reportable_def sample_listening_fields)
  then have "possible_start sample_fs (\<lambda>_ _. 0) sample_results True sample_rounds sample_new"
    using sample_listening_fields(2)
    by (simp add: possible_start_def sample_listening_def [symmetric] sample_rounds_def traffic_only_def
        handle_event_def sample_results_def [THEN arg_cong, of r_socket] Let_def sample_accept descriptors_def
        sample_listening_fields(13) del: accept_connections.simps)
      (simp add: sample_new_def set_keepalive_def set_router_def new_epoll_server_def empty_store_def)
  moreover have "epoll_reach sample_fs (\<lambda>_ _. 0) None (epoll_config sample_new) sample_new"
    by (rule sample_new_reach)
  moreover have "0 \<le> ep_max_events sample_new"
    by (simp add: sample_new_def set_keepalive_def set_router_def new_epoll_server_def)
  ultimately show ?thesis
    using epoll_never_blocks [of None "epoll_config sample_new" sample_fs "\<lambda>_ _. 0" sample_new
        sample_results True sample_rounds]
    by (auto simp: epoll_serve_def split: epoll_end.splits)
qed

section \<open>Stopping\<close>

text \<open>C24. After \<open>stop\<close> no connection is left, nothing is registered, and of all descriptors only the epoll
  instance is open; after the destructor that has been closed too, no descriptor is open and no
  object left, and no \<open>close\<close> was ever called on a descriptor that was not open, so each has been
  closed once.\<close>

theorem epoll_stop_clean:
  assumes "epoll_reach fs clock r config s"
  shows "ep_connections (epoll_stop s) = [] \<and> \<not> ep_running (epoll_stop s) \<and>
    ep_interest (epoll_stop s) = (\<lambda>_. None) \<and> open_fds (ep_store (epoll_stop s)) = {} \<and>
    descriptors (epoll_stop s) = {ep_epoll_fd s} - {-1} \<and>
    (\<forall>x. objs (ep_store (epoll_destroy s)) x = None) \<and> descriptors (epoll_destroy s) = {} \<and>
    bad_closes (ep_store (epoll_destroy s)) = 0"
proof -
  have st: "store_inv s" using assms by (rule epoll_inv_store [OF epoll.reach_inv])
  moreover have "ep_epoll_open s = {ep_epoll_fd s} - {-1}" using st by (simp add: store_inv_def)
  ultimately show ?thesis
    using epoll_stop_fields [OF st] epoll_destroy_clean [OF st] by (simp add: descriptors_def)
qed

theorem epoll_stop_clean_witness:
  "descriptors sample_server = {9, 5, 3} \<and> descriptors (epoll_stop sample_server) = {ep_epoll_fd sample_server} - {-1} \<and>
   descriptors (epoll_destroy sample_server) = {} \<and> bad_closes (ep_store (epoll_destroy sample_server)) = 0"
  using epoll_stop_clean [OF sample_reach] by (auto simp: sample_server_fields descriptors_def)

section \<open>Writing and reading make progress\<close>

text \<open>C30. A response the socket had no room for is finished when there is room: the next event sends
  exactly what was left, and then the connection goes back to reading with a fresh parser, or is
  closed if it should not be kept alive or has had its last request.\<close>

theorem epoll_write_completes:
  assumes "epoll_reach fs clock r config s"
    and "connections_find s fd = Some c" "ec_state c = WRITING"
    and "list_all makes_progress (outq (ep_io s fd))"
      "length (ec_write_buffer c) - ec_write_offset c \<le> rooms (outq (ep_io s fd))"
  shows "\<exists>s'. handle_write fd s = Continues s' \<and>
    write_done fd c (inq (ep_io s fd))
      (wire (ep_io s fd) @ drop (ec_write_offset c) (ec_write_buffer c)) s s'"
proof -
  have inv: "epoll_inv fs clock r config s" using assms(1) by (rule epoll.reach_inv)
  have "ep_interest s fd = Some (or EPOLLOUT EPOLLET) \<and> ec_write_offset c \<le> length (ec_write_buffer c)"
    using epoll_inv_conn [OF inv assms(2)] assms(3) by (simp add: conn_inv_def)
  then show ?thesis
    using handle_write_delivers [OF epoll_inv_store [OF inv] assms(2)] assms(4,5) by (simp add: to_send_def)
qed

text \<open>Draining a delivery, or the part of it one event brings.\<close>

lemma drain_delivered:
  assumes msg: "delivers msg (ds @ es @ ts)" "es \<noteq> []"
    and io: "nonblock io" "inq io = map RBytes es"
  defines "p \<equiv> feeds (ds @ es) initial_parser"
  shows "drain_loop (feeds ds initial_parser) io = (if ts = [] then Got_request else Drained, p, io\<lparr>inq := []\<rparr>)"
    and "ts = [] \<Longrightarrow> p_request p = message_request msg"
proof -
  note fed = delivered_feeds [OF msg(1)]
  have p: "feeds es (feeds ds initial_parser) = p" by (simp add: p_def feeds_append)
  have prefix: "\<not> terminal (feeds es1 (feeds ds initial_parser))" if "es = es1 @ es2" "es1 \<noteq> []" "es2 \<noteq> []" for es1 es2
    using fed(3) [of "ds @ es1" "es2 @ ts"] that by (simp add: feeds_append)
  have last: "p_state p = COMPLETE" if "ts = []" using fed(1) that by (simp add: p_def)
  have more: "\<not> terminal p" if "ts \<noteq> []" using fed(3) [of "ds @ es" ts] that by (simp add: p_def)
  have "p_state p \<noteq> ERROR" "p_state p = COMPLETE \<longleftrightarrow> ts = []"
    using last more by (cases "ts = []"; simp add: terminal_def)+
  moreover have "\<forall>d\<in>set es. d \<noteq> [] \<and> length d \<le> READ_SIZE"
    using msg(1) by (auto simp: delivers_def fair_chunks_def BUF_SIZE_def READ_SIZE_def)
  ultimately show "drain_loop (feeds ds initial_parser) io = (if ts = [] then Got_request else Drained, p, io\<lparr>inq := []\<rparr>)"
    using drain_loop_chunks [OF io(1) _ io(2), of "feeds ds initial_parser"] prefix msg(2) by (simp add: p)
  show "ts = [] \<Longrightarrow> p_request p = message_request msg" using fed(2) by (simp add: p_def)
qed

text \<open>C14. Edge-triggered reading loses no segment of a request: whatever part of a well-formed request's
  segments one event brings, the handler takes all of it; when the request is complete its response
  goes out, if the socket has room for it, and until then the connection waits for input with the
  parser of the threaded server.  The segments are those of \<open>fair_chunks\<close>: in a request of more than 8192
  bytes none but the last ends in a CR.\<close>

theorem epoll_answers_request:
  assumes "epoll_reach fs clock r config s"
    and c: "connections_find s fd = Some c" "ec_state c = READING" "ec_parser c = feeds ds initial_parser"
    and msg: "delivers msg (ds @ es @ ts)" "es \<noteq> []" "inq (ep_io s fd) = map RBytes es"
    and res: "epoll_serve fs r (message_request msg) = Some res"
    and keep: "keep = wants_keep_alive config (message_request msg)"
    and reply: "reply = serialize (clock (ec_sock c) (ec_request_count c)) (res\<lparr>rs_keep_alive := keep\<rparr>)"
    and room: "list_all makes_progress (outq (ep_io s fd))" "length reply \<le> rooms (outq (ep_io s fd))"
  shows "\<exists>s'. handle_read fs clock fd s = Continues s' \<and>
    (if ts = []
     then write_done fd (c\<lparr>ec_keep_alive := keep, ec_request_count := ec_request_count c + 1\<rparr>) []
            (wire (ep_io s fd) @ reply) s s'
     else wire (ep_io s' fd) = wire (ep_io s fd) \<and> ep_interest s' fd = Some (or EPOLLIN EPOLLET) \<and>
          connections_find s' fd = Some (c\<lparr>ec_parser := feeds (ds @ es) initial_parser\<rparr>))"
proof -
  have inv: "epoll_inv fs clock r config s" using assms(1) by (rule epoll.reach_inv)
  note st = epoll_inv_store [OF inv]
  have ci: "nonblock (ep_io s fd)" "ep_interest s fd = Some (or EPOLLIN EPOLLET)"
    using epoll_inv_conn [OF inv c(1)] c(2) by (simp_all add: conn_inv_def)
  have set: "ep_router s = r" "config = epoll_config s" using inv by (simp_all add: epoll_inv_def inv_but_def settings_def)
  define p where "p = feeds (ds @ es) initial_parser"
  note drained = drain_delivered [OF msg(1,2) ci(1) msg(3), folded p_def c(3)]
  define c1 where "c1 = c\<lparr>ec_parser := p\<rparr>"
  define s1 where "s1 = put_connection fd c1 (s\<lparr>ep_io := (ep_io s)(fd := (ep_io s fd)\<lparr>inq := []\<rparr>)\<rparr>)"
  have s1: "connections_find s1 fd = Some c1" "ep_interest s1 = ep_interest s" "ep_io s1 fd = (ep_io s fd)\<lparr>inq := []\<rparr>"
    "store_inv s1"
    using store_inv_put [of _ fd c c1] st c by (simp_all add: s1_def c1_def)
  show ?thesis
  proof (cases "ts = []")
    case False
    then have "handle_read fs clock fd s = Continues s1"
      by (simp add: handle_read_def c(1) drained(1) s1_def c1_def)
    with False show ?thesis by (simp add: s1 ci(2)) (simp add: c1_def p_def)
  next
    case True
    let ?c = "c\<lparr>ec_parser := p\<lparr>p_request := empty_request\<rparr>\<rparr>"
    have "handle_read fs clock fd s = begin_write fd ?c reply keep (ec_request_count c + 1) s1"
      unfolding s1_def c1_def reply using drained True res
      by (intro handle_read_request [OF c(1)]) (simp_all add: keep set wants_keep_alive_conj)
    moreover obtain s' where "begin_write fd ?c reply keep (ec_request_count c + 1) s1 = Continues s'"
      "write_done fd (c1\<lparr>ec_keep_alive := keep, ec_request_count := ec_request_count c + 1\<rparr>)
         (inq (ep_io s1 fd)) (wire (ep_io s1 fd) @ reply) s1 s'"
      using begin_write_delivers [OF s1(4,1), of "or EPOLLIN EPOLLET" ?c reply keep "ec_request_count c + 1"] ci(2) room
      by (auto simp: s1 c1_def)
    ultimately show ?thesis
      using True by (auto simp: write_done_def s1) (auto simp: c1_def s1_def)
  qed
qed

text \<open>Examples of both: the sample client on the sample server, with and without room for the answer.\<close>

definition asks :: "send_event list \<Rightarrow> int \<Rightarrow> net_io \<Rightarrow> net_io" where
  "asks room fd io = (if fd = 5 then io\<lparr>inq := [RBytes (message_bytes health_message)], outq := room\<rparr> else io)"

definition sample_reply :: bytes where
  "sample_reply = serialize 0 ((error InternalServerError [])\<lparr>rs_keep_alive :=
     wants_keep_alive (epoll_config sample_new) (message_request health_message)\<rparr>)"

lemma sample_asks_reach:
  "epoll_reach fs clock None (epoll_config sample_new) (network (asks room) sample_server)"
  by (rule reach_step [OF sample_reach epoll_step.network]) (simp add: traffic_only_def asks_def)

lemma sample_asks_fields:
  "connections_find (network (asks room) sample_server) 5 = Some (new_epoll_connection 3)"
  "ep_io (network (asks room) sample_server) 5 =
     accepted_io\<lparr>inq := [RBytes (message_bytes health_message)], outq := room\<rparr>"
  by (simp_all add: network_def connections_find_def asks_def sample_server_fields)

theorem epoll_answers_request_witness:
  "\<exists>s'. handle_read sample_fs (\<lambda>_ _. 0) 5
        (network (asks (replicate (length sample_reply) (SRoom 1))) sample_server) = Continues s' \<and>
     wire (ep_io s' 5) = sample_reply"
proof -
  let ?s = "network (asks (replicate (length sample_reply) (SRoom 1))) sample_server"
  have "\<exists>s'. handle_read sample_fs (\<lambda>_ _. 0) 5 ?s = Continues s' \<and>
    (if ([] :: bytes list) = []
     then write_done 5 ((new_epoll_connection 3)\<lparr>ec_keep_alive :=
              wants_keep_alive (epoll_config sample_new) (message_request health_message),
              ec_request_count := ec_request_count (new_epoll_connection 3) + 1\<rparr>) []
            (wire (ep_io ?s 5) @ sample_reply) ?s s'
     else wire (ep_io s' 5) = wire (ep_io ?s 5) \<and> ep_interest s' 5 = Some (or EPOLLIN EPOLLET) \<and>
          connections_find s' 5 = Some ((new_epoll_connection 3)\<lparr>ec_parser :=
            feeds ([] @ [message_bytes health_message]) initial_parser\<rparr>))"
    by (rule epoll_answers_request [OF sample_asks_reach, where msg = health_message and
          res = "error InternalServerError []"])
      (use health_delivers in \<open>simp_all add: sample_asks_fields new_epoll_connection_def sample_reply_def
        accepted_io_def fcntl_nonblock_def silent_io_def epoll_serve_def list_all_iff makes_progress_def rooms_def\<close>)
  then show ?thesis by (auto simp: write_done_def sample_asks_fields accepted_io_def fcntl_nonblock_def silent_io_def)
qed

lemma sample_asks_drain:
  "drain_loop initial_parser (accepted_io\<lparr>inq := [RBytes (message_bytes health_message)], outq := room\<rparr>) =
     (Got_request, feeds [message_bytes health_message] initial_parser, accepted_io\<lparr>inq := [], outq := room\<rparr>)"
  using drain_delivered [of health_message "[]" "[message_bytes health_message]" "[]"
      "accepted_io\<lparr>inq := [RBytes (message_bytes health_message)], outq := room\<rparr>"] health_delivers
  by (simp add: accepted_io_def fcntl_nonblock_def silent_io_def)

lemma sample_reply_nonempty: "sample_reply \<noteq> []"
  by (simp add: sample_reply_def)

lemma sample_asks_blocked:
  obtains t d where "handle_read sample_fs (\<lambda>_ _. 0) 5 (network (asks []) sample_server) = Continues t"
    "connections_find t 5 = Some d" "ec_state d = WRITING" "ec_write_buffer d = sample_reply"
    "ec_write_offset d = 0" "wire (ep_io t 5) = []"
proof -
  define u where "u = network (asks []) sample_server"
  define c where "c = new_epoll_connection 3"
  define p where "p = feeds [message_bytes health_message] initial_parser"
  define io where "io = accepted_io\<lparr>inq := [], outq := []\<rparr>"
  define u1 where "u1 = put_connection 5 (c\<lparr>ec_parser := p\<rparr>) (u\<lparr>ep_io := (ep_io u)(5 := io)\<rparr>)"
  have st: "store_inv u"
    using sample_asks_reach [of sample_fs "\<lambda>_ _. 0" "[]"] unfolding u_def [symmetric]
    by (intro epoll_inv_store [OF epoll.reach_inv])
  have u: "connections_find u 5 = Some c" "ep_interest u 5 = Some (or EPOLLIN EPOLLET)" "ep_router u = None"
    "ep_enable_keepalive u = enable_keepalive (epoll_config sample_new)"
    using sample_asks_fields(1) [of "[]"]
    by (simp_all add: u_def c_def network_def sample_server_fields sample_new_def set_keepalive_def)
  have c: "ec_parser c = initial_parser" "ec_sock c = 3" "ec_request_count c = 0"
    by (simp_all add: c_def new_epoll_connection_def)
  have st1: "store_inv u1" unfolding u1_def by (rule store_inv_put [of _ _ c]) (simp_all add: st u)
  have dr: "drain_loop (ec_parser c) (ep_io u 5) = (Got_request, p, io)"
    unfolding c u_def sample_asks_fields p_def io_def by (rule sample_asks_drain)
  have req: "p_request p = message_request health_message"
    unfolding p_def by (rule delivered_feeds [OF health_delivers])
  let ?k = "wants_keep_alive (epoll_config sample_new) (message_request health_message)"
  let ?c' = "c\<lparr>ec_parser := p\<lparr>p_request := empty_request\<rparr>\<rparr>"
  have rd: "handle_read sample_fs (\<lambda>_ _. 0) 5 u = begin_write 5 ?c' sample_reply ?k (ec_request_count c + 1) u1"
    unfolding u1_def sample_reply_def
    by (rule handle_read_request [OF u(1) dr])
      (simp_all add: u epoll_serve_def req wants_keep_alive_conj)
  obtain t d where t: "begin_write 5 ?c' sample_reply ?k (ec_request_count c + 1) u1 = Continues t"
    "connections_find t 5 = Some d" "ec_state d = WRITING" "ec_write_buffer d = sample_reply"
    "ec_write_offset d = 0" "ep_io t 5 = ep_io u1 5"
    by (rule begin_write_blocked [OF st1, of 5 "c\<lparr>ec_parser := p\<rparr>" "or EPOLLIN EPOLLET" ?c' sample_reply ?k
          "ec_request_count c + 1"]) (simp_all add: u1_def u io_def accepted_io_def fcntl_nonblock_def silent_io_def sample_reply_nonempty)
  have "wire (ep_io t 5) = []" using t(6) by (simp add: u1_def io_def accepted_io_def fcntl_nonblock_def silent_io_def)
  with t rd show ?thesis by (intro that [of t d]) (simp_all add: u_def)
qed

theorem epoll_write_completes_witness:
  "\<exists>s c s'. connections_find s 5 = Some c \<and> ec_state c = WRITING \<and> ec_write_buffer c = sample_reply \<and>
     handle_write 5 s = Continues s' \<and> wire (ep_io s' 5) = sample_reply"
proof -
  define u where "u = network (asks []) sample_server"
  have u: "ep_running u" "ep_listener u = ep_listener sample_server" "ep_store u = ep_store sample_server"
    "ep_interest u 5 = Some (or EPOLLIN EPOLLET)" "ep_max_events u = 64"
    by (simp_all add: u_def network_def sample_server_fields)
  have ev: "\<not> has_event EPOLLIN (or EPOLLERR EPOLLHUP)" "has_event EPOLLIN EPOLLIN"
    "has_event (or EPOLLIN EPOLLET) EPOLLIN" "\<not> has_event EPOLLIN EPOLLOUT"
    by (simp_all add: has_event_def EPOLLIN_def EPOLLERR_def EPOLLHUP_def EPOLLOUT_def EPOLLET_def)
  obtain t d where t: "handle_read sample_fs (\<lambda>_ _. 0) 5 u = Continues t"
    "connections_find t 5 = Some d" "ec_state d = WRITING" "ec_write_buffer d = sample_reply"
    "ec_write_offset d = 0" "wire (ep_io t 5) = []"
    unfolding u_def by (rule sample_asks_blocked)
  have "epoll_step sample_fs (\<lambda>_ _. 0) u t"
    by (rule epoll_step.events [of _ 3 "[(5, EPOLLIN, [])]"])
      (simp_all add: u ev t(1) reported_def reportable_def handle_event_def sample_server_fields
        sample_server_listener fd_of_def)
  with sample_asks_reach have r: "epoll_reach sample_fs (\<lambda>_ _. 0) None (epoll_config sample_new) t"
    unfolding u_def by (rule reach_step)
  define v where "v = network (\<lambda>fd io. io\<lparr>outq := replicate (length sample_reply) (SRoom 1)\<rparr>) t"
  have v: "epoll_reach sample_fs (\<lambda>_ _. 0) None (epoll_config sample_new) v"
    unfolding v_def by (rule reach_step [OF r epoll_step.network]) (simp add: traffic_only_def)
  have f: "connections_find v 5 = Some d" "wire (ep_io v 5) = []"
    "outq (ep_io v 5) = replicate (length sample_reply) (SRoom 1)"
    using t(2,6) by (simp_all add: v_def network_def connections_find_def)
  have "\<exists>s'. handle_write 5 v = Continues s' \<and> write_done 5 d (inq (ep_io v 5))
      (wire (ep_io v 5) @ drop (ec_write_offset d) (ec_write_buffer d)) v s'"
    by (rule epoll_write_completes [OF v f(1) t(3)])
      (simp_all add: f t(4,5) list_all_iff makes_progress_def rooms_def)
  then show ?thesis using t(3-5) f by (auto simp: write_done_def)
qed

section \<open>Pipelining\<close>

text \<open>Here too pipelined requests are lost: what follows the first request in the same segment is
  neither answered nor kept, the connection goes back to reading with an empty parser.\<close>

theorem epoll_pipelining_lost:
  assumes "epoll_reach fs clock r config s"
    and c: "connections_find s fd = Some c" "ec_state c = READING" "ec_parser c = initial_parser"
    and send: "sendable m t hs b" "length (render_request m t hs b @ rest) \<le> READ_SIZE"
    and inp: "inq (ep_io s fd) = [RBytes (render_request m t hs b @ rest)]"
    and res: "epoll_serve fs r (sent_request m t hs b) = Some res"
    and keep: "keep = wants_keep_alive config (sent_request m t hs b)"
    and reply: "reply = serialize (clock (ec_sock c) (ec_request_count c)) (res\<lparr>rs_keep_alive := keep\<rparr>)"
    and room: "list_all makes_progress (outq (ep_io s fd))" "length reply \<le> rooms (outq (ep_io s fd))"
  shows "\<exists>s'. handle_read fs clock fd s = Continues s' \<and>
    write_done fd (c\<lparr>ec_keep_alive := keep, ec_request_count := ec_request_count c + 1\<rparr>) []
      (wire (ep_io s fd) @ reply) s s'"
proof -
  have inv: "epoll_inv fs clock r config s" using assms(1) by (rule epoll.reach_inv)
  note st = epoll_inv_store [OF inv]
  have ci: "ep_interest s fd = Some (or EPOLLIN EPOLLET)"
    using epoll_inv_conn [OF inv c(1)] c(2) by (simp_all add: conn_inv_def)
  have set: "ep_router s = r" "config = epoll_config s" using inv by (simp_all add: epoll_inv_def inv_but_def settings_def)
  let ?d = "render_request m t hs b @ rest" and ?io = "(ep_io s fd)\<lparr>inq := []\<rparr>"
  obtain p where p: "feed ?d initial_parser = (R_COMPLETE, p)" "p_request p = sent_request m t hs b"
    using feed_printed [OF send(1), of rest] by simp
  have "?d \<noteq> []" by (simp add: render_request_def)
  then have dr: "drain_loop (ec_parser c) (ep_io s fd) = (Got_request, p, ?io)"
    using drain_loop_data [OF _ send(2) inp p(1)] by (simp add: c(3))
  let ?s1 = "put_connection fd (c\<lparr>ec_parser := p\<rparr>) (s\<lparr>ep_io := (ep_io s)(fd := ?io)\<rparr>)"
  have st1: "store_inv ?s1" by (rule store_inv_put [of _ _ c]) (simp_all add: st c)
  have "handle_read fs clock fd s = begin_write fd (c\<lparr>ec_parser := p\<lparr>p_request := empty_request\<rparr>\<rparr>) reply keep
      (ec_request_count c + 1) ?s1"
    unfolding reply
    by (rule handle_read_request [OF c(1) dr]) (use p(2) res keep set in \<open>simp_all add: wants_keep_alive_conj\<close>)
  moreover obtain s' where "begin_write fd (c\<lparr>ec_parser := p\<lparr>p_request := empty_request\<rparr>\<rparr>) reply keep
      (ec_request_count c + 1) ?s1 = Continues s'"
    "write_done fd (c\<lparr>ec_parser := p, ec_keep_alive := keep, ec_request_count := ec_request_count c + 1\<rparr>)
       [] (wire (ep_io s fd) @ reply) ?s1 s'"
    using begin_write_delivers [OF st1, of fd "c\<lparr>ec_parser := p\<rparr>" "or EPOLLIN EPOLLET"
        "c\<lparr>ec_parser := p\<lparr>p_request := empty_request\<rparr>\<rparr>" reply keep "ec_request_count c + 1"] ci room
    by auto
  ultimately show ?thesis by (auto simp: write_done_def)
qed

definition asks_twice :: "int \<Rightarrow> net_io \<Rightarrow> net_io" where
  "asks_twice fd io =
     (if fd = 5 then io\<lparr>inq := [RBytes (message_bytes health_message @ message_bytes health_message)],
        outq := replicate (length sample_reply) (SRoom 1)\<rparr> else io)"

theorem epoll_pipelining_lost_witness:
  "\<exists>s'. handle_read sample_fs (\<lambda>_ _. 0) 5 (network asks_twice sample_server) = Continues s' \<and>
     wire (ep_io s' 5) = sample_reply \<and> inq (ep_io s' 5) = []"
proof -
  define u where "u = network asks_twice sample_server"
  have r: "epoll_reach sample_fs (\<lambda>_ _. 0) None (epoll_config sample_new) u"
    unfolding u_def by (rule reach_step [OF sample_reach epoll_step.network])
      (simp add: traffic_only_def asks_twice_def)
  have f: "connections_find u 5 = Some (new_epoll_connection 3)" "wire (ep_io u 5) = []"
    "outq (ep_io u 5) = replicate (length sample_reply) (SRoom 1)"
    "inq (ep_io u 5) = [RBytes (message_bytes health_message @ message_bytes health_message)]"
    by (simp_all add: u_def network_def connections_find_def asks_twice_def sample_server_fields accepted_io_def fcntl_nonblock_def silent_io_def)
  note health = health_message_def message_bytes_def message_request_def
  have "sendable ''GET'' ''/health'' [(''Connection'', ''close'')] []"
    using health_delivers by (simp add: delivers_def health)
  moreover have "length (message_bytes health_message @ message_bytes health_message) \<le> READ_SIZE"
    by (simp add: health render_request_def request_line_def render_fields_def field_line_def READ_SIZE_def)
  ultimately have "\<exists>s'. handle_read sample_fs (\<lambda>_ _. 0) 5 u = Continues s' \<and>
      write_done 5 ((new_epoll_connection 3)\<lparr>ec_keep_alive :=
          wants_keep_alive (epoll_config sample_new) (message_request health_message),
          ec_request_count := ec_request_count (new_epoll_connection 3) + 1\<rparr>) []
        (wire (ep_io u 5) @ sample_reply) u s'"
    by (intro epoll_pipelining_lost [OF r f(1), where m = "''GET''" and t = "''/health''" and
          hs = "[(''Connection'', ''close'')]" and b = "[]" and rest = "message_bytes health_message" and
          res = "error InternalServerError []"])
      (simp_all add: f health sample_reply_def new_epoll_connection_def epoll_serve_def list_all_iff
        makes_progress_def rooms_def)
  then have "\<exists>s'. handle_read sample_fs (\<lambda>_ _. 0) 5 u = Continues s' \<and>
      wire (ep_io s' 5) = sample_reply \<and> inq (ep_io s' 5) = []"
    by (auto simp: write_done_def f(2))
  then show ?thesis by (simp only: u_def)
qed

end
