(* ===== verification/Front_End.thy ===== *)
theory Front_End
  imports Epoll_Events
begin

text \<open>
  What a client can rely on, whichever of the two servers it talks to: the contract both owe
  (everything a connection shows is the beginning of an allowed dialogue with an application
  whose responses can be put on the wire), what follows for a client that reads responses off
  the stream, and that the threaded and the event-driven server meet the contract.
\<close>

section \<open>The beginning of a dialogue\<close>

lemma dialogue_take: "dialogue serve config n rs \<Longrightarrow> dialogue serve config n (take m rs)"
proof (induction arbitrary: m rule: dialogue.induct)
  case (silent n)
  show ?case by (simp add: dialogue.silent)
next
  case (refused n code)
  then show ?case by (cases m) (simp_all add: dialogue.silent dialogue.refused)
next
  case (answered_last n req res)
  then show ?case
    by (cases m) (simp_all add: dialogue.silent dialogue.answered_last [of n config req serve res])
next
  case (answered n req res rs)
  then show ?case
    by (cases m) (simp_all add: dialogue.silent dialogue.answered [of n config req serve res])
qed

text \<open>A stream cut anywhere is some whole responses and a proper part of the next one.\<close>

definition part_of_response :: "bytes \<Rightarrow> bool" where
  "part_of_response s =
     (s = [] \<or> (\<exists>now r j. s = take j (serialize now r) \<and> j < length (serialize now r)))"

lemma transcript_take:
  "\<exists>m rest. take k (transcript clk n rs) = transcript clk n (take m rs) @ rest \<and> m \<le> length rs \<and>
     part_of_response rest"
proof (induction rs arbitrary: n k)
  case Nil
  then show ?case by (simp add: part_of_response_def)
next
  case (Cons r rs)
  show ?case
  proof (cases "k < length (serialize (clk n) r)")
    case True
    then have "take k (transcript clk n (r # rs)) = transcript clk n (take 0 (r # rs)) @ take k (serialize (clk n) r)"
      by simp
    with True show ?thesis
      unfolding part_of_response_def by (intro exI [of _ 0] exI [of _ "take k (serialize (clk n) r)"]) auto
  next
    case False
    let ?l = "length (serialize (clk n) r)"
    obtain m rest where m: "take (k - ?l) (transcript clk (n + 1) rs) = transcript clk (n + 1) (take m rs) @ rest"
      "m \<le> length rs" "part_of_response rest" using Cons.IH by blast
    with False show ?thesis by (intro exI [of _ "Suc m"] exI [of _ rest]) simp
  qed
qed

section \<open>The contract\<close>

lemma reason_phrase_small: "length (reason_phrase c) < 2 ^ 64"
  by (cases c) simp_all

locale front_end = application serve for serve :: "Request \<Rightarrow> Response option" +
  fixes config :: Config and shows_client :: "bytes \<Rightarrow> bool"
  assumes conforming: "shows_client w \<Longrightarrow> conforms serve config w"
begin

text \<open>Bodies a \<open>Content-Length\<close> of 64 bits can describe.\<close>

lemma dialogue_bodies:
  "dialogue serve config n rs \<Longrightarrow> (\<And>req res. wellformed req \<Longrightarrow> serve req = Some res \<Longrightarrow> length (rs_body res) < 2 ^ 64) \<Longrightarrow>
     r \<in> set rs \<Longrightarrow> length (rs_body r) < 2 ^ 64"
  by (induction rule: dialogue.induct) (auto simp: reason_phrase_small [simplified])

text \<open>A client that reads responses off the stream gets those of the dialogue, in order, and is left
  with part of one at most.\<close>

lemma client_reads:
  assumes "shows_client w" and small: "\<And>req res. wellformed req \<Longrightarrow> serve req = Some res \<Longrightarrow> length (rs_body res) < 2 ^ 64"
  obtains clk rs rest where "dialogue serve config 0 rs" "w = transcript clk 0 rs @ rest"
    "read_responses (length rs) w = Some (seen_all clk 0 rs, rest)" "part_of_response rest"
proof -
  obtain clk rs k where d: "dialogue serve config 0 rs" "w = take k (transcript clk 0 rs)"
    using conforming [OF assms(1)] by (auto simp: conforms_def)
  obtain m rest where m: "take k (transcript clk 0 rs) = transcript clk 0 (take m rs) @ rest" "part_of_response rest"
    using transcript_take [of k clk 0 rs] by blast
  have dm: "dialogue serve config 0 (take m rs)" using d(1) by (rule dialogue_take)
  have "read_responses (length (take m rs)) w = Some (seen_all clk 0 (take m rs), rest)"
    unfolding d(2) m(1) by (rule dialogue_readable [OF dm]) (use dialogue_bodies [OF dm] small in blast)
  then show ?thesis using that [of "take m rs" clk rest] dm d(2) m by simp
qed

end

section \<open>Both servers\<close>

text \<open>What a handler of the threaded server can have sent on a fresh connection.\<close>

definition threaded_shows :: "filesystem \<Rightarrow> Config \<Rightarrow> Router \<Rightarrow> bytes \<Rightarrow> bool" where
  "threaded_shows fs config router w =
     (\<exists>clock fd io e io'. fd \<noteq> -1 \<and> wire io = [] \<and>
        handle_connection fs clock config router fd io = (e, io') \<and> w = wire io')"

lemma threaded_conforms:
  assumes "threaded_shows fs config router w"
  shows "conforms (route fs router) config w"
proof -
  obtain clock fd io e io' where h: "fd \<noteq> -1" "wire io = []" "w = wire io'"
    "handle_connection fs clock config router fd io = (e, io')"
    using assms by (auto simp: threaded_shows_def)
  let ?c = "new_connection fd"
  have c: "is_open ?c" using h(1) by simp
  define io1 where "io1 = set_write_timeout ?c (write_timeout_sec config) (set_read_timeout ?c (read_timeout_sec config) io)"
  have "connection_loop fs clock config router ?c initial_parser 0 io1 = (e, io')"
    using h(4) by (simp add: handle_connection_def Let_def io1_def)
  from connection_loop_says [OF c this] obtain rs k where
    rs: "dialogue (route fs router) config 0 rs" "wire io' = wire io1 @ take k (transcript clock 0 rs)"
    by (auto simp: says_def)
  have "wire io1 = []" using h(2) by (simp add: io1_def set_write_timeout_def set_read_timeout_def)
  with rs h(3) show ?thesis unfolding conforms_def by (intro exI [of _ clock] exI [of _ rs] exI [of _ k]) simp
qed

text \<open>What a connection of the event-driven server can have been sent.\<close>

definition epoll_shows :: "filesystem \<Rightarrow> Config \<Rightarrow> Router option \<Rightarrow> bytes \<Rightarrow> bool" where
  "epoll_shows fs config r w = (\<exists>clock s fd. epoll_reach fs clock r config s \<and> w = wire (ep_io s fd))"

lemma epoll_conforms:
  "epoll_shows fs config r w \<Longrightarrow> conforms (epoll_serve fs r) config w"
  by (auto simp: epoll_shows_def epoll_inv_def inv_but_def dest!: epoll.reach_inv)

lemma epoll_serve_some [simp]: "epoll_serve fs (Some router) = route fs router"
  by (rule ext) (simp add: epoll_serve_def)

interpretation threaded: front_end "route fs (default_router cfg)" config
    "threaded_shows fs config (default_router cfg)" for fs cfg config
  by unfold_locales (rule threaded_conforms)

interpretation event_driven: front_end "route fs (default_router cfg)" config
    "epoll_shows fs config (Some (default_router cfg))" for fs cfg config
  by unfold_locales (use epoll_conforms [of fs config "Some (default_router cfg)"] in simp)

section \<open>Bodies of the default application\<close>

lemma method_not_allowed_body [simp]: "rs_body (method_not_allowed m) = ''Method Not Allowed''"
  by (simp add: factory_defs)

lemma make_response_no_content [simp]: "rs_body (make_response NoContent) = []"
  by (simp add: make_response_def Let_def new_response_def)

lemma static_body_small:
  assumes "\<And>p c. fs_read fs p = Some c \<Longrightarrow> length c < 2 ^ 64" "serve_static_file fs m path = Some res"
  shows "length (rs_body res) < 2 ^ 64"
  using assms
  by (auto simp: serve_static_file_def Let_def ok_text_def not_found_def reason_phrase_small [simplified]
      split: if_splits option.splits)

lemma default_handler_small:
  assumes "rt \<in> set (routes (default_router cfg))" "length (rq_body req) < 2 ^ 64"
  shows "length (rs_body (run_handler rt req)) < 2 ^ 64"
  using assms
  by (auto simp: default_router_def setup_routes_def add_route_def add_static_def new_router_def run_handler_def)

lemma default_body_small:
  assumes files: "\<And>p c. fs_read fs p = Some c \<Longrightarrow> length c < 2 ^ 64"
    and req: "wellformed req" and res: "route fs (default_router cfg) req = Some res"
  shows "length (rs_body res) < 2 ^ 64"
proof -
  have "length (rq_body req) < 2 ^ 64" using req by (simp add: wellformed_def valid_body_def MAX_BODY_SIZE_def)
  note handler = default_handler_small [OF _ this, of _ cfg]
  show ?thesis
    using res handler static_body_small [OF files]
    by (auto simp: route_route_spec route_spec_def find_Some_iff not_found_def split: option.splits if_splits)
qed

end
