(* ===== verification/Thread_Pool.thy ===== *)
theory Thread_Pool
  imports Prelude
begin

text \<open>
  \<open>include/server/thread_pool.hpp\<close> and \<open>src/server/thread_pool.cpp\<close>: a bounded queue of tasks
  and the threads that serve it.  A thread is a program counter; one step is what it does
  between two points where another thread can interfere.  Tasks are numbers, and what a task
  does is the business of its owner.  \<open>n\<close> is the number of workers, \<open>accepted\<close>, \<open>started\<close> and
  \<open>finished\<close> are history.
\<close>

section \<open>State\<close>

text \<open>Where a worker stands in \<open>worker_loop\<close>: at the head of the loop, about to lock, evaluating the
  predicate of \<open>cv_.wait\<close>, about to block (the predicate was false), blocked, past the wait,
  holding a task, running it, returned.\<close>

datatype pc = At_loop | Acquire | In_wait | Blocking | Waiting | Woken | Taken nat | Running nat | Exited

text \<open>Where \<open>shutdown\<close> stands: not called, after \<open>exchange\<close>, in \<open>workers_.clear()\<close> between two
  threads, joining one, returned.\<close>

datatype shut_pc = Not_called | Exchanged | Clearing | Joining nat | Shut

record pool =
  tasks :: "nat list"
  mutex :: "nat option"
  stop :: bool
  active_count :: nat
  pcs :: "nat \<Rightarrow> pc"
  stop_req :: "nat set"
  notifies :: nat
  shut :: shut_pc
  joined :: "nat set"
  accepted :: "nat list"
  started :: "nat list"
  finished :: "nat list"

definition goto :: "nat \<Rightarrow> pc \<Rightarrow> pool \<Rightarrow> pool" where
  "goto i c s = s\<lparr>pcs := (pcs s)(i := c)\<rparr>"

definition new_pool :: pool where
  "new_pool = \<lparr>tasks = [], mutex = None, stop = False, active_count = 0, pcs = (\<lambda>_. At_loop),
     stop_req = {}, notifies = 0, shut = Not_called, joined = {}, accepted = [], started = [],
     finished = []\<rparr>"

section \<open>Operations\<close>

text \<open>The critical section of \<open>enqueue\<close>; None while the mutex is held.  After a push the caller
  still owes a \<open>notify_one\<close>.\<close>

definition enqueue :: "nat \<Rightarrow> nat \<Rightarrow> pool \<Rightarrow> (bool \<times> pool) option" where
  "enqueue max_queue_size t s =
     (if mutex s \<noteq> None then None
      else if stop s then Some (False, s)
      else if length (tasks s) \<ge> max_queue_size then Some (False, s)
      else Some (True, s\<lparr>tasks := tasks s @ [t], accepted := accepted s @ [t],
                         notifies := Suc (notifies s)\<rparr>))"

text \<open>One step of \<open>worker_loop\<close>; None while the worker cannot move by itself.\<close>

definition wait_predicate :: "nat \<Rightarrow> pool \<Rightarrow> bool" where
  "wait_predicate i s = (stop s \<or> tasks s \<noteq> [] \<or> i \<in> stop_req s)"

definition take_task :: "nat \<Rightarrow> pool \<Rightarrow> pool" where
  "take_task i s =
     (if (stop s \<or> i \<in> stop_req s) \<and> tasks s = [] then goto i Exited (s\<lparr>mutex := None\<rparr>)
      else
        (case tasks s of
           [] \<Rightarrow> goto i At_loop (s\<lparr>mutex := None\<rparr>)
         | t # ts \<Rightarrow> goto i (Taken t) (s\<lparr>tasks := ts, started := started s @ [t], mutex := None\<rparr>)))"

definition worker_step :: "nat \<Rightarrow> pool \<Rightarrow> pool option" where
  "worker_step i s =
     (case pcs s i of
        At_loop \<Rightarrow> Some (goto i (if i \<in> stop_req s then Exited else Acquire) s)
      | Acquire \<Rightarrow> if mutex s = None then Some (goto i In_wait (s\<lparr>mutex := Some i\<rparr>)) else None
      | In_wait \<Rightarrow> Some (goto i (if wait_predicate i s then Woken else Blocking) s)
      | Blocking \<Rightarrow> Some (goto i Waiting (s\<lparr>mutex := None\<rparr>))
      | Waiting \<Rightarrow> None
      | Woken \<Rightarrow> Some (take_task i s)
      | Taken t \<Rightarrow> Some (goto i (Running t) (s\<lparr>active_count := active_count s + 1\<rparr>))
      | Running t \<Rightarrow> Some (goto i At_loop (s\<lparr>active_count := active_count s - 1,
                                             finished := finished s @ [t]\<rparr>))
      | Exited \<Rightarrow> None)"

text \<open>\<open>shutdown\<close>: the exchange, then \<open>notify_all\<close>, then for each thread a stop request and a join.\<close>

definition shutdown_exchange :: "pool \<Rightarrow> pool" where
  "shutdown_exchange s = (if \<not> stop s then s\<lparr>stop := True, shut := Exchanged\<rparr> else s)"

definition notify_all :: "pool \<Rightarrow> pool" where
  "notify_all s =
     s\<lparr>pcs := (\<lambda>i. if pcs s i = Waiting then Acquire else pcs s i), shut := Clearing\<rparr>"

definition request_stop :: "nat \<Rightarrow> pool \<Rightarrow> pool" where
  "request_stop i s = s\<lparr>stop_req := insert i (stop_req s), shut := Joining i\<rparr>"

definition join_worker :: "nat \<Rightarrow> pool \<Rightarrow> pool" where
  "join_worker i s = s\<lparr>joined := insert i (joined s), shut := Clearing\<rparr>"

text \<open>The observers; \<open>queue_size\<close> takes the mutex, the other two read an atomic.\<close>

definition queue_size :: "pool \<Rightarrow> nat option" where
  "queue_size s = (if mutex s \<noteq> None then None else Some (length (tasks s)))"

definition active_workers :: "pool \<Rightarrow> nat" where
  "active_workers s = active_count s"

definition is_running :: "pool \<Rightarrow> bool" where
  "is_running s = (\<not> stop s)"

section \<open>The system\<close>

text \<open>Spurious wake-ups are a step of their own: the language permits them and promises none.\<close>

inductive pool_step :: "nat \<Rightarrow> nat \<Rightarrow> pool \<Rightarrow> pool \<Rightarrow> bool" for n :: nat and m :: nat where
  worker: "i < n \<Longrightarrow> worker_step i s = Some s' \<Longrightarrow> pool_step n m s s'"
| spurious: "i < n \<Longrightarrow> pcs s i = Waiting \<Longrightarrow> pool_step n m s (goto i Acquire s)"
| enqueue: "enqueue m t s = Some (r, s') \<Longrightarrow> pool_step n m s s'"
| notify_one: "0 < notifies s \<Longrightarrow> i < n \<Longrightarrow> pcs s i = Waiting \<Longrightarrow>
    pool_step n m s (goto i Acquire (s\<lparr>notifies := notifies s - 1\<rparr>))"
| notify_none: "0 < notifies s \<Longrightarrow> \<forall>i<n. pcs s i \<noteq> Waiting \<Longrightarrow>
    pool_step n m s (s\<lparr>notifies := notifies s - 1\<rparr>)"
| exchange: "pool_step n m s (shutdown_exchange s)"
| wake: "shut s = Exchanged \<Longrightarrow> pool_step n m s (notify_all s)"
| request: "shut s = Clearing \<Longrightarrow> i < n \<Longrightarrow> i \<notin> joined s \<Longrightarrow> pool_step n m s (request_stop i s)"
| join: "shut s = Joining i \<Longrightarrow> pcs s i = Exited \<Longrightarrow> pool_step n m s (join_worker i s)"
| return: "shut s = Clearing \<Longrightarrow> joined s = {..<n} \<Longrightarrow> pool_step n m s (s\<lparr>shut := Shut\<rparr>)"

inductive_cases pool_stepE: "pool_step n m s s'"

abbreviation pool_reach :: "nat \<Rightarrow> nat \<Rightarrow> pool \<Rightarrow> bool" where
  "pool_reach n m \<equiv> reach (\<lambda>s. s = new_pool) (pool_step n m)"

lemma goto_fields [pool_simps, simp]:
  "tasks (goto i c s) = tasks s" "mutex (goto i c s) = mutex s" "stop (goto i c s) = stop s"
  "active_count (goto i c s) = active_count s" "pcs (goto i c s) = (pcs s)(i := c)"
  "stop_req (goto i c s) = stop_req s" "notifies (goto i c s) = notifies s"
  "shut (goto i c s) = shut s" "joined (goto i c s) = joined s"
  "accepted (goto i c s) = accepted s" "started (goto i c s) = started s"
  "finished (goto i c s) = finished s"
  by (simp_all add: goto_def)

section \<open>Mutual exclusion and the stop protocol\<close>

definition holds_mutex :: "pc \<Rightarrow> bool" where
  "holds_mutex c = (c \<in> {In_wait, Blocking, Woken})"

definition pool_inv :: "nat \<Rightarrow> pool \<Rightarrow> bool" where
  "pool_inv n s =
     ((\<forall>i. holds_mutex (pcs s i) \<longleftrightarrow> mutex s = Some i) \<and>
      (\<forall>i. pcs s i = Blocking \<longrightarrow> tasks s = []) \<and>
      (\<forall>i\<ge>n. pcs s i = At_loop) \<and>
      (\<forall>i. pcs s i = Exited \<longrightarrow> stop s) \<and>
      (stop_req s \<noteq> {} \<longrightarrow> stop s) \<and>
      (shut s = Not_called \<longleftrightarrow> \<not> stop s) \<and>
      (\<forall>i\<in>joined s. i < n \<and> pcs s i = Exited) \<and>
      (shut s = Shut \<longrightarrow> joined s = {..<n}) \<and>
      (\<forall>i. shut s = Joining i \<longrightarrow> i < n))"

text \<open>The moves a worker has, one case each.\<close>

lemma worker_stepE:
  assumes "worker_step i s = Some s'"
  obtains (leave) "pcs s i = At_loop" "i \<in> stop_req s" "s' = goto i Exited s"
    | (again) "pcs s i = At_loop" "i \<notin> stop_req s" "s' = goto i Acquire s"
    | (lock) "pcs s i = Acquire" "mutex s = None" "s' = goto i In_wait (s\<lparr>mutex := Some i\<rparr>)"
    | (ready) "pcs s i = In_wait" "wait_predicate i s" "s' = goto i Woken s"
    | (unready) "pcs s i = In_wait" "\<not> wait_predicate i s" "s' = goto i Blocking s"
    | (block) "pcs s i = Blocking" "s' = goto i Waiting (s\<lparr>mutex := None\<rparr>)"
    | (last) "pcs s i = Woken" "stop s \<or> i \<in> stop_req s" "tasks s = []"
        "s' = goto i Exited (s\<lparr>mutex := None\<rparr>)"
    | (empty) "pcs s i = Woken" "\<not> stop s" "tasks s = []" "s' = goto i At_loop (s\<lparr>mutex := None\<rparr>)"
    | (pop) t ts where "pcs s i = Woken" "tasks s = t # ts"
        "s' = goto i (Taken t) (s\<lparr>tasks := ts, started := started s @ [t], mutex := None\<rparr>)"
    | (begin_task) t where "pcs s i = Taken t"
        "s' = goto i (Running t) (s\<lparr>active_count := active_count s + 1\<rparr>)"
    | (end_task) t where "pcs s i = Running t"
        "s' = goto i At_loop (s\<lparr>active_count := active_count s - 1, finished := finished s @ [t]\<rparr>)"
proof (cases "pcs s i")
  case At_loop
  then show ?thesis
    using assms by (cases "i \<in> stop_req s") (simp_all add: worker_step_def leave again)
next
  case Acquire
  then show ?thesis
    using assms by (cases "mutex s = None") (simp_all add: worker_step_def lock)
next
  case In_wait
  then show ?thesis
    using assms by (cases "wait_predicate i s") (simp_all add: worker_step_def ready unready)
next
  case Woken
  then have s': "s' = take_task i s" using assms by (simp add: worker_step_def)
  show ?thesis
  proof (cases "tasks s")
    case Nil
    with Woken s' show ?thesis
      by (cases "stop s \<or> i \<in> stop_req s") (auto simp: take_task_def intro: last empty)
  next
    case (Cons t ts)
    with Woken s' show ?thesis by (intro pop [of t ts]) (simp_all add: take_task_def)
  qed
next
  case Blocking
  then show ?thesis using assms by (intro block) (simp_all add: worker_step_def)
next
  case (Taken t)
  then show ?thesis using assms by (intro begin_task) (auto simp: worker_step_def)
next
  case (Running t)
  then show ?thesis using assms by (intro end_task) (auto simp: worker_step_def)
next
  case Waiting
  with assms have False by (simp add: worker_step_def)
  then show ?thesis ..
next
  case Exited
  with assms have False by (simp add: worker_step_def)
  then show ?thesis ..
qed

lemma pool_inv_goto:
  assumes inv: "pool_inv n s" and i: "i < n" "holds_mutex c = holds_mutex (pcs s i)"
    "c \<noteq> Blocking \<or> tasks s = []" "c = Exited \<longrightarrow> stop s" "pcs s i \<noteq> Exited"
  shows "pool_inv n (goto i c s)"
proof -
  have "i \<notin> joined s" using inv i(5) by (auto simp: pool_inv_def)
  then show ?thesis using inv i(1-4) by (simp add: pool_inv_def) blast
qed

lemma pool_inv_lock:
  "pool_inv n s \<Longrightarrow> i < n \<Longrightarrow> pcs s i = Acquire \<Longrightarrow> mutex s = None \<Longrightarrow>
     pool_inv n (goto i In_wait (s\<lparr>mutex := Some i\<rparr>))"
  by (auto simp: pool_inv_def holds_mutex_def)

lemma pool_inv_unlock:
  assumes "pool_inv n s" "i < n" "holds_mutex (pcs s i)" "\<not> holds_mutex c" "c = Exited \<longrightarrow> stop s"
  shows "pool_inv n (goto i c (s\<lparr>mutex := None\<rparr>))"
proof -
  have "mutex s = Some i" using assms by (auto simp: pool_inv_def)
  then have "\<not> holds_mutex (pcs s j)" if "j \<noteq> i" for j
    using assms(1) that by (auto simp: pool_inv_def)
  moreover have "pcs s i \<noteq> Exited" using assms(3) by (auto simp: holds_mutex_def)
  ultimately show ?thesis using assms by (auto simp: pool_inv_def holds_mutex_def)
qed

lemma pool_inv_pop:
  "pool_inv n s \<Longrightarrow> tasks s \<noteq> [] \<Longrightarrow> pool_inv n (s\<lparr>tasks := ts, started := st\<rparr>)"
  by (simp add: pool_inv_def)

lemma pool_inv_update:
  "pool_inv n (s\<lparr>active_count := a\<rparr>) = pool_inv n s"
  "pool_inv n (s\<lparr>finished := f\<rparr>) = pool_inv n s"
  "pool_inv n (s\<lparr>notifies := k\<rparr>) = pool_inv n s"
  "pool_inv n (s\<lparr>accepted := ac\<rparr>) = pool_inv n s"
  by (simp_all add: pool_inv_def)

lemma pool_inv_worker:
  assumes inv: "pool_inv n s" and i: "i < n" and step: "worker_step i s = Some s'"
  shows "pool_inv n s'"
  using step
proof (cases rule: worker_stepE)
  case leave
  then have "stop s" using inv by (auto simp: pool_inv_def)
  with leave inv i show ?thesis by (auto intro!: pool_inv_goto simp: holds_mutex_def)
next
  case lock
  with inv i show ?thesis by (simp add: pool_inv_lock)
next
  case block
  with pool_inv_unlock [OF inv i, of Waiting] show ?thesis
    by (simp add: holds_mutex_def)
next
  case last
  then have "stop s" using inv by (auto simp: pool_inv_def)
  with last pool_inv_unlock [OF inv i, of Exited] show ?thesis
    by (simp add: holds_mutex_def)
next
  case empty
  with pool_inv_unlock [OF inv i, of At_loop] show ?thesis
    by (simp add: holds_mutex_def)
next
  case (pop t ts)
  then have "pool_inv n (s\<lparr>tasks := ts, started := started s @ [t]\<rparr>)"
    using inv by (simp add: pool_inv_pop)
  from pool_inv_unlock [OF this i, of "Taken t"] pop show ?thesis by (simp add: holds_mutex_def)
qed (use inv i in \<open>auto intro!: pool_inv_goto simp: holds_mutex_def wait_predicate_def pool_inv_update\<close>)

lemma enqueueE:
  assumes "enqueue m t s = Some (r, s')"
  obtains (refused) "\<not> r" "s' = s" "stop s \<or> m \<le> length (tasks s)"
    | (pushed) "r" "mutex s = None" "\<not> stop s" "length (tasks s) < m"
        "s' = s\<lparr>tasks := tasks s @ [t], accepted := accepted s @ [t], notifies := Suc (notifies s)\<rparr>"
  using assms by (auto simp: enqueue_def split: if_splits)

lemma pool_inv_enqueue:
  assumes inv: "pool_inv n s" and step: "enqueue m t s = Some (r, s')"
  shows "pool_inv n s'"
  using step
proof (cases rule: enqueueE)
  case refused
  with inv show ?thesis by simp
next
  case pushed
  then have "pcs s j \<noteq> Blocking" for j
    using inv by (force simp: pool_inv_def holds_mutex_def)
  with inv pushed show ?thesis by (simp add: pool_inv_def)
qed

lemma pool_inv_notify_all: "pool_inv n s \<Longrightarrow> shut s = Exchanged \<Longrightarrow> pool_inv n (notify_all s)"
proof -
  have c: "holds_mutex (if c = Waiting then Acquire else c) = holds_mutex c"
    "(if c = Waiting then Acquire else c) = Blocking \<longleftrightarrow> c = Blocking"
    "(if c = Waiting then Acquire else c) = Exited \<longleftrightarrow> c = Exited"
    "(if c = Waiting then Acquire else c) = At_loop \<longleftrightarrow> c = At_loop" for c
    by (auto simp: holds_mutex_def)
  show "pool_inv n s \<Longrightarrow> shut s = Exchanged \<Longrightarrow> pool_inv n (notify_all s)"
    by (simp add: pool_inv_def notify_all_def c)
qed

lemma pool_inv_shutdown:
  "pool_inv n s \<Longrightarrow> pool_inv n (shutdown_exchange s)"
  "pool_inv n s \<Longrightarrow> shut s = Clearing \<Longrightarrow> i < n \<Longrightarrow> pool_inv n (request_stop i s)"
  "pool_inv n s \<Longrightarrow> shut s = Joining i \<Longrightarrow> pcs s i = Exited \<Longrightarrow> pool_inv n (join_worker i s)"
  "pool_inv n s \<Longrightarrow> shut s = Clearing \<Longrightarrow> joined s = {..<n} \<Longrightarrow> pool_inv n (s\<lparr>shut := Shut\<rparr>)"
  by (simp_all add: pool_inv_def shutdown_exchange_def request_stop_def join_worker_def)

lemma pool_inv_wake: "pool_inv n s \<Longrightarrow> i < n \<Longrightarrow> pcs s i = Waiting \<Longrightarrow> pool_inv n (goto i Acquire s)"
  by (rule pool_inv_goto) (simp_all add: holds_mutex_def)

lemma pool_inv_step: "pool_step n m s s' \<Longrightarrow> pool_inv n s \<Longrightarrow> pool_inv n s'"
proof (induction rule: pool_step.induct)
  case (notify_one s i)
  then show ?case using pool_inv_wake [of n "s\<lparr>notifies := notifies s - 1\<rparr>" i]
    by (simp add: pool_inv_update)
qed (auto simp only: pool_inv_update intro: pool_inv_worker pool_inv_enqueue pool_inv_notify_all
      pool_inv_shutdown pool_inv_wake)

lemma pool_inv_new: "pool_inv n new_pool"
  by (simp add: pool_inv_def new_pool_def holds_mutex_def)

section \<open>Every accepted task is started once, in order\<close>

definition hand :: "pc \<Rightarrow> nat multiset" where
  "hand c = (case c of Taken t \<Rightarrow> {#t#} | Running t \<Rightarrow> {#t#} | _ \<Rightarrow> {#})"

definition runs :: "pc \<Rightarrow> nat" where
  "runs c = (case c of Running _ \<Rightarrow> 1 | _ \<Rightarrow> 0)"

definition in_hand :: "nat \<Rightarrow> pool \<Rightarrow> nat multiset" where
  "in_hand n s = (\<Sum>i<n. hand (pcs s i))"

definition running :: "nat \<Rightarrow> pool \<Rightarrow> nat" where
  "running n s = (\<Sum>i<n. runs (pcs s i))"

definition pool_count :: "nat \<Rightarrow> nat \<Rightarrow> pool \<Rightarrow> bool" where
  "pool_count n m s =
     (length (tasks s) \<le> m \<and> accepted s = started s @ tasks s \<and>
      active_count s = running n s \<and> mset (started s) = mset (finished s) + in_hand n s)"

lemma sum_goto:
  fixes f :: "pc \<Rightarrow> 'a :: comm_monoid_add"
  assumes "i < n"
  shows "(\<Sum>j<n. f (((pcs s)(i := c)) j)) + f (pcs s i) = (\<Sum>j<n. f (pcs s j)) + f c"
proof -
  have r: "(\<Sum>j<n. g j) = g i + (\<Sum>j\<in>{..<n} - {i}. g j)" for g :: "nat \<Rightarrow> 'a"
    using assms by (intro sum.remove) auto
  have "(\<Sum>j\<in>{..<n} - {i}. f (((pcs s)(i := c)) j)) = (\<Sum>j\<in>{..<n} - {i}. f (pcs s j))"
    by (intro sum.cong) auto
  then show ?thesis
    using r [of "\<lambda>j. f (((pcs s)(i := c)) j)"] r [of "\<lambda>j. f (pcs s j)"]
    by (simp add: ac_simps)
qed

lemma in_hand_goto: "i < n \<Longrightarrow> in_hand n (goto i c s) + hand (pcs s i) = in_hand n s + hand c"
  unfolding in_hand_def goto_fields by (rule sum_goto)

lemma running_goto: "i < n \<Longrightarrow> running n (goto i c s) + runs (pcs s i) = running n s + runs c"
  unfolding running_def goto_fields by (rule sum_goto)

lemma count_fields [simp]:
  "in_hand n (s\<lparr>mutex := x\<rparr>) = in_hand n s" "running n (s\<lparr>mutex := x\<rparr>) = running n s"
  "in_hand n (s\<lparr>tasks := ts\<rparr>) = in_hand n s" "running n (s\<lparr>tasks := ts\<rparr>) = running n s"
  "in_hand n (s\<lparr>started := st\<rparr>) = in_hand n s" "running n (s\<lparr>started := st\<rparr>) = running n s"
  "in_hand n (s\<lparr>finished := st\<rparr>) = in_hand n s" "running n (s\<lparr>finished := st\<rparr>) = running n s"
  "in_hand n (s\<lparr>accepted := st\<rparr>) = in_hand n s" "running n (s\<lparr>accepted := st\<rparr>) = running n s"
  "in_hand n (s\<lparr>active_count := k\<rparr>) = in_hand n s" "running n (s\<lparr>active_count := k\<rparr>) = running n s"
  "in_hand n (s\<lparr>notifies := k\<rparr>) = in_hand n s" "running n (s\<lparr>notifies := k\<rparr>) = running n s"
  "in_hand n (s\<lparr>shut := p\<rparr>) = in_hand n s" "running n (s\<lparr>shut := p\<rparr>) = running n s"
  by (simp_all add: in_hand_def running_def)

lemma pool_count_goto:
  assumes "pool_count n m s" "i < n" "hand c = hand (pcs s i)" "runs c = runs (pcs s i)"
  shows "pool_count n m (goto i c s)"
  using assms in_hand_goto [of i n c s] running_goto [of i n c s] by (simp add: pool_count_def)

lemma pool_count_mutex [simp]: "pool_count n m (s\<lparr>mutex := x\<rparr>) = pool_count n m s"
  by (simp add: pool_count_def)

lemma idle_hand: "hand c = {#} \<and> runs c = 0" if "c \<notin> range Taken" "c \<notin> range Running"
  using that by (cases c) (auto simp: hand_def runs_def)

lemma pool_count_worker:
  assumes c: "pool_count n m s" and i: "i < n" and step: "worker_step i s = Some s'"
  shows "pool_count n m s'"
  using step
proof (cases rule: worker_stepE)
  case (pop t ts)
  with c i in_hand_goto [of i n "Taken t" s] running_goto [of i n "Taken t" s] show ?thesis
    by (simp add: pool_count_def hand_def runs_def in_hand_def running_def)
next
  case (begin_task t)
  with c i in_hand_goto [of i n "Running t" s] running_goto [of i n "Running t" s] show ?thesis
    by (simp add: pool_count_def hand_def runs_def in_hand_def running_def)
next
  case (end_task t)
  with c i in_hand_goto [of i n At_loop s] running_goto [of i n At_loop s] show ?thesis
    by (simp add: pool_count_def hand_def runs_def in_hand_def running_def)
qed (use c i in \<open>auto intro!: pool_count_goto simp: hand_def runs_def\<close>)

lemma pool_count_notify_all: "pool_count n m s \<Longrightarrow> pool_count n m (notify_all s)"
proof -
  have "hand (if c = Waiting then Acquire else c) = hand c"
    "runs (if c = Waiting then Acquire else c) = runs c" for c
    by (simp_all add: hand_def runs_def)
  then show "pool_count n m s \<Longrightarrow> pool_count n m (notify_all s)"
    by (simp add: pool_count_def notify_all_def in_hand_def running_def)
qed

lemma pool_count_same:
  "pool_count n m s \<Longrightarrow> pool_count n m (s\<lparr>notifies := k\<rparr>)"
  "pool_count n m s \<Longrightarrow> pool_count n m (s\<lparr>shut := p\<rparr>)"
  "pool_count n m s \<Longrightarrow> pool_count n m (shutdown_exchange s)"
  "pool_count n m s \<Longrightarrow> pool_count n m (request_stop i s)"
  "pool_count n m s \<Longrightarrow> pool_count n m (join_worker i s)"
  by (simp_all add: pool_count_def shutdown_exchange_def request_stop_def join_worker_def
      in_hand_def running_def)

lemma pool_count_wake:
  "pool_count n m s \<Longrightarrow> i < n \<Longrightarrow> pcs s i = Waiting \<Longrightarrow> pool_count n m (goto i Acquire s)"
  by (rule pool_count_goto) (simp_all add: hand_def runs_def)

lemma pool_count_enqueue:
  "pool_count n m s \<Longrightarrow> enqueue m t s = Some (r, s') \<Longrightarrow> pool_count n m s'"
  by (auto elim!: enqueueE simp: pool_count_def)

lemma pool_count_step: "pool_step n m s s' \<Longrightarrow> pool_count n m s \<Longrightarrow> pool_count n m s'"
proof (induction rule: pool_step.induct)
  case (notify_one s i)
  then show ?case using pool_count_wake [of n m "s\<lparr>notifies := notifies s - 1\<rparr>" i]
    by (simp add: pool_count_same)
qed (blast intro: pool_count_worker pool_count_enqueue pool_count_notify_all pool_count_same
      pool_count_wake)+

lemma pool_count_new: "pool_count n m new_pool"
  by (simp add: pool_count_def new_pool_def in_hand_def running_def hand_def runs_def)

section \<open>While the pool runs, a queued task has somebody to fetch it\<close>

text \<open>Either a notification is on its way or some worker is awake and will look at the queue.\<close>

definition pool_awake :: "nat \<Rightarrow> pool \<Rightarrow> bool" where
  "pool_awake n s =
     (\<not> stop s \<longrightarrow> tasks s \<noteq> [] \<longrightarrow> notifies s = 0 \<longrightarrow> 0 < n \<longrightarrow> (\<exists>i<n. pcs s i \<noteq> Waiting))"

lemma pool_awake_one: "i < n \<Longrightarrow> pcs s i \<noteq> Waiting \<Longrightarrow> pool_awake n s"
  by (auto simp: pool_awake_def)

lemma pool_awake_worker:
  assumes "pool_inv n s" and i: "i < n" and step: "worker_step i s = Some s'"
  shows "pool_awake n s'"
  using step
proof (cases rule: worker_stepE)
  case block
  with assms(1) have "tasks s = []" by (auto simp: pool_inv_def)
  with block show ?thesis by (simp add: pool_awake_def)
qed (use i in \<open>auto intro!: pool_awake_one [OF i]\<close>)

lemma pool_awake_step: "pool_step n m s s' \<Longrightarrow> pool_inv n s \<Longrightarrow> pool_awake n s \<Longrightarrow> pool_awake n s'"
proof (induction rule: pool_step.induct)
  case (worker i s s')
  then show ?case by (simp add: pool_awake_worker)
next
  case (enqueue t s r s')
  then show ?case by (auto elim!: enqueueE simp: pool_awake_def)
next
  case (wake s)
  then show ?case by (simp add: pool_awake_def notify_all_def pool_inv_def)
qed (auto simp: pool_awake_def shutdown_exchange_def request_stop_def join_worker_def)

lemma pool_awake_new: "pool_awake n new_pool"
  by (simp add: pool_awake_def new_pool_def)

section \<open>The invariants as contracts\<close>

interpretation pool: layered_invariant "\<lambda>s. s = new_pool" "pool_step n m" "pool_inv n"
    "\<lambda>s. pool_count n m s \<and> pool_awake n s" for n m
  by unfold_locales
    (auto simp: pool_inv_new pool_count_new pool_awake_new
      intro: pool_inv_step pool_count_step pool_awake_step)

lemma pool_reach_inv:
  "pool_reach n m s \<Longrightarrow> pool_inv n s \<and> pool_count n m s \<and> pool_awake n s"
  using pool.base.reach_inv pool.reach_inv2 by blast

lemma in_hand_empty: "\<forall>i<n. pcs s i = Exited \<Longrightarrow> in_hand n s = {#} \<and> running n s = 0"
  by (simp add: in_hand_def running_def hand_def runs_def)

lemma shut_exited: "pool_inv n s \<Longrightarrow> shut s = Shut \<Longrightarrow> \<forall>i<n. pcs s i = Exited"
  by (auto simp: pool_inv_def)

end
