(* ===== verification/Server.thy ===== *)
theory Server
  imports Server_Connection Net_Listener Thread_Pool
begin

text \<open>
  \<open>include/server/server.hpp\<close> and \<open>src/server/server.cpp\<close> with a pool of workers: starting, the
  accept loop with its 503 for a full queue, what a pool worker does with the socket of its
  task, stopping and the end of the process.  A task is the number of the \<open>Socket\<close> object its
  closure shares; the numbers of new objects and the descriptors \<open>accept\<close> returns are
  arguments.
\<close>

section \<open>State\<close>

text \<open>The members; \<open>sv_pooled\<close> says whether \<open>pool_\<close> is not null, and \<open>sv_pool\<close> is then the pool.  The
  store holds the \<open>Socket\<close> objects of the whole process, and \<open>sv_conn\<close> the object of the connection
  each worker serves.\<close>

record server =
  sv_config :: Config
  sv_listener :: Listener
  sv_router :: Router
  sv_pooled :: bool
  sv_pool :: pool
  sv_running :: bool
  sv_store :: store
  sv_conn :: "nat \<Rightarrow> nat"

definition new_server :: "Config \<Rightarrow> server" where
  "new_server config = \<lparr>sv_config = config, sv_listener = new_listener 0 (port config) (backlog config),
     sv_router = new_router, sv_pooled = False, sv_pool = new_pool, sv_running = False,
     sv_store = socket_new 0 (-1) empty_store, sv_conn = (\<lambda>_. 0)\<rparr>"

text \<open>\<open>setup_routes\<close> on the server's router, and \<open>router()\<close>, through which a user registers more
  before the start; the reference it returns is the member.\<close>

definition server_setup_routes :: "server \<Rightarrow> server" where
  "server_setup_routes s = s\<lparr>sv_router := setup_routes (sv_config s) (sv_router s)\<rparr>"

definition with_router :: "(Router \<Rightarrow> Router) \<Rightarrow> server \<Rightarrow> server" where
  "with_router f s = s\<lparr>sv_router := f (sv_router s)\<rparr>"

section \<open>Operations\<close>

text \<open>\<open>Server::start\<close> up to its accept loop: whether it gets there, and which loop it is.\<close>

datatype start_mode = Not_started | Pool_mode | Baseline_mode

definition server_start :: "nat \<Rightarrow> start_results \<Rightarrow> server \<Rightarrow> start_mode \<times> server" where
  "server_start tmp res s =
     (case listener_start (sv_listener s) tmp res (sv_store s) of
        (up, w) \<Rightarrow>
          if \<not> up then (Not_started, s\<lparr>sv_store := w\<rparr>)
          else
            let s1 = s\<lparr>sv_store := w, sv_running := True\<rparr> in
            if num_workers (sv_config s) > 0 then (Pool_mode, s1\<lparr>sv_pooled := True, sv_pool := new_pool\<rparr>)
            else (Baseline_mode, s1))"

text \<open>The answer to a client the queue has no room for.\<close>

definition overload_response :: Response where
  "overload_response = (make_response ServiceUnavailable)\<lparr>rs_keep_alive := False\<rparr>"

text \<open>
  One round of \<open>accept_loop\<close>, up to the end or to the 503; \<open>i\<close>, \<open>j\<close> and \<open>k\<close> are the objects \<open>client\<close>,
  \<open>*shared_sock\<close> and the socket of \<open>conn\<close>.  None while another thread holds the pool's mutex.
\<close>

datatype accept_result = No_client | Queued | Refusing

definition accept_client ::
  "nat \<Rightarrow> nat \<Rightarrow> nat \<Rightarrow> int \<Rightarrow> server \<Rightarrow> (accept_result \<times> server) option" where
  "accept_client i j k client_fd s =
     (let w1 = listener_accept (sv_listener s) i client_fd (sv_store s) in
      if \<not> is_valid (fd_of i w1) then Some (No_client, s\<lparr>sv_store := socket_destroy i w1\<rparr>)
      else
        let w2 = socket_move_new j i w1 in
        (case enqueue (unat (max_queue_size (sv_config s))) j (sv_pool s) of
           None \<Rightarrow> None
         | Some (True, p) \<Rightarrow> Some (Queued, s\<lparr>sv_pool := p, sv_store := socket_destroy i w2\<rparr>)
         | Some (False, p) \<Rightarrow> Some (Refusing, s\<lparr>sv_pool := p, sv_store := socket_move_new k j w2\<rparr>)))"

text \<open>The end of a round that has sent its 503: \<open>conn\<close>, the closure and \<open>client\<close> go.\<close>

definition refusal_end :: "nat \<Rightarrow> nat \<Rightarrow> nat \<Rightarrow> server \<Rightarrow> server" where
  "refusal_end i j k s =
     s\<lparr>sv_store := socket_destroy i (socket_destroy j (socket_destroy k (sv_store s)))\<rparr>"

text \<open>The whole round.\<close>

definition accept_round ::
  "nat \<Rightarrow> nat \<Rightarrow> nat \<Rightarrow> nat \<Rightarrow> int \<Rightarrow> net_io \<Rightarrow> server \<Rightarrow> (handler_end \<times> net_io \<times> server) option" where
  "accept_round now i j k client_fd io s =
     (case accept_client i j k client_fd s of
        None \<Rightarrow> None
      | Some (Refusing, s1) \<Rightarrow>
          (case write_all (new_connection (fd_of k (sv_store s1))) (serialize now overload_response) io of
             (Returns _, io') \<Rightarrow> Some (Returned, io', refusal_end i j k s1)
           | (r, io') \<Rightarrow> Some (write_end r, io', s1))
      | Some (_, s1) \<Rightarrow> Some (Returned, io, s1))"

text \<open>A worker enters its task, which moves the socket into a \<open>Connection\<close>, and leaves it, which
  ends the connection and the closure.\<close>

definition begin_task :: "nat \<Rightarrow> nat \<Rightarrow> nat \<Rightarrow> pool \<Rightarrow> server \<Rightarrow> server" where
  "begin_task i t k p s =
     s\<lparr>sv_pool := p, sv_store := socket_move_new k t (sv_store s), sv_conn := (sv_conn s)(i := k)\<rparr>"

definition end_task :: "nat \<Rightarrow> nat \<Rightarrow> pool \<Rightarrow> server \<Rightarrow> server" where
  "end_task i t p s =
     s\<lparr>sv_pool := p, sv_store := socket_destroy t (socket_destroy (sv_conn s i) (sv_store s))\<rparr>"

text \<open>\<open>Server::stop\<close> up to the exchange in \<open>ThreadPool::shutdown\<close>, and the destructor of a server
  whose pool has shut down: the tasks left in the queue, then the listener.\<close>

definition server_stop :: "server \<Rightarrow> server" where
  "server_stop s =
     (let s1 = s\<lparr>sv_running := False, sv_store := listener_stop (sv_listener s) (sv_store s)\<rparr> in
      if sv_pooled s then s1\<lparr>sv_pool := shutdown_exchange (sv_pool s)\<rparr> else s1)"

definition server_destroy :: "server \<Rightarrow> store" where
  "server_destroy s =
     socket_destroy (l_socket (sv_listener s)) (fold socket_destroy (tasks (sv_pool s)) (sv_store s))"

section \<open>The server as a system\<close>

text \<open>The steps of the pool that concern no socket: nothing is accepted, and no worker enters or
  leaves a task.\<close>

definition quiet :: "pool \<Rightarrow> pool \<Rightarrow> bool" where
  "quiet p p' =
     (accepted p' = accepted p \<and>
      (\<forall>i t. pcs p i = Taken t \<or> pcs p i = Running t \<longrightarrow> pcs p' i = pcs p i))"

inductive server_step :: "server \<Rightarrow> server \<Rightarrow> bool" where
  start: "\<not> sv_pooled s \<Longrightarrow> objs (sv_store s) tmp = None \<Longrightarrow>
     r_socket res = -1 \<or> 0 \<le> r_socket res \<and> r_socket res \<notin> open_fds (sv_store s) \<Longrightarrow>
     server_start tmp res s = (Pool_mode, s') \<Longrightarrow> server_step s s'"
| accept: "sv_running s \<Longrightarrow> sv_pooled s \<Longrightarrow> objs (sv_store s) i = None \<Longrightarrow> objs (sv_store s) j = None \<Longrightarrow>
     objs (sv_store s) k = None \<Longrightarrow> distinct [i, j, k] \<Longrightarrow>
     fd = -1 \<or> 0 \<le> fd \<and> fd \<notin> open_fds (sv_store s) \<Longrightarrow>
     accept_round now i j k fd io s = Some (Returned, io', s') \<Longrightarrow> server_step s s'"
| begin_task: "sv_pooled s \<Longrightarrow> int i < num_workers (sv_config s) \<Longrightarrow> pcs (sv_pool s) i = Taken t \<Longrightarrow>
     worker_step i (sv_pool s) = Some p \<Longrightarrow> objs (sv_store s) k = None \<Longrightarrow>
     server_step s (begin_task i t k p s)"
| end_task: "sv_pooled s \<Longrightarrow> int i < num_workers (sv_config s) \<Longrightarrow> pcs (sv_pool s) i = Running t \<Longrightarrow>
     worker_step i (sv_pool s) = Some p \<Longrightarrow> server_step s (end_task i t p s)"
| pool: "sv_pooled s \<Longrightarrow> pool_step (nat (num_workers (sv_config s))) (unat (max_queue_size (sv_config s))) (sv_pool s) p \<Longrightarrow>
     quiet (sv_pool s) p \<Longrightarrow> server_step s (s\<lparr>sv_pool := p\<rparr>)"
| stop: "server_step s (server_stop s)"

inductive_cases server_stepE: "server_step s s'"

text \<open>A server before its start: constructed, and with the routes its user has registered.\<close>

definition server_init :: "Config \<Rightarrow> server \<Rightarrow> bool" where
  "server_init config s = (\<exists>f. s = with_router f (new_server config))"

abbreviation server_reach :: "Config \<Rightarrow> server \<Rightarrow> bool" where
  "server_reach config \<equiv> reach (server_init config) server_step"

section \<open>Every socket has an owner\<close>

text \<open>Who can hold a live \<open>Socket\<close> object between two steps: the listener, a queued task, a worker
  with the task in its hands, which while it runs has the connection as well.\<close>

fun keeps :: "pc \<Rightarrow> nat \<Rightarrow> nat \<Rightarrow> bool" where
  "keeps (Taken t) conn x = (x = t)"
| "keeps (Running t) conn x = (x = t \<or> x = conn)"
| "keeps _ conn x = False"

definition owned :: "server \<Rightarrow> nat \<Rightarrow> bool" where
  "owned s x =
     (x = l_socket (sv_listener s) \<or> x \<in> set (tasks (sv_pool s)) \<or>
      (\<exists>i. keeps (pcs (sv_pool s) i) (sv_conn s i) x))"

lemma owned_other:
  assumes "owned s x" "\<not> keeps (pcs (sv_pool s) i) (sv_conn s i) x"
    and "sv_listener s' = sv_listener s" "tasks (sv_pool s') = tasks (sv_pool s)"
    and same: "\<And>j. j \<noteq> i \<Longrightarrow> pcs (sv_pool s') j = pcs (sv_pool s) j \<and> sv_conn s' j = sv_conn s j"
  shows "owned s' x"
proof -
  have "keeps (pcs (sv_pool s') j) (sv_conn s' j) x" if "keeps (pcs (sv_pool s) j) (sv_conn s j) x" for j
    using that assms(2) same [of j] by (cases "j = i") auto
  with assms(1,3,4) show ?thesis unfolding owned_def by auto
qed

definition server_inv :: "server \<Rightarrow> bool" where
  "server_inv s =
     (own_inv (sv_store s) \<and>
      pool_inv (nat (num_workers (sv_config s))) (sv_pool s) \<and>
      pool_count (nat (num_workers (sv_config s))) (unat (max_queue_size (sv_config s))) (sv_pool s) \<and>
      (\<not> sv_pooled s \<longrightarrow> sv_pool s = new_pool) \<and>
      (\<forall>x. objs (sv_store s) x \<noteq> None \<longrightarrow> owned s x))"

lemma listener_start_store:
  "snd (listener_start l tmp res w) =
     socket_destroy tmp (socket_move_assign (l_socket l) tmp (socket_create tmp (r_socket res) w))"
  by (simp add: listener_start_def Let_def)

lemma objs_move_assign_None:
  "x \<noteq> i \<Longrightarrow> x \<noteq> other \<Longrightarrow> objs (socket_move_assign i other w) x = None \<longleftrightarrow> objs w x = None"
  by (simp add: socket_move_assign_def Let_def objs_close_None)

lemma objs_listener_start:
  "objs (snd (listener_start l tmp res w)) x \<noteq> None \<Longrightarrow> x = l_socket l \<or> objs w x \<noteq> None"
proof (rule disjCI)
  assume a: "objs (snd (listener_start l tmp res w)) x \<noteq> None" and no: "\<not> objs w x \<noteq> None"
  show "x = l_socket l"
  proof (rule ccontr)
    assume l: "x \<noteq> l_socket l"
    have x: "x \<noteq> tmp" "objs (socket_move_assign (l_socket l) tmp (socket_create tmp (r_socket res) w)) x \<noteq> None"
      using a unfolding listener_start_store objs_destroy_None by blast+
    from x(2) have "objs (socket_create tmp (r_socket res) w) x \<noteq> None"
      unfolding objs_move_assign_None [OF l x(1)] .
    with no x(1) show False by simp
  qed
qed

lemma objs_listener_accept:
  "objs (listener_accept l i fd w) = (objs w)(i \<mapsto> fd_of i (listener_accept l i fd w))"
  by (simp add: listener_accept_def) (simp add: socket_create_def)

lemma accept_clientE:
  assumes "accept_client i j k fd s = Some (a, s1)"
  obtains (no_client) "a = No_client"
      "s1 = s\<lparr>sv_store := socket_destroy i (listener_accept (sv_listener s) i fd (sv_store s))\<rparr>"
    | (into_queue) p where "a = Queued" "enqueue (unat (max_queue_size (sv_config s))) j (sv_pool s) = Some (True, p)"
      "s1 = s\<lparr>sv_pool := p, sv_store := socket_destroy i
          (socket_move_new j i (listener_accept (sv_listener s) i fd (sv_store s)))\<rparr>"
      "is_valid (fd_of i (listener_accept (sv_listener s) i fd (sv_store s)))"
    | (refusing) "a = Refusing"
      "enqueue (unat (max_queue_size (sv_config s))) j (sv_pool s) = Some (False, sv_pool s)"
      "s1 = s\<lparr>sv_store := socket_move_new k j
          (socket_move_new j i (listener_accept (sv_listener s) i fd (sv_store s)))\<rparr>"
      "is_valid (fd_of i (listener_accept (sv_listener s) i fd (sv_store s)))"
proof (cases "is_valid (fd_of i (listener_accept (sv_listener s) i fd (sv_store s)))")
  case False
  with assms show ?thesis by (intro no_client) (simp_all add: accept_client_def Let_def)
next
  case valid: True
  obtain r p where e: "enqueue (unat (max_queue_size (sv_config s))) j (sv_pool s) = Some (r, p)"
    using assms valid by (cases "enqueue (unat (max_queue_size (sv_config s))) j (sv_pool s)")
      (auto simp: accept_client_def Let_def)
  show ?thesis
  proof (cases r)
    case True
    with assms valid e show ?thesis by (intro into_queue [of p]) (simp_all add: accept_client_def Let_def)
  next
    case False
    with e have "p = sv_pool s" by (auto elim: enqueueE)
    with False assms valid e show ?thesis by (intro refusing) (simp_all add: accept_client_def Let_def)
  qed
qed

lemma accept_roundE:
  assumes "accept_round now i j k fd io s = Some (Returned, io', s')"
  obtains (none) "s' = s\<lparr>sv_store := socket_destroy i (listener_accept (sv_listener s) i fd (sv_store s))\<rparr>"
      "io' = io"
    | (queued) p where "enqueue (unat (max_queue_size (sv_config s))) j (sv_pool s) = Some (True, p)"
      "s' = s\<lparr>sv_pool := p, sv_store := socket_destroy i
          (socket_move_new j i (listener_accept (sv_listener s) i fd (sv_store s)))\<rparr>" "io' = io"
      "is_valid (fd_of i (listener_accept (sv_listener s) i fd (sv_store s)))"
    | (rejected) r w where "enqueue (unat (max_queue_size (sv_config s))) j (sv_pool s) = Some (False, sv_pool s)"
      "w = socket_move_new k j (socket_move_new j i (listener_accept (sv_listener s) i fd (sv_store s)))"
      "s' = s\<lparr>sv_store := socket_destroy i (socket_destroy j (socket_destroy k w))\<rparr>"
      "write_all (new_connection (fd_of k w)) (serialize now overload_response) io =
         (Returns r, io')"
proof -
  obtain a s1 where a: "accept_client i j k fd s = Some (a, s1)"
    using assms by (cases "accept_client i j k fd s") (auto simp: accept_round_def)
  from a show ?thesis
  proof (cases rule: accept_clientE)
    case no_client
    with a assms show ?thesis by (intro none) (auto simp: accept_round_def)
  next
    case (into_queue p)
    with a assms show ?thesis by (intro queued) (auto simp: accept_round_def)
  next
    case refusing
    obtain r io1 where w: "write_all (new_connection (fd_of k (sv_store s1))) (serialize now overload_response) io = (r, io1)"
      by (cases "write_all (new_connection (fd_of k (sv_store s1))) (serialize now overload_response) io")
    with a assms refusing obtain x where "r = Returns x" "io' = io1" "s' = refusal_end i j k s1"
      by (cases r) (simp_all add: accept_round_def write_end_def)
    with w refusing show ?thesis by (intro rejected) (simp_all add: refusal_end_def)
  qed
qed

lemma server_inv_accept:
  assumes inv: "server_inv s" and up: "sv_pooled s"
    and fresh: "objs (sv_store s) i = None" "objs (sv_store s) j = None" "objs (sv_store s) k = None"
      "distinct [i, j, k]"
    and fd: "fd = -1 \<or> 0 \<le> fd \<and> fd \<notin> open_fds (sv_store s)"
    and round: "accept_round now i j k fd io s = Some (Returned, io', s')"
  shows "server_inv s'"
proof -
  let ?w1 = "listener_accept (sv_listener s) i fd (sv_store s)"
  let ?w2 = "socket_move_new j i ?w1"
  from inv have own: "own_inv (sv_store s)" and live: "\<And>x. objs (sv_store s) x \<noteq> None \<Longrightarrow> owned s x"
    by (auto simp: server_inv_def)
  have own1: "own_inv ?w1" using own fresh(1) fd by (rule listener_accept_inv)
  have "objs ?w1 j = None" using fresh by (simp add: objs_listener_accept)
  with own1 have own2: "own_inv ?w2" by (rule own_inv_move_new)
  from round show ?thesis
  proof (cases rule: accept_roundE)
    case none
    with inv own1 show ?thesis
      by (auto simp: server_inv_def owned_def own_inv_destroy objs_destroy_None objs_listener_accept)
  next
    case (queued p)
    note enq = queued(1)
    have p: "tasks p = tasks (sv_pool s) @ [j]" "pcs p = pcs (sv_pool s)"
      using enq by (auto elim!: enqueueE)
    with inv up own2 pool_inv_enqueue [OF _ enq] pool_count_enqueue [OF _ enq] live queued(2)
    show ?thesis
      by (auto simp: server_inv_def own_inv_destroy objs_destroy_None objs_listener_accept)
        (auto simp: owned_def)
  next
    case (rejected r w)
    have "objs ?w2 k = None" using fresh by (simp add: objs_listener_accept)
    with own2 have "own_inv w" unfolding rejected(2) by (rule own_inv_move_new)
    with inv rejected(3) live show ?thesis
      by (auto simp: server_inv_def own_inv_destroy objs_destroy_None objs_listener_accept rejected(2))
        (auto simp: owned_def)
  qed
qed

lemma server_inv_begin:
  assumes inv: "server_inv s" and up: "sv_pooled s" and i: "int i < num_workers (sv_config s)"
    and t: "pcs (sv_pool s) i = Taken t" and step: "worker_step i (sv_pool s) = Some p"
    and k: "objs (sv_store s) k = None"
  shows "server_inv (begin_task i t k p s)"
proof -
  from i have n: "i < nat (num_workers (sv_config s))" by simp
  have p: "tasks p = tasks (sv_pool s)" "pcs p = (pcs (sv_pool s))(i := Running t)"
    using step t by (auto simp: worker_step_def)
  from inv k n step have "own_inv (socket_move_new k t (sv_store s))"
    "pool_inv (nat (num_workers (sv_config s))) p"
    "pool_count (nat (num_workers (sv_config s))) (unat (max_queue_size (sv_config s))) p"
    by (auto simp: server_inv_def own_inv_move_new intro: pool_inv_worker pool_count_worker)
  moreover have "owned (begin_task i t k p s) x" if "objs (socket_move_new k t (sv_store s)) x \<noteq> None" for x
  proof (cases "x = k \<or> x = t")
    case True
    then show ?thesis unfolding owned_def
      by (intro disjI2 exI [of _ i]) (auto simp: begin_task_def p)
  next
    case False
    with that inv have "owned s x" by (auto simp: server_inv_def)
    then show ?thesis
      by (rule owned_other [of s x i]) (use False t in \<open>auto simp: begin_task_def p\<close>)
  qed
  ultimately show ?thesis using up by (auto simp: server_inv_def) (auto simp: begin_task_def)
qed

lemma server_inv_end:
  assumes inv: "server_inv s" and up: "sv_pooled s" and i: "int i < num_workers (sv_config s)"
    and t: "pcs (sv_pool s) i = Running t" and step: "worker_step i (sv_pool s) = Some p"
  shows "server_inv (end_task i t p s)"
proof -
  from i have n: "i < nat (num_workers (sv_config s))" by simp
  have p: "tasks p = tasks (sv_pool s)" "pcs p = (pcs (sv_pool s))(i := At_loop)"
    using step t by (auto simp: worker_step_def)
  from inv n step have "own_inv (socket_destroy t (socket_destroy (sv_conn s i) (sv_store s)))"
    "pool_inv (nat (num_workers (sv_config s))) p"
    "pool_count (nat (num_workers (sv_config s))) (unat (max_queue_size (sv_config s))) p"
    by (auto simp: server_inv_def own_inv_destroy intro: pool_inv_worker pool_count_worker)
  moreover have "owned (end_task i t p s) x" if "owned s x" "x \<noteq> t" "x \<noteq> sv_conn s i" for x
    using that(1) by (rule owned_other [of s x i]) (use that t in \<open>auto simp: end_task_def p\<close>)
  ultimately show ?thesis
    using inv up by (auto simp: server_inv_def objs_destroy_None end_task_def)
qed

lemma server_inv_start:
  assumes inv: "server_inv s" and tmp: "objs (sv_store s) tmp = None" and fresh: "\<not> sv_pooled s"
    and fd: "r_socket res = -1 \<or> 0 \<le> r_socket res \<and> r_socket res \<notin> open_fds (sv_store s)"
    and start: "server_start tmp res s = (Pool_mode, s')"
  shows "server_inv s'"
proof -
  define w where "w = snd (listener_start (sv_listener s) tmp res (sv_store s))"
  have pool: "sv_pool s = new_pool" using inv fresh by (simp add: server_inv_def)
  have s': "s' = s\<lparr>sv_store := w, sv_running := True, sv_pooled := True, sv_pool := new_pool\<rparr>"
    using start by (auto simp: server_start_def w_def Let_def split: prod.splits if_splits)
  have "own_inv w" using inv tmp fd unfolding w_def by (intro listener_start_inv) (auto simp: server_inv_def)
  moreover have "owned s' x" if "objs w x \<noteq> None" for x
    using objs_listener_start [OF that [unfolded w_def]] inv pool
    by (auto simp: server_inv_def owned_def s')
  ultimately show ?thesis using inv by (auto simp: server_inv_def s' pool_inv_new pool_count_new)
qed

text \<open>A queued task stays queued or is taken.\<close>

lemma pool_step_tasks:
  "pool_step n m p p' \<Longrightarrow> t \<in> set (tasks p) \<Longrightarrow> t \<in> set (tasks p') \<or> (\<exists>i. pcs p' i = Taken t)"
proof (induction rule: pool_step.induct)
  case (worker i s s')
  from worker(2) show ?case
  proof (cases rule: worker_stepE)
    case (pop u us)
    with worker show ?thesis by (cases "t = u") (auto intro: exI [of _ i])
  qed (use worker in auto)
next
  case (enqueue u s r s')
  then show ?case by (auto elim!: enqueueE)
qed (auto simp: shutdown_exchange_def notify_all_def request_stop_def join_worker_def)

lemma server_inv_pool:
  assumes inv: "server_inv s" and "sv_pooled s" and q: "quiet (sv_pool s) p"
    and step: "pool_step (nat (num_workers (sv_config s))) (unat (max_queue_size (sv_config s))) (sv_pool s) p"
  shows "server_inv (s\<lparr>sv_pool := p\<rparr>)"
proof -
  have "owned (s\<lparr>sv_pool := p\<rparr>) x" if "owned s x" for x
  proof -
    from that consider (l) "x = l_socket (sv_listener s)" | (t) "x \<in> set (tasks (sv_pool s))"
      | (k) i where "keeps (pcs (sv_pool s) i) (sv_conn s i) x" by (auto simp: owned_def)
    then show ?thesis
    proof cases
      case t
      then consider "x \<in> set (tasks p)" | i where "pcs p i = Taken x"
        using pool_step_tasks [OF step t] by blast
      then show ?thesis
      proof cases
        case (2 i)
        then have "keeps (pcs p i) (sv_conn s i) x" by simp
        then show ?thesis by (auto simp: owned_def)
      qed (simp add: owned_def)
    next
      case k
      then have "pcs p i = pcs (sv_pool s) i"
        using q by (cases "pcs (sv_pool s) i") (auto simp: quiet_def)
      with k have "keeps (pcs p i) (sv_conn s i) x" by simp
      then show ?thesis by (auto simp: owned_def)
    qed (simp add: owned_def)
  qed
  with inv pool_inv_step [OF step] pool_count_step [OF step] \<open>sv_pooled s\<close> show ?thesis
    by (auto simp: server_inv_def)
qed

lemma server_stop_fields [simp]:
  "sv_config (server_stop s) = sv_config s" "sv_listener (server_stop s) = sv_listener s"
  "sv_router (server_stop s) = sv_router s" "sv_pooled (server_stop s) = sv_pooled s"
  "\<not> sv_running (server_stop s)" "sv_store (server_stop s) = listener_stop (sv_listener s) (sv_store s)"
  "sv_pool (server_stop s) = (if sv_pooled s then shutdown_exchange (sv_pool s) else sv_pool s)"
  "sv_conn (server_stop s) = sv_conn s"
  by (simp_all add: server_stop_def Let_def)

lemma server_inv_stop:
  assumes inv: "server_inv s"
  shows "server_inv (server_stop s)"
proof -
  let ?w = "listener_stop (sv_listener s) (sv_store s)"
  have "owned (server_stop s) x = owned s x" for x
    by (simp add: owned_def shutdown_exchange_def)
  moreover have "own_inv ?w" using inv by (simp add: server_inv_def listener_stop_inv)
  moreover have "objs ?w x = None \<longleftrightarrow> objs (sv_store s) x = None" for x
    by (simp add: listener_stop_def objs_close_None)
  ultimately show ?thesis
    using inv pool_inv_shutdown(1) pool_count_same(3)
    by (cases "sv_pooled s") (auto simp: server_inv_def pool_inv_new pool_count_new simp del: not_None_eq)
qed

lemma with_router_fields [simp]:
  "sv_config (with_router f s) = sv_config s" "sv_listener (with_router f s) = sv_listener s"
  "sv_pooled (with_router f s) = sv_pooled s" "sv_pool (with_router f s) = sv_pool s"
  "sv_store (with_router f s) = sv_store s" "sv_conn (with_router f s) = sv_conn s"
  "sv_running (with_router f s) = sv_running s" "sv_router (with_router f s) = f (sv_router s)"
  by (simp_all add: with_router_def)

lemma server_inv_with_router [simp]: "server_inv (with_router f s) = server_inv s"
  by (simp add: server_inv_def owned_def)

lemma server_inv_new: "server_inv (new_server config)"
proof -
  have "own_inv (socket_new 0 (-1) empty_store)"
    by (intro own_inv_new own_inv_empty) (simp add: empty_store_def)
  moreover have "objs (socket_new 0 (-1) empty_store) x \<noteq> None \<longrightarrow> owned (new_server config) x" for x
    by (simp add: empty_store_def owned_def new_server_def)
  ultimately show ?thesis
    by (auto simp: server_inv_def pool_inv_new pool_count_new) (auto simp: new_server_def pool_inv_new pool_count_new)
qed

lemma server_inv_step: "server_step s s' \<Longrightarrow> server_inv s \<Longrightarrow> server_inv s'"
proof (induction rule: server_step.induct)
  case (start s tmp res s')
  show ?case by (rule server_inv_start [OF start.prems start.hyps(2,1,3,4)])
next
  case (accept s i j k fd now io io' s')
  show ?case by (rule server_inv_accept [OF accept.prems accept.hyps(2-8)])
next
  case (begin_task i s t p k)
  show ?case by (rule server_inv_begin [OF begin_task.prems begin_task.hyps])
next
  case (end_task i s t p)
  show ?case by (rule server_inv_end [OF end_task.prems end_task.hyps])
next
  case (pool s p)
  show ?case by (rule server_inv_pool [OF pool.prems pool.hyps(1,3,2)])
next
  case (stop s)
  then show ?case by (rule server_inv_stop)
qed

interpretation server: invariant_system "server_init config" server_step server_inv for config
  by unfold_locales (auto simp: server_init_def server_inv_new server_inv_step)

section \<open>A server that has started\<close>

text \<open>For the examples: the listener gets descriptor 3.\<close>

definition started_results :: start_results where
  "started_results = \<lparr>r_socket = 3, r_reuse = True, r_bind = 0, r_listen = 0\<rparr>"

definition started_server :: "Config \<Rightarrow> (Router \<Rightarrow> Router) \<Rightarrow> server" where
  "started_server config f = snd (server_start 1 started_results (with_router f (new_server config)))"

lemma server_start_started:
  "server_start 1 started_results (with_router f (new_server config)) =
     (if num_workers config > 0 then Pool_mode else Baseline_mode, started_server config f)"
  "started_server config f = (with_router f (new_server config))
     \<lparr>sv_store := \<lparr>objs = [0 \<mapsto> 3], open_fds = {3}, bad_closes = 0\<rparr>, sv_running := True,
      sv_pooled := num_workers config > 0\<rparr>"
  by (simp_all add: started_server_def server_start_def new_server_def with_router_def started_results_def
      listener_start_def Let_def socket_create_def socket_new_def socket_move_assign_def socket_close_def
      socket_destroy_def fd_of_def is_valid_def empty_store_def fun_eq_iff)

lemma started_server_fields [simp]:
  "sv_store (started_server config f) = \<lparr>objs = [0 \<mapsto> 3], open_fds = {3}, bad_closes = 0\<rparr>"
  "l_socket (sv_listener (started_server config f)) = 0" "sv_pool (started_server config f) = new_pool"
  "sv_config (started_server config f) = config" "sv_pooled (started_server config f) = (num_workers config > 0)"
  "sv_running (started_server config f)" "sv_router (started_server config f) = f new_router"
  by (simp_all add: server_start_started(2)) (simp_all add: new_server_def)

lemma started_step:
  assumes "num_workers config > 0"
  shows "server_step (with_router f (new_server config)) (started_server config f)"
proof (rule server_step.start)
  show "server_start 1 started_results (with_router f (new_server config)) = (Pool_mode, started_server config f)"
    using assms by (subst server_start_started(1)) simp
qed (simp_all add: new_server_def empty_store_def started_results_def)

lemma started_reach:
  assumes "num_workers config > 0"
  shows "server_reach config (started_server config f)"
proof -
  have "server_reach config (with_router f (new_server config))"
    by (rule reach_init) (auto simp: server_init_def)
  then show ?thesis using started_step [OF assms] by (rule reach_step)
qed

section \<open>No descriptor is leaked or closed twice\<close>

lemma shut_owned:
  assumes inv: "server_inv s" and shut: "shut (sv_pool s) = Shut" and x: "objs (sv_store s) x \<noteq> None"
  shows "x = l_socket (sv_listener s) \<or> x \<in> set (tasks (sv_pool s))"
proof -
  let ?n = "nat (num_workers (sv_config s))"
  have p: "pool_inv ?n (sv_pool s)" using inv by (simp add: server_inv_def)
  have "\<not> keeps (pcs (sv_pool s) i) (sv_conn s i) x" for i
  proof (cases "i < ?n")
    case True
    then have "pcs (sv_pool s) i = Exited" using shut_exited [OF p shut] by simp
    then show ?thesis by simp
  next
    case False
    then have "pcs (sv_pool s) i = At_loop" using p by (simp add: pool_inv_def)
    then show ?thesis by simp
  qed
  moreover have "owned s x" using inv x by (simp add: server_inv_def)
  ultimately show ?thesis by (simp add: owned_def)
qed

lemma server_destroy_clean:
  assumes inv: "server_inv s" and shut: "shut (sv_pool s) = Shut"
  shows "open_fds (server_destroy s) = {} \<and> bad_closes (server_destroy s) = 0"
proof -
  have own: "own_inv (server_destroy s)"
    using inv by (simp add: server_destroy_def server_inv_def own_inv_destroy own_inv_fold_destroy)
  moreover have "objs (server_destroy s) x = None" for x
    using shut_owned [OF inv shut, of x] by (cases "objs (sv_store s) x") (auto simp: server_destroy_def objs_fold_destroy)
  ultimately show ?thesis using no_object_no_fd own_no_bad by blast
qed

section \<open>A full queue\<close>

lemma enqueue_full:
  "mutex p = None \<Longrightarrow> m \<le> length (tasks p) \<or> stop p \<Longrightarrow> enqueue m t p = Some (False, p)"
  by (auto simp: enqueue_def)

lemma fd_of_move_new [simp]: "i \<noteq> other \<Longrightarrow> fd_of i (socket_move_new i other w) = fd_of other w"
  by (simp add: fd_of_def)

lemma overload_safe: "safe_response overload_response"
  by (simp add: overload_response_def safe_factories)

end
