(* ===== verification/Server_Baseline.thy ===== *)
theory Server_Baseline
  imports Server
begin

text \<open>
  \<open>Server::accept_loop_baseline\<close>, the loop of a server without workers, which gives every client
  a thread of its own, and \<open>src/main.cpp\<close>, which puts the program together.  A thread is the
  \<open>Socket\<close> object its closure owns, then also that of the connection it serves; the \<open>threads\<close>
  vector of the loop holds all of them, also those that have ended.
\<close>

section \<open>One thread per connection\<close>

datatype conn_thread = Spawned nat | Serving nat nat | Done_thread

record baseline =
  bl_server :: server
  bl_threads :: "conn_thread list"

definition with_store :: "store \<Rightarrow> baseline \<Rightarrow> baseline" where
  "with_store w s = s\<lparr>bl_server := (bl_server s)\<lparr>sv_store := w\<rparr>\<rparr>"

text \<open>
  One round of the loop; \<open>i\<close> is the object \<open>client\<close>, \<open>t\<close> the one in the closure.  None is the
  \<open>std::system_error\<close> of a thread that cannot be created, which nobody catches: the vector of
  joinable threads is destroyed, and that ends the process.
\<close>

definition baseline_round :: "nat \<Rightarrow> nat \<Rightarrow> int \<Rightarrow> bool \<Rightarrow> baseline \<Rightarrow> baseline option" where
  "baseline_round i t client_fd spawned s =
     (let w1 = listener_accept (sv_listener (bl_server s)) i client_fd (sv_store (bl_server s)) in
      if \<not> is_valid (fd_of i w1) then Some (with_store (socket_destroy i w1) s)
      else if \<not> spawned then None
      else Some ((with_store (socket_destroy i (socket_move_new t i w1)) s)
                   \<lparr>bl_threads := bl_threads s @ [Spawned t]\<rparr>))"

text \<open>The thread enters and leaves \<open>handle_connection\<close>.\<close>

definition thread_begin :: "nat \<Rightarrow> nat \<Rightarrow> nat \<Rightarrow> baseline \<Rightarrow> baseline" where
  "thread_begin j t k s =
     (with_store (socket_move_new k t (sv_store (bl_server s))) s)\<lparr>bl_threads := (bl_threads s)[j := Serving t k]\<rparr>"

definition thread_end :: "nat \<Rightarrow> nat \<Rightarrow> nat \<Rightarrow> baseline \<Rightarrow> baseline" where
  "thread_end j t k s =
     (with_store (socket_destroy t (socket_destroy k (sv_store (bl_server s)))) s)
       \<lparr>bl_threads := (bl_threads s)[j := Done_thread]\<rparr>"

text \<open>\<open>stop\<close> without a pool.\<close>

definition baseline_stop :: "baseline \<Rightarrow> baseline" where
  "baseline_stop s = s\<lparr>bl_server := server_stop (bl_server s)\<rparr>"

text \<open>The end of the loop: it returns once it has joined every thread; None while one still runs.\<close>

definition baseline_return :: "baseline \<Rightarrow> server option" where
  "baseline_return s =
     (if sv_running (bl_server s) then None
      else if list_all (\<lambda>t. t = Done_thread) (bl_threads s) then Some (bl_server s) else None)"

inductive baseline_step :: "baseline \<Rightarrow> baseline \<Rightarrow> bool" where
  round: "sv_running (bl_server s) \<Longrightarrow> objs (sv_store (bl_server s)) i = None \<Longrightarrow>
     objs (sv_store (bl_server s)) t = None \<Longrightarrow> i \<noteq> t \<Longrightarrow>
     fd = -1 \<or> 0 \<le> fd \<and> fd \<notin> open_fds (sv_store (bl_server s)) \<Longrightarrow>
     baseline_round i t fd spawned s = Some s' \<Longrightarrow> baseline_step s s'"
| begins: "j < length (bl_threads s) \<Longrightarrow> bl_threads s ! j = Spawned t \<Longrightarrow>
     objs (sv_store (bl_server s)) k = None \<Longrightarrow> baseline_step s (thread_begin j t k s)"
| ends: "j < length (bl_threads s) \<Longrightarrow> bl_threads s ! j = Serving t k \<Longrightarrow>
     baseline_step s (thread_end j t k s)"
| stop: "baseline_step s (baseline_stop s)"

text \<open>The loop starts where \<open>Server::start\<close> enters it.\<close>

definition baseline_init :: "Config \<Rightarrow> baseline \<Rightarrow> bool" where
  "baseline_init config s =
     (bl_threads s = [] \<and>
      (\<exists>f tmp res. tmp \<noteq> 0 \<and> r_socket res \<ge> 0 \<and>
         server_start tmp res (with_router f (new_server config)) = (Baseline_mode, bl_server s)))"

abbreviation baseline_reach :: "Config \<Rightarrow> baseline \<Rightarrow> bool" where
  "baseline_reach config \<equiv> reach (baseline_init config) baseline_step"

section \<open>Every socket has an owner\<close>

fun thread_keeps :: "conn_thread \<Rightarrow> nat \<Rightarrow> bool" where
  "thread_keeps (Spawned t) x = (x = t)"
| "thread_keeps (Serving t k) x = (x = t \<or> x = k)"
| "thread_keeps Done_thread x = False"

definition baseline_inv :: "baseline \<Rightarrow> bool" where
  "baseline_inv s =
     (own_inv (sv_store (bl_server s)) \<and>
      (\<forall>x g. objs (sv_store (bl_server s)) x = Some g \<longrightarrow>
         x = l_socket (sv_listener (bl_server s)) \<or> list_ex (\<lambda>th. thread_keeps th x) (bl_threads s)))"

lemma baseline_fields [simp]:
  "sv_store (bl_server (with_store w s)) = w" "sv_listener (bl_server (with_store w s)) = sv_listener (bl_server s)"
  "sv_running (bl_server (with_store w s)) = sv_running (bl_server s)"
  "bl_threads (with_store w s) = bl_threads s"
  by (simp_all add: with_store_def)

text \<open>Another thread's objects stay its own.\<close>

lemma keeps_other:
  "list_ex (\<lambda>th. thread_keeps th x) ths \<Longrightarrow> j < length ths \<Longrightarrow> \<not> thread_keeps (ths ! j) x \<Longrightarrow>
     list_ex (\<lambda>th. thread_keeps th x) (ths[j := th'])"
  unfolding list_ex_length by (metis length_list_update nth_list_update_neq)

lemma keeps_at:
  "j < length ths \<Longrightarrow> thread_keeps th' x \<Longrightarrow> list_ex (\<lambda>th. thread_keeps th x) (ths[j := th'])"
  unfolding list_ex_length by (intro exI [of _ j]) simp

lemma baseline_inv_round:
  assumes inv: "baseline_inv s" and fresh: "objs (sv_store (bl_server s)) i = None"
      "objs (sv_store (bl_server s)) t = None" "i \<noteq> t"
    and fd: "fd = -1 \<or> 0 \<le> fd \<and> fd \<notin> open_fds (sv_store (bl_server s))"
    and round: "baseline_round i t fd spawned s = Some s'"
  shows "baseline_inv s'"
proof -
  let ?w1 = "listener_accept (sv_listener (bl_server s)) i fd (sv_store (bl_server s))"
  have own1: "own_inv ?w1" using inv fresh(1) fd by (intro listener_accept_inv) (simp_all add: baseline_inv_def)
  have "objs ?w1 t = None" using fresh by (simp add: objs_listener_accept)
  with own1 have own2: "own_inv (socket_move_new t i ?w1)" by (rule own_inv_move_new)
  have live: "x = l_socket (sv_listener (bl_server s))"
    if "objs (sv_store (bl_server s)) x = Some g" "\<not> list_ex (\<lambda>th. thread_keeps th x) (bl_threads s)" for x g
    using inv that unfolding baseline_inv_def by blast
  show ?thesis
    using round own1 own2
    by (auto simp: baseline_round_def Let_def baseline_inv_def own_inv_destroy objs_listener_accept
        split: if_splits dest: live)
qed

lemma baseline_inv_begin:
  assumes inv: "baseline_inv s" and j: "j < length (bl_threads s)" "bl_threads s ! j = Spawned t"
    and k: "objs (sv_store (bl_server s)) k = None"
  shows "baseline_inv (thread_begin j t k s)"
proof -
  have "list_ex (\<lambda>th. thread_keeps th x) ((bl_threads s)[j := Serving t k])"
    if "x = t \<or> x = k \<or> list_ex (\<lambda>th. thread_keeps th x) (bl_threads s)" for x
    using that keeps_other [of x "bl_threads s" j "Serving t k"] keeps_at [of j "bl_threads s" "Serving t k" x] j
    by auto
  with inv k show ?thesis
    by (auto simp: baseline_inv_def thread_begin_def own_inv_move_new split: if_splits)
qed

lemma baseline_inv_end:
  assumes inv: "baseline_inv s" and j: "j < length (bl_threads s)" "bl_threads s ! j = Serving t k"
  shows "baseline_inv (thread_end j t k s)"
proof -
  have "list_ex (\<lambda>th. thread_keeps th x) ((bl_threads s)[j := Done_thread])"
    if "list_ex (\<lambda>th. thread_keeps th x) (bl_threads s)" "x \<noteq> t" "x \<noteq> k" for x
    using keeps_other [OF that(1) j(1)] j(2) that(2,3) by simp
  with inv show ?thesis
    by (auto simp: baseline_inv_def thread_end_def own_inv_destroy split: if_splits)
qed

lemma baseline_inv_step: "baseline_step s s' \<Longrightarrow> baseline_inv s \<Longrightarrow> baseline_inv s'"
proof (induction rule: baseline_step.induct)
  case (round s i t fd spawned s')
  show ?case by (rule baseline_inv_round [OF round.prems round.hyps(2-6)])
next
  case (begins j s t k)
  show ?case by (rule baseline_inv_begin [OF begins.prems begins.hyps])
next
  case (ends j s t k)
  show ?case by (rule baseline_inv_end [OF ends.prems ends.hyps])
next
  case (stop s)
  have "objs (listener_stop (sv_listener (bl_server s)) (sv_store (bl_server s))) x = None \<longleftrightarrow>
      objs (sv_store (bl_server s)) x = None" for x
    by (simp add: listener_stop_def objs_close_None)
  with stop show ?case
    by (simp add: baseline_inv_def baseline_stop_def listener_stop_inv) (metis option.exhaust option.distinct(1))
qed

lemma baseline_initE:
  assumes "baseline_init config s"
  obtains f tmp res w where "tmp \<noteq> 0" "0 \<le> r_socket res" "bl_threads s = []"
    "w = snd (listener_start (sv_listener (new_server config)) tmp res (sv_store (new_server config)))"
    "bl_server s = (with_router f (new_server config))\<lparr>sv_store := w, sv_running := True\<rparr>"
proof -
  obtain f tmp res where st: "tmp \<noteq> 0" "0 \<le> r_socket res" "bl_threads s = []"
    "server_start tmp res (with_router f (new_server config)) = (Baseline_mode, bl_server s)"
    using assms by (auto simp: baseline_init_def)
  have "bl_server s = (with_router f (new_server config))\<lparr>sv_store :=
      snd (listener_start (sv_listener (new_server config)) tmp res (sv_store (new_server config))), sv_running := True\<rparr>"
    using st(4) by (auto simp: server_start_def Let_def split: prod.splits if_splits)
  with st(1-3) show ?thesis by (intro that [of tmp res _ f]) simp_all
qed

lemma baseline_inv_init:
  assumes "baseline_init config s"
  shows "baseline_inv s"
proof -
  obtain f tmp res w where st: "tmp \<noteq> 0" "0 \<le> r_socket res" "bl_threads s = []"
    and w: "w = snd (listener_start (sv_listener (new_server config)) tmp res (sv_store (new_server config)))"
    and s: "bl_server s = (with_router f (new_server config))\<lparr>sv_store := w, sv_running := True\<rparr>"
    using assms by (rule baseline_initE)
  have "own_inv (sv_store (new_server config))" using server_inv_new by (simp add: server_inv_def)
  then have "own_inv w"
    unfolding w by (rule listener_start_inv) (use st in \<open>auto simp: new_server_def empty_store_def\<close>)
  moreover have "x = l_socket (sv_listener (new_server config))" if "objs w x \<noteq> None" for x
    using objs_listener_start [OF that [unfolded w]]
    by (auto simp: new_server_def empty_store_def split: if_splits)
  ultimately show ?thesis by (auto simp: baseline_inv_def s)
qed

interpretation baseline: invariant_system "baseline_init config" baseline_step baseline_inv for config
  by unfold_locales (auto intro: baseline_inv_init baseline_inv_step)

text \<open>When the loop has returned only the listener is left.\<close>

lemma baseline_return_clean:
  assumes inv: "baseline_inv s" and ret: "baseline_return s = Some sv"
  shows "open_fds (socket_destroy (l_socket (sv_listener sv)) (sv_store sv)) = {} \<and>
    bad_closes (socket_destroy (l_socket (sv_listener sv)) (sv_store sv)) = 0"
proof -
  have sv: "sv = bl_server s" "\<And>x. \<not> list_ex (\<lambda>th. thread_keeps th x) (bl_threads s)"
    using ret by (auto simp: baseline_return_def list_all_iff list_ex_iff split: if_splits)
  let ?w = "socket_destroy (l_socket (sv_listener sv)) (sv_store sv)"
  have own: "own_inv ?w" using inv sv by (simp add: baseline_inv_def own_inv_destroy)
  moreover have "objs ?w x = None" for x
    using inv sv by (cases "objs (sv_store sv) x") (auto simp: baseline_inv_def)
  ultimately show ?thesis using no_object_no_fd own_no_bad by blast
qed

section \<open>The vector of threads\<close>

text \<open>A client that comes and goes leaves its thread in the vector.\<close>

lemma baseline_client:
  assumes run: "sv_running (bl_server s)" and l: "l_socket (sv_listener (bl_server s)) = 0"
    and st: "sv_store (bl_server s) = \<lparr>objs = [0 \<mapsto> 3], open_fds = {3}, bad_closes = 0\<rparr>"
  shows "baseline_step\<^sup>*\<^sup>* s (s\<lparr>bl_threads := bl_threads s @ [Done_thread]\<rparr>)"
proof -
  let ?n = "length (bl_threads s)"
  define w where "w = \<lparr>objs = [0 \<mapsto> 3, 2 \<mapsto> (4 :: int)], open_fds = {4, 3 :: int}, bad_closes = 0\<rparr>"
  define s1 where "s1 = (with_store w s)\<lparr>bl_threads := bl_threads s @ [Spawned 2]\<rparr>"
  have "baseline_round 1 2 4 True s = Some s1"
    by (simp add: baseline_round_def s1_def w_def Let_def listener_accept_def l st socket_create_def socket_new_def
        socket_move_new_def socket_destroy_def socket_close_def fd_of_def is_valid_def fun_eq_iff with_store_def)
  then have 1: "baseline_step s s1"
    by (intro baseline_step.round [OF run _ _ _ _ , of 1 2 4 True]) (simp_all add: st)
  define s2 where "s2 = thread_begin ?n 2 3 s1"
  have 2: "baseline_step s1 s2"
    unfolding s2_def by (rule baseline_step.begins) (simp_all add: s1_def w_def)
  have 3: "baseline_step s2 (thread_end ?n 2 3 s2)"
    by (rule baseline_step.ends) (simp_all add: s2_def thread_begin_def s1_def)
  have "thread_end ?n 2 3 s2 = s\<lparr>bl_threads := bl_threads s @ [Done_thread]\<rparr>"
    by (cases s; cases "bl_server s")
      (use st in \<open>simp add: thread_end_def s2_def thread_begin_def s1_def w_def with_store_def socket_move_new_def
        socket_destroy_def socket_close_def sys_close_def fd_of_def is_valid_def fun_eq_iff\<close>)
  with 1 2 3 show ?thesis by (metis converse_rtranclp_into_rtranclp rtranclp.rtrancl_refl)
qed

lemma baseline_clients:
  assumes "sv_running (bl_server s)" "l_socket (sv_listener (bl_server s)) = 0"
    "sv_store (bl_server s) = \<lparr>objs = [0 \<mapsto> 3], open_fds = {3}, bad_closes = 0\<rparr>" "bl_threads s = []"
  shows "baseline_step\<^sup>*\<^sup>* s (s\<lparr>bl_threads := replicate n Done_thread\<rparr>)"
proof (induction n)
  case 0
  with assms(4) show ?case by (cases s) simp
next
  case (Suc n)
  let ?t = "s\<lparr>bl_threads := replicate n Done_thread\<rparr>"
  have "baseline_step\<^sup>*\<^sup>* ?t (?t\<lparr>bl_threads := bl_threads ?t @ [Done_thread]\<rparr>)"
    by (rule baseline_client) (simp_all add: assms)
  with Suc show ?case by (simp add: replicate_append_same)
qed

lemma baseline_started:
  fixes config :: Config and f :: "Router \<Rightarrow> Router"
  assumes "num_workers config \<le> 0"
  defines "s \<equiv> \<lparr>bl_server = started_server config f, bl_threads = []\<rparr>"
  shows "baseline_init config s" "sv_running (bl_server s)" "l_socket (sv_listener (bl_server s)) = 0"
    "sv_store (bl_server s) = \<lparr>objs = [0 \<mapsto> 3], open_fds = {3}, bad_closes = 0\<rparr>" "bl_threads s = []"
proof -
  have "0 \<le> r_socket started_results" by (simp add: started_results_def)
  moreover have "server_start 1 started_results (with_router f (new_server config)) = (Baseline_mode, bl_server s)"
    using assms(1) by (subst server_start_started(1)) (simp add: s_def)
  ultimately show "baseline_init config s"
    unfolding baseline_init_def by (metis one_neq_zero s_def baseline.select_convs(2))
qed (simp_all add: s_def)

definition no_workers :: Config where
  "no_workers = default_config\<lparr>num_workers := 0\<rparr>"

section \<open>The program\<close>

text \<open>\<open>main\<close>, up to the loop of the server it starts, with the router it has set up; \<open>--help\<close> and a
  listener that cannot be opened end it with 0, an exception of the command line with \<open>terminate\<close>.\<close>

datatype process = Exits int | Terminated | Runs start_mode server

definition program :: "string list \<Rightarrow> nat \<Rightarrow> start_results \<Rightarrow> process" where
  "program args tmp res =
     (case parse_args args of
        Help_exit \<Rightarrow> Exits 0
      | Uncaught e \<Rightarrow> Terminated
      | Parsed config \<Rightarrow>
          (case server_start tmp res (server_setup_routes (new_server config)) of
             (Not_started, s) \<Rightarrow> Exits 0
           | (mode, s) \<Rightarrow> Runs mode s))"

text \<open>The handler of SIGINT and SIGTERM, over the global pointer.\<close>

definition signal_handler :: "server option \<Rightarrow> server option" where
  "signal_handler g_server = (case g_server of None \<Rightarrow> None | Some s \<Rightarrow> Some (server_stop s))"

lemma server_start_up:
  assumes "tmp \<noteq> 0" "r_socket res \<noteq> -1" "r_bind res \<noteq> -1" "r_listen res \<noteq> -1"
  obtains s where "server_start tmp res (server_setup_routes (new_server config)) =
      (if num_workers config > 0 then Pool_mode else Baseline_mode, s)"
    "sv_config s = config" "sv_running s" "sv_router s = default_router config" "l_port (sv_listener s) = port config"
    "fd_of (l_socket (sv_listener s)) (sv_store s) = r_socket res"
proof -
  let ?s = "server_setup_routes (new_server config)"
  have l: "tmp \<noteq> l_socket (sv_listener ?s)" "objs (sv_store ?s) tmp = None"
    using assms(1) by (simp_all add: new_server_def empty_store_def server_setup_routes_def)
  have fd: "fd_of (l_socket (sv_listener ?s)) (snd (listener_start (sv_listener ?s) tmp res (sv_store ?s))) = r_socket res"
    using l assms(2)
    by (auto simp: listener_start_def Let_def socket_destroy_def socket_close_def socket_move_assign_def
        fd_of_def is_valid_def sys_close_def)
  then have "fst (listener_start (sv_listener ?s) tmp res (sv_store ?s))"
    using assms(2-4) by (auto simp: listener_start_def Let_def is_valid_def)
  with fd show ?thesis
    by (intro that [of "snd (server_start tmp res ?s)"])
      (auto simp: server_start_def Let_def new_server_def server_setup_routes_def default_router_def split: prod.splits)
qed

end
