(* ===== verification/Baseline_World.thy ===== *)
theory Baseline_World
  imports Server_Baseline Server_Conversation
begin

text \<open>
  The server without a pool and its clients: the stream behind every open descriptor, one thread of
  \<open>Server_Baseline\<close> per client, each of which runs \<open>handle_connection\<close> on the stream of the
  descriptor its connection holds.  Client number \<open>j\<close> is the one of the \<open>j\<close>-th thread of the vector.
\<close>

section \<open>A thread and its objects\<close>

text \<open>The object that holds the descriptor of a thread's client.\<close>

fun thread_client :: "conn_thread \<Rightarrow> nat option" where
  "thread_client (Spawned t) = Some t"
| "thread_client (Serving t k) = Some k"
| "thread_client Done_thread = None"

lemma thread_client_keeps: "thread_client th = Some x \<Longrightarrow> thread_keeps th x"
  by (cases th) auto

text \<open>No two threads share an object, all objects of threads live, none is the listener's (\<open>l\<close>), and the
  one that stands for the client has a descriptor.\<close>

definition threads_ok :: "conn_thread list \<Rightarrow> nat \<Rightarrow> store \<Rightarrow> bool" where
  "threads_ok ths l w =
     (objs w l \<noteq> None \<and>
      (\<forall>j<length ths. \<forall>x. thread_keeps (ths ! j) x \<longrightarrow> objs w x \<noteq> None \<and> x \<noteq> l) \<and>
      (\<forall>i<length ths. \<forall>j<length ths. \<forall>x. thread_keeps (ths ! i) x \<and> thread_keeps (ths ! j) x \<longrightarrow> i = j) \<and>
      (\<forall>j<length ths. \<forall>x. thread_client (ths ! j) = Some x \<longrightarrow> fd_of x w \<noteq> -1))"

lemma threads_okI:
  assumes "objs w l \<noteq> None"
    and "\<And>j x. j < length ths \<Longrightarrow> thread_keeps (ths ! j) x \<Longrightarrow> objs w x \<noteq> None \<and> x \<noteq> l"
    and "\<And>i j x. i < length ths \<Longrightarrow> j < length ths \<Longrightarrow> thread_keeps (ths ! i) x \<Longrightarrow> thread_keeps (ths ! j) x \<Longrightarrow> i = j"
    and "\<And>j x. j < length ths \<Longrightarrow> thread_client (ths ! j) = Some x \<Longrightarrow> fd_of x w \<noteq> -1"
  shows "threads_ok ths l w"
  using assms unfolding threads_ok_def by blast

lemma threads_okD:
  assumes "threads_ok ths l w"
  shows "objs w l \<noteq> None"
    and "j < length ths \<Longrightarrow> thread_keeps (ths ! j) x \<Longrightarrow> objs w x \<noteq> None \<and> x \<noteq> l"
    and "i < length ths \<Longrightarrow> j < length ths \<Longrightarrow> thread_keeps (ths ! i) x \<Longrightarrow> thread_keeps (ths ! j) x \<Longrightarrow> i = j"
    and "j < length ths \<Longrightarrow> thread_client (ths ! j) = Some x \<Longrightarrow> fd_of x w \<noteq> -1"
  using assms unfolding threads_ok_def by blast+

text \<open>One thread moves: what it kept may change, what is new was free.\<close>

lemma threads_ok_at:
  assumes inv: "threads_ok ths l w" and j: "j < length ths"
    and other: "\<And>x. objs w x \<noteq> None \<Longrightarrow> \<not> thread_keeps (ths ! j) x \<Longrightarrow> objs w' x = objs w x"
    and new: "\<And>x. thread_keeps th x \<Longrightarrow> (thread_keeps (ths ! j) x \<or> objs w x = None) \<and> objs w' x \<noteq> None"
    and fd: "\<And>x. thread_client th = Some x \<Longrightarrow> fd_of x w' \<noteq> -1"
  shows "threads_ok (ths[j := th]) l w'"
proof (rule threads_okI)
  note D = threads_okD [OF inv]
  have frame: "objs w' x = objs w x" "\<not> thread_keeps th x"
    if "i < length ths" "i \<noteq> j" "thread_keeps (ths ! i) x" for i x
  proof -
    have "\<not> thread_keeps (ths ! j) x" "objs w x \<noteq> None" using D(2,3) j that by blast+
    then show "objs w' x = objs w x" "\<not> thread_keeps th x" using other new [of x] by auto
  qed
  show "objs w' l \<noteq> None" using other [of l] D(1) D(2) [OF j, of l] by (cases "thread_keeps (ths ! j) l") auto
  show "objs w' x \<noteq> None \<and> x \<noteq> l" if "i < length (ths[j := th])" "thread_keeps (ths[j := th] ! i) x" for i x
  proof (cases "i = j")
    case True
    with that have th: "thread_keeps th x" by simp
    with new [of x] D(1) D(2) [OF j, of x] show ?thesis by auto
  next
    case False
    with that have i: "i < length ths" "thread_keeps (ths ! i) x" by simp_all
    with frame(1) [OF i(1) False i(2)] D(2) [OF i] show ?thesis by simp
  qed
  show "i = i'" if "i < length (ths[j := th])" "i' < length (ths[j := th])"
    "thread_keeps (ths[j := th] ! i) x" "thread_keeps (ths[j := th] ! i') x" for i i' x
    using that frame(2) [of i x] frame(2) [of i' x] D(3) [of i i' x] by (cases "i = j"; cases "i' = j") auto
  show "fd_of x w' \<noteq> -1" if "i < length (ths[j := th])" "thread_client (ths[j := th] ! i) = Some x" for i x
  proof (cases "i = j")
    case True
    with that fd show ?thesis by simp
  next
    case False
    with that have c: "i < length ths" "thread_client (ths ! i) = Some x" by simp_all
    with frame(1) [OF c(1) False thread_client_keeps [OF c(2)]] D(4) [OF c] show ?thesis by (simp add: fd_of_def)
  qed
qed

text \<open>The loop moves: all that lives stays as it is, but the listener; a client may have come.\<close>

lemma threads_ok_frame:
  assumes inv: "threads_ok ths l w" and lis: "objs w' l \<noteq> None"
    and other: "\<And>x. objs w x \<noteq> None \<Longrightarrow> x \<noteq> l \<Longrightarrow> objs w' x = objs w x"
  shows "threads_ok ths l w'"
proof (rule threads_okI)
  note D = threads_okD [OF inv]
  have frame: "objs w' x = objs w x" if "i < length ths" "thread_keeps (ths ! i) x" for i x
    using other D(2) [OF that] by blast
  show "objs w' x \<noteq> None \<and> x \<noteq> l" if "i < length ths" "thread_keeps (ths ! i) x" for i x
    using D(2) [OF that] frame [OF that] by simp
  show "fd_of x w' \<noteq> -1" if "i < length ths" "thread_client (ths ! i) = Some x" for i x
    using frame [OF that(1) thread_client_keeps [OF that(2)]] D(4) [OF that] by (simp add: fd_of_def)
qed (use lis threads_okD(3) [OF inv] in blast)+

lemma threads_ok_snoc:
  assumes inv: "threads_ok ths l w" and t: "objs w t = None" "fd \<noteq> -1"
    and w': "objs w' = (objs w)(t \<mapsto> fd)"
  shows "threads_ok (ths @ [Spawned t]) l w'"
proof -
  have l: "t \<noteq> l" using threads_okD(1) [OF inv] t(1) by auto
  have ok: "threads_ok ths l w'"
    by (rule threads_ok_frame [OF inv]) (use t(1) l threads_okD(1) [OF inv] in \<open>auto simp: w'\<close>)
  have free: "\<not> thread_keeps (ths ! i) t" if "i < length ths" for i
    using threads_okD(2) [OF inv that, of t] t(1) by blast
  show ?thesis
  proof (rule threads_okI)
    show "objs w' l \<noteq> None" using threads_okD(1) [OF ok] .
    show "objs w' x \<noteq> None \<and> x \<noteq> l" if "j < length (ths @ [Spawned t])" "thread_keeps ((ths @ [Spawned t]) ! j) x" for j x
      using that threads_okD(2) [OF ok, of j x] l w' by (cases "j < length ths") (auto simp: nth_append less_Suc_eq)
    show "i = j" if "i < length (ths @ [Spawned t])" "j < length (ths @ [Spawned t])"
      "thread_keeps ((ths @ [Spawned t]) ! i) x" "thread_keeps ((ths @ [Spawned t]) ! j) x" for i j x
      using that threads_okD(3) [OF ok, of i j x] free
      by (cases "i < length ths"; cases "j < length ths") (auto simp: nth_append less_Suc_eq)
    show "fd_of x w' \<noteq> -1" if "j < length (ths @ [Spawned t])" "thread_client ((ths @ [Spawned t]) ! j) = Some x" for j x
      using that threads_okD(4) [OF ok, of j x] w' t(2)
      by (cases "j < length ths") (auto simp: nth_append less_Suc_eq fd_of_def)
  qed
qed

abbreviation base_ok :: "baseline \<Rightarrow> bool" where
  "base_ok s \<equiv> threads_ok (bl_threads s) (l_socket (sv_listener (bl_server s))) (sv_store (bl_server s))"

text \<open>What a round of the loop does.\<close>

lemma baseline_roundE:
  assumes "baseline_round i t fd spawned s = Some s'"
    and fresh: "objs (sv_store (bl_server s)) i = None" "objs (sv_store (bl_server s)) t = None" "i \<noteq> t"
  obtains (nobody) w where "s' = with_store w s" "objs w = objs (sv_store (bl_server s))"
  | (client) w where "s' = (with_store w s)\<lparr>bl_threads := bl_threads s @ [Spawned t]\<rparr>"
      "objs w = (objs (sv_store (bl_server s)))(t \<mapsto> fd)" "fd \<noteq> -1"
proof -
  let ?w1 = "listener_accept (sv_listener (bl_server s)) i fd (sv_store (bl_server s))"
  have o1: "objs ?w1 = (objs (sv_store (bl_server s)))(i \<mapsto> fd_of i ?w1)" by (simp add: objs_listener_accept)
  show ?thesis
  proof (cases "is_valid (fd_of i ?w1)")
    case False
    with assms(1) have "s' = with_store (socket_destroy i ?w1) s" by (simp add: baseline_round_def Let_def)
    moreover have "objs (socket_destroy i ?w1) = objs (sv_store (bl_server s))"
      using o1 fresh(1) by (auto simp: fun_eq_iff)
    ultimately show ?thesis by (rule nobody)
  next
    case True
    then have fd: "fd_of i ?w1 = fd" "fd \<noteq> -1"
      by (auto simp: listener_accept_def socket_create_def is_valid_def split: if_splits)
    let ?w = "socket_destroy i (socket_move_new t i ?w1)"
    have "s' = (with_store ?w s)\<lparr>bl_threads := bl_threads s @ [Spawned t]\<rparr>"
      using assms(1) True by (auto simp: baseline_round_def Let_def split: if_splits)
    moreover have "objs ?w = (objs (sv_store (bl_server s)))(t \<mapsto> fd)"
      using o1 fresh fd by (auto simp: fun_eq_iff)
    ultimately show ?thesis using fd(2) by (rule client)
  qed
qed

lemma base_ok_round:
  assumes inv: "base_ok s" and round: "baseline_round i t fd spawned s = Some s'"
    and fresh: "objs (sv_store (bl_server s)) i = None" "objs (sv_store (bl_server s)) t = None" "i \<noteq> t"
  shows "base_ok s'"
  using round fresh
proof (cases rule: baseline_roundE)
  case (nobody w)
  with inv threads_okD(1) [OF inv] show ?thesis
    by simp (rule threads_ok_frame, simp_all)
next
  case (client w)
  from threads_ok_snoc [OF inv fresh(2) client(3,2)] client(1) show ?thesis by simp
qed

lemma base_ok_begin:
  assumes inv: "base_ok s" and j: "j < length (bl_threads s)" "bl_threads s ! j = Spawned t"
    and k: "objs (sv_store (bl_server s)) k = None"
  shows "base_ok (thread_begin j t k s)"
proof -
  have tk: "t \<noteq> k" using threads_okD(2) [OF inv j(1), of t] j(2) k by auto
  have "fd_of t (sv_store (bl_server s)) \<noteq> -1" using threads_okD(4) [OF inv j(1), of t] j(2) by simp
  with tk k show ?thesis
    using threads_okD(2) [OF inv j(1)] j(2)
    by (simp add: thread_begin_def) (rule threads_ok_at [OF inv j(1)], auto simp: fd_of_def)
qed

lemma base_ok_end:
  assumes inv: "base_ok s" and j: "j < length (bl_threads s)" "bl_threads s ! j = Serving t k"
  shows "base_ok (thread_end j t k s)"
  using j(2) by (simp add: thread_end_def) (rule threads_ok_at [OF inv j(1)], auto)

lemma base_ok_stop:
  assumes inv: "base_ok s"
  shows "base_ok (baseline_stop s)"
  using threads_okD(1) [OF inv]
  by (simp add: baseline_stop_def listener_stop_def) (rule threads_ok_frame [OF inv], auto simp: objs_close_None socket_close_other)

lemma base_ok_init:
  assumes "baseline_init config s"
  shows "base_ok s"
proof -
  obtain f tmp res w where st: "tmp \<noteq> 0" "bl_threads s = []"
    and w: "w = snd (listener_start (sv_listener (new_server config)) tmp res (sv_store (new_server config)))"
    and s: "bl_server s = (with_router f (new_server config))\<lparr>sv_store := w, sv_running := True\<rparr>"
    using assms by (rule baseline_initE)
  have "objs (sv_store (new_server config)) tmp = None" "tmp \<noteq> l_socket (sv_listener (new_server config))"
    using st(1) by (simp_all add: new_server_def empty_store_def)
  from listener_start_objs [OF this, of res] show ?thesis
    by (simp add: threads_ok_def st(2) s w)
qed

section \<open>The server with its clients\<close>

text \<open>\<open>cr_arrived\<close> has the streams of the clients in the order of their threads; \<open>cr_served\<close> the numbers of
  those whose thread has ended, in that order, each with the stream the handler found, the clock it
  read, and the stream it left.\<close>

record crowd =
  cr_base :: baseline
  cr_stream :: "int \<Rightarrow> net_io"
  cr_arrived :: "net_io list"
  cr_served :: "(nat \<times> net_io \<times> (int \<Rightarrow> nat) \<times> net_io) list"

text \<open>The body of thread \<open>j\<close> from its \<open>Connection\<close> to its end.  There is no \<open>try\<close> in the closure, so an
  exception of the handler is \<open>std::terminate\<close>, which ends the process as SIGPIPE does.\<close>

datatype thread_result = Thread_ends crowd | Process_ends | Thread_waits

definition thread_serve :: "filesystem \<Rightarrow> (int \<Rightarrow> nat) \<Rightarrow> nat \<Rightarrow> nat \<Rightarrow> nat \<Rightarrow> crowd \<Rightarrow> thread_result" where
  "thread_serve fs clock j t k c =
     (let s = bl_server (cr_base c); fd = fd_of k (sv_store s) in
      case handle_connection fs clock (sv_config s) (sv_router s) fd (cr_stream c fd) of
        (Returned, io') \<Rightarrow>
          Thread_ends (c\<lparr>cr_base := thread_end j t k (cr_base c), cr_stream := (cr_stream c)(fd := io'),
            cr_served := cr_served c @ [(j, cr_stream c fd, clock, io')]\<rparr>)
      | (Threw, io') \<Rightarrow> Process_ends
      | (Died, io') \<Rightarrow> Process_ends
      | (Waits, io') \<Rightarrow> Thread_waits)"

inductive crowd_step :: "filesystem \<Rightarrow> crowd \<Rightarrow> crowd \<Rightarrow> bool" for fs :: filesystem where
  client: "sv_running (bl_server (cr_base c)) \<Longrightarrow> objs (sv_store (bl_server (cr_base c))) i = None \<Longrightarrow>
     objs (sv_store (bl_server (cr_base c))) t = None \<Longrightarrow> i \<noteq> t \<Longrightarrow>
     0 \<le> fd \<Longrightarrow> fd \<notin> open_fds (sv_store (bl_server (cr_base c))) \<Longrightarrow> wire io = [] \<Longrightarrow>
     baseline_round i t fd True (cr_base c) = Some s' \<Longrightarrow>
     bl_threads s' = bl_threads (cr_base c) @ [Spawned t] \<Longrightarrow>
     crowd_step fs c (c\<lparr>cr_base := s', cr_stream := (cr_stream c)(fd := io), cr_arrived := cr_arrived c @ [io]\<rparr>)"
| nobody: "sv_running (bl_server (cr_base c)) \<Longrightarrow> objs (sv_store (bl_server (cr_base c))) i = None \<Longrightarrow>
     objs (sv_store (bl_server (cr_base c))) t = None \<Longrightarrow> i \<noteq> t \<Longrightarrow>
     fd = -1 \<or> 0 \<le> fd \<and> fd \<notin> open_fds (sv_store (bl_server (cr_base c))) \<Longrightarrow>
     baseline_round i t fd True (cr_base c) = Some s' \<Longrightarrow> bl_threads s' = bl_threads (cr_base c) \<Longrightarrow>
     crowd_step fs c (c\<lparr>cr_base := s'\<rparr>)"
| begins: "j < length (bl_threads (cr_base c)) \<Longrightarrow> bl_threads (cr_base c) ! j = Spawned t \<Longrightarrow>
     objs (sv_store (bl_server (cr_base c))) k = None \<Longrightarrow>
     crowd_step fs c (c\<lparr>cr_base := thread_begin j t k (cr_base c)\<rparr>)"
| serves: "j < length (bl_threads (cr_base c)) \<Longrightarrow> bl_threads (cr_base c) ! j = Serving t k \<Longrightarrow>
     thread_serve fs clock j t k c = Thread_ends c' \<Longrightarrow> crowd_step fs c c'"
| stop: "crowd_step fs c (c\<lparr>cr_base := baseline_stop (cr_base c)\<rparr>)"

definition crowd_init :: "Config \<Rightarrow> crowd \<Rightarrow> bool" where
  "crowd_init config c = (baseline_init config (cr_base c) \<and> cr_arrived c = [] \<and> cr_served c = [])"

abbreviation crowd_reach :: "filesystem \<Rightarrow> Config \<Rightarrow> crowd \<Rightarrow> bool" where
  "crowd_reach fs config \<equiv> reach (crowd_init config) (crowd_step fs)"

lemma thread_serve_ends:
  assumes "thread_serve fs clock j t k c = Thread_ends c'"
  obtains fd io' where "fd = fd_of k (sv_store (bl_server (cr_base c)))"
    "handle_connection fs clock (sv_config (bl_server (cr_base c))) (sv_router (bl_server (cr_base c))) fd
       (cr_stream c fd) = (Returned, io')"
    "c' = c\<lparr>cr_base := thread_end j t k (cr_base c), cr_stream := (cr_stream c)(fd := io'),
       cr_served := cr_served c @ [(j, cr_stream c fd, clock, io')]\<rparr>"
  using assms by (auto simp: thread_serve_def Let_def split: prod.splits handler_end.splits)

text \<open>Every step is one of the loop.\<close>

lemma crowd_step_base: "crowd_step fs c c' \<Longrightarrow> baseline_step (cr_base c) (cr_base c')"
proof (induction rule: crowd_step.induct)
  case (client c i t fd io s')
  then show ?case by (auto intro: baseline_step.round)
next
  case (nobody c i t fd s')
  then show ?case by (auto intro: baseline_step.round)
next
  case (serves j c t k clock c')
  then show ?case by (auto elim!: thread_serve_ends intro: baseline_step.ends)
qed (auto intro: baseline_step.begins baseline_step.stop)

interpretation crowd_loop: refinement_mapping "crowd_init config" "crowd_step fs"
    "\<lambda>c. baseline_inv (cr_base c)" "baseline_init config" baseline_step cr_base for config fs
proof unfold_locales
  fix c c' :: crowd
  assume "crowd_init config c"
  then show "baseline_init config (cr_base c)" "baseline_inv (cr_base c)"
    using baseline.inv_init by (auto simp: crowd_init_def)
next
  fix c c' :: crowd
  assume inv: "baseline_inv (cr_base c)" and step: "crowd_step fs c c'"
  note s = crowd_step_base [OF step]
  from baseline_inv_step [OF s inv] show "baseline_inv (cr_base c')" .
  from s show "cr_base c' = cr_base c \<or> baseline_step (cr_base c) (cr_base c')" ..
qed

section \<open>Every client has its own thread and its own stream\<close>

text \<open>The streams of the clients not served yet are as they brought them.\<close>

definition untouched :: "conn_thread list \<Rightarrow> store \<Rightarrow> (int \<Rightarrow> net_io) \<Rightarrow> net_io list \<Rightarrow> bool" where
  "untouched ths w st ios =
     (length ios = length ths \<and>
      (\<forall>j<length ths. \<forall>x. thread_client (ths ! j) = Some x \<longrightarrow> st (fd_of x w) = ios ! j))"

lemma untouched_snoc:
  assumes un: "untouched ths w st ios" and ok: "threads_ok ths l w" and own: "own_inv w"
    and t: "objs w t = None" "fd \<notin> open_fds w" and w': "objs w' = (objs w)(t \<mapsto> fd)"
  shows "untouched (ths @ [Spawned t]) w' (st(fd := io)) (ios @ [io])"
proof -
  have "(st(fd := io)) (fd_of x w') = ios ! j" if j: "j < length ths" "thread_client (ths ! j) = Some x" for j x
  proof -
    have "objs w x \<noteq> None" using threads_okD(2) [OF ok j(1) thread_client_keeps [OF j(2)]] by blast
    with t(1) have "fd_of x w' = fd_of x w" by (auto simp: fd_of_def w')
    moreover have "fd_of x w \<in> open_fds w"
      using own_inv_owned [OF own, of x] threads_okD(4) [OF ok j] by (simp add: is_valid_def)
    ultimately show ?thesis using un j t(2) by (auto simp: untouched_def)
  qed
  moreover have "fd_of t w' = fd" by (simp add: fd_of_def w')
  ultimately show ?thesis
    using un unfolding untouched_def by (auto simp: nth_append less_Suc_eq)
qed

lemma untouched_frame:
  assumes un: "untouched ths w st ios" and ok: "threads_ok ths l w"
    and other: "\<And>x. objs w x \<noteq> None \<Longrightarrow> x \<noteq> l \<Longrightarrow> objs w' x = objs w x"
  shows "untouched ths w' st ios"
  using un threads_okD(2) [OF ok] thread_client_keeps other unfolding untouched_def fd_of_def by metis

text \<open>One thread moves: the client stays, or it has been served and its stream may change.\<close>

lemma untouched_at:
  assumes un: "untouched ths w st ios" and ok: "threads_ok ths l w" and own: "own_inv w" and j: "j < length ths"
    and c: "thread_client (ths ! j) = Some y"
    and th: "\<And>x. thread_client th = Some x \<Longrightarrow> fd_of x w' = fd_of y w \<and> io = st (fd_of y w)"
    and other: "\<And>x. objs w x \<noteq> None \<Longrightarrow> \<not> thread_keeps (ths ! j) x \<Longrightarrow> objs w' x = objs w x"
  shows "untouched (ths[j := th]) w' (st(fd_of y w := io)) ios"
proof -
  have "(st(fd_of y w := io)) (fd_of x w') = ios ! i" if i: "i < length ths" "thread_client (ths[j := th] ! i) = Some x" for i x
  proof (cases "i = j")
    case True
    with i th un j c show ?thesis by (simp add: untouched_def)
  next
    case False
    with i have x: "thread_client (ths ! i) = Some x" by simp
    note keeps = thread_client_keeps [OF x]
    have "\<not> thread_keeps (ths ! j) x" using threads_okD(3) [OF ok i(1) j keeps] False by blast
    moreover from this have "x \<noteq> y" using thread_client_keeps [OF c] by blast
    then have "fd_of x w \<noteq> fd_of y w" using fd_unique [OF own _ threads_okD(4) [OF ok i(1) x]] by blast
    ultimately show ?thesis
      using other [of x] threads_okD(2) [OF ok i(1) keeps] un i(1) x by (simp add: untouched_def fd_of_def)
  qed
  then show ?thesis using un unfolding untouched_def by simp
qed

definition conducted :: "filesystem \<Rightarrow> server \<Rightarrow> net_io \<Rightarrow> (int \<Rightarrow> nat) \<Rightarrow> net_io \<Rightarrow> bool" where
  "conducted fs s io clock io' =
     (\<exists>fd. fd \<noteq> -1 \<and> handle_connection fs clock (sv_config s) (sv_router s) fd io = (Returned, io'))"

definition crowd_inv :: "filesystem \<Rightarrow> crowd \<Rightarrow> bool" where
  "crowd_inv fs c =
     (base_ok (cr_base c) \<and>
      untouched (bl_threads (cr_base c)) (sv_store (bl_server (cr_base c))) (cr_stream c) (cr_arrived c) \<and>
      (\<forall>io\<in>set (cr_arrived c). wire io = []) \<and>
      distinct (map fst (cr_served c)) \<and>
      set (map fst (cr_served c)) = {j. j < length (bl_threads (cr_base c)) \<and> bl_threads (cr_base c) ! j = Done_thread} \<and>
      (\<forall>(j, io, clock, io')\<in>set (cr_served c). io = cr_arrived c ! j \<and> conducted fs (bl_server (cr_base c)) io clock io'))"

lemma conducted_cong: "sv_config s' = sv_config s \<Longrightarrow> sv_router s' = sv_router s \<Longrightarrow> conducted fs s' = conducted fs s"
  by (simp add: conducted_def fun_eq_iff)

lemma with_store_server [simp]:
  "sv_config (bl_server (with_store w s)) = sv_config (bl_server s)"
  "sv_router (bl_server (with_store w s)) = sv_router (bl_server s)"
  by (simp_all add: with_store_def)

lemma baseline_step_same:
  assumes "baseline_step s s'"
  shows "sv_config (bl_server s') = sv_config (bl_server s) \<and> sv_router (bl_server s') = sv_router (bl_server s)"
  using assms
proof cases
  case (round i t fd spawned)
  from round(6,2,3,4) show ?thesis by (cases rule: baseline_roundE) simp_all
qed (simp_all add: thread_begin_def thread_end_def baseline_stop_def)

text \<open>The steps that serve nobody.\<close>

lemma crowd_inv_still:
  assumes inv: "crowd_inv fs c" and c': "cr_arrived c' = cr_arrived c" "cr_served c' = cr_served c"
    and still: "\<And>j. bl_threads (cr_base c') ! j = Done_thread \<longleftrightarrow> bl_threads (cr_base c) ! j = Done_thread"
      "length (bl_threads (cr_base c')) = length (bl_threads (cr_base c))"
    and ok: "base_ok (cr_base c')"
      "untouched (bl_threads (cr_base c')) (sv_store (bl_server (cr_base c'))) (cr_stream c') (cr_arrived c)"
    and step: "baseline_step (cr_base c) (cr_base c')"
  shows "crowd_inv fs c'"
  using inv ok conducted_cong [of "bl_server (cr_base c')" "bl_server (cr_base c)" fs] baseline_step_same [OF step]
  unfolding crowd_inv_def c' still by simp

lemma crowd_inv_init:
  assumes "crowd_init config c"
  shows "crowd_inv fs c"
  using assms base_ok_init [of config "cr_base c"]
  by (auto simp: crowd_init_def crowd_inv_def untouched_def baseline_init_def)

lemma crowd_inv_client:
  assumes inv: "crowd_inv fs c" and own: "own_inv (sv_store (bl_server (cr_base c)))"
    and fresh: "objs (sv_store (bl_server (cr_base c))) i = None" "objs (sv_store (bl_server (cr_base c))) t = None" "i \<noteq> t"
    and fd: "fd \<notin> open_fds (sv_store (bl_server (cr_base c)))" and io: "wire io = []"
    and round: "baseline_round i t fd True (cr_base c) = Some s'"
    and s': "bl_threads s' = bl_threads (cr_base c) @ [Spawned t]"
  shows "crowd_inv fs (c\<lparr>cr_base := s', cr_stream := (cr_stream c)(fd := io), cr_arrived := cr_arrived c @ [io]\<rparr>)"
  using round fresh
proof (cases rule: baseline_roundE)
  case (nobody w)
  with s' show ?thesis by simp
next
  case (client w)
  have ok: "base_ok (cr_base c)"
    and un: "untouched (bl_threads (cr_base c)) (sv_store (bl_server (cr_base c))) (cr_stream c) (cr_arrived c)"
    using inv by (simp_all add: crowd_inv_def)
  have "untouched (bl_threads s') (sv_store (bl_server s')) ((cr_stream c)(fd := io)) (cr_arrived c @ [io])"
    using untouched_snoc [OF un ok own fresh(2) fd client(2)] client(1) by simp
  moreover have "length (cr_arrived c) = length (bl_threads (cr_base c))" using un by (simp add: untouched_def)
  moreover have "conducted fs (bl_server s') = conducted fs (bl_server (cr_base c))"
    by (rule conducted_cong) (simp_all add: client(1))
  moreover have "(cr_arrived c @ [io]) ! j = cr_arrived c ! j" if "(j, x) \<in> set (cr_served c)" for j x
  proof -
    have "j \<in> set (map fst (cr_served c))" using that by force
    with inv un show ?thesis by (simp add: crowd_inv_def untouched_def nth_append)
  qed
  moreover have "{j. j < length (bl_threads s') \<and> bl_threads s' ! j = Done_thread} =
      {j. j < length (bl_threads (cr_base c)) \<and> bl_threads (cr_base c) ! j = Done_thread}"
    by (auto simp: s' nth_append less_Suc_eq)
  moreover note base_ok_round [OF ok round fresh]
  ultimately show ?thesis
    using inv io unfolding crowd_inv_def by (auto simp del: fun_upd_apply)
qed

lemma crowd_inv_serves:
  assumes inv: "crowd_inv fs c" and own: "own_inv (sv_store (bl_server (cr_base c)))"
    and j: "j < length (bl_threads (cr_base c))" "bl_threads (cr_base c) ! j = Serving t k"
    and serve: "thread_serve fs clock j t k c = Thread_ends c'"
  shows "crowd_inv fs c'"
proof -
  let ?s = "cr_base c"
  have ok: "base_ok ?s"
    and un: "untouched (bl_threads ?s) (sv_store (bl_server ?s)) (cr_stream c) (cr_arrived c)"
    using inv by (simp_all add: crowd_inv_def)
  from serve obtain fd io' where fd: "fd = fd_of k (sv_store (bl_server ?s))"
    and h: "handle_connection fs clock (sv_config (bl_server ?s)) (sv_router (bl_server ?s)) fd (cr_stream c fd) = (Returned, io')"
    and c': "c' = c\<lparr>cr_base := thread_end j t k ?s, cr_stream := (cr_stream c)(fd := io'),
       cr_served := cr_served c @ [(j, cr_stream c fd, clock, io')]\<rparr>"
    by (rule thread_serve_ends)
  have io: "cr_stream c fd = cr_arrived c ! j" using un j fd by (simp add: untouched_def)
  have "fd \<noteq> -1" using threads_okD(4) [OF ok j(1), of k] j(2) fd by simp
  with h have cond: "conducted fs (bl_server ?s) (cr_stream c fd) clock io'" unfolding conducted_def by blast
  have "conducted fs (bl_server (thread_end j t k ?s)) = conducted fs (bl_server ?s)"
    by (rule conducted_cong) (simp_all add: thread_end_def)
  moreover have "untouched ((bl_threads ?s)[j := Done_thread]) (sv_store (bl_server (thread_end j t k ?s)))
      ((cr_stream c)(fd := io')) (cr_arrived c)"
    unfolding fd by (rule untouched_at [OF un ok own j(1)]) (use j(2) in \<open>auto simp: thread_end_def\<close>)
  moreover have "bl_threads (thread_end j t k ?s) = (bl_threads ?s)[j := Done_thread]" by (simp add: thread_end_def)
  moreover have "j \<notin> set (map fst (cr_served c))" using inv j(2) by (simp add: crowd_inv_def)
  moreover have "{i. i < length (bl_threads ?s) \<and> (bl_threads ?s)[j := Done_thread] ! i = Done_thread} =
      insert j {i. i < length (bl_threads ?s) \<and> bl_threads ?s ! i = Done_thread}"
    using j(1) by (auto simp: nth_list_update)
  moreover note base_ok_end [OF ok j]
  ultimately show ?thesis
    using inv cond io unfolding crowd_inv_def c' by (simp del: fun_upd_apply)
qed

lemma crowd_inv_step:
  assumes step: "crowd_step fs c c'" and own: "own_inv (sv_store (bl_server (cr_base c)))" and inv: "crowd_inv fs c"
  shows "crowd_inv fs c'"
proof -
  note base = crowd_step_base [OF step]
  have ok: "base_ok (cr_base c)"
    and un: "untouched (bl_threads (cr_base c)) (sv_store (bl_server (cr_base c))) (cr_stream c) (cr_arrived c)"
    using inv by (simp_all add: crowd_inv_def)
  from step show ?thesis
  proof cases
    case (client i t fd io s')
    from crowd_inv_client [OF inv own client(3-5,7-10)] client(1) show ?thesis by simp
  next
    case (nobody i t fd s')
    from nobody(7,3,4,5) obtain w where w: "s' = with_store w (cr_base c)" "objs w = objs (sv_store (bl_server (cr_base c)))"
      by (cases rule: baseline_roundE) (use nobody(8) in simp_all)
    show ?thesis
      by (rule crowd_inv_still [OF inv _ _ _ _ _ _ base])
        (use base_ok_round [OF ok nobody(7,3-5)] untouched_frame [OF un ok, of w] w in \<open>simp_all add: nobody(1)\<close>)
  next
    case (begins j t k)
    let ?s = "thread_begin j t k (cr_base c)"
    have tk: "t \<noteq> k" using threads_okD(2) [OF ok begins(2), of t] begins(3,4) by auto
    have "untouched (bl_threads ?s) (sv_store (bl_server ?s)) ((cr_stream c)(fd_of t (sv_store (bl_server (cr_base c))) :=
        cr_stream c (fd_of t (sv_store (bl_server (cr_base c)))))) (cr_arrived c)"
      unfolding thread_begin_def using begins(3,4) tk
      by (simp del: fun_upd_triv) (rule untouched_at [OF un ok own begins(2)], auto simp: fd_of_def)
    then show ?thesis
      by (intro crowd_inv_still [OF inv _ _ _ _ _ _ base])
        (use base_ok_begin [OF ok begins(2-4)] begins(2,3) in \<open>auto simp: begins(1) thread_begin_def nth_list_update\<close>)
  next
    case (serves j t k clock)
    then show ?thesis using crowd_inv_serves [OF inv own] by blast
  next
    case stop
    have "untouched (bl_threads (cr_base c)) (listener_stop (sv_listener (bl_server (cr_base c))) (sv_store (bl_server (cr_base c))))
        (cr_stream c) (cr_arrived c)"
      by (rule untouched_frame [OF un ok]) (simp add: listener_stop_def socket_close_other)
    then show ?thesis
      by (intro crowd_inv_still [OF inv _ _ _ _ _ _ base])
        (use base_ok_stop [OF ok] in \<open>simp_all add: stop(1) baseline_stop_def\<close>)
  qed
qed

interpretation crowd: layered_invariant "crowd_init config" "crowd_step fs"
    "\<lambda>c. baseline_inv (cr_base c) \<and> sv_config (bl_server (cr_base c)) = config" "crowd_inv fs" for config fs
proof unfold_locales
  fix c c' :: crowd
  assume i: "crowd_init config c"
  then have "baseline_init config (cr_base c)" by (simp add: crowd_init_def)
  moreover from this have "sv_config (bl_server (cr_base c)) = config"
    by (elim baseline_initE) (simp add: new_server_def)
  ultimately show "baseline_inv (cr_base c) \<and> sv_config (bl_server (cr_base c)) = config"
    using baseline.inv_init by blast
  from i show "crowd_inv fs c" by (rule crowd_inv_init)
next
  fix c c' :: crowd
  assume inv: "baseline_inv (cr_base c) \<and> sv_config (bl_server (cr_base c)) = config" and step: "crowd_step fs c c'"
  note s = crowd_step_base [OF step]
  from inv baseline_inv_step [OF s] baseline_step_same [OF s]
  show "baseline_inv (cr_base c') \<and> sv_config (bl_server (cr_base c')) = config" by simp
  assume "crowd_inv fs c"
  with inv crowd_inv_step [OF step] show "crowd_inv fs c'" by (simp add: baseline_inv_def)
qed

end
