(* ===== verification/Server_Clients.thy ===== *)
theory Server_Clients
  imports Server
begin

text \<open>
  The second layer of the server's invariant: every live \<open>Socket\<close> object has exactly one holder
  (the listener, a place in the queue, a worker's task or its connection), and whoever waits or
  is being served has a valid descriptor.  From it: a bound on the descriptors a server has open,
  and that a client in the queue still has its connection when a worker comes to it.
\<close>

section \<open>Holders\<close>

fun kept :: "pc \<Rightarrow> nat \<Rightarrow> nat multiset" where
  "kept (Taken t) conn = {#t#}"
| "kept (Running t) conn = {#t, conn#}"
| "kept _ conn = {#}"

abbreviation workers :: "server \<Rightarrow> nat" where
  "workers s \<equiv> nat (num_workers (sv_config s))"

definition hands :: "nat \<Rightarrow> server \<Rightarrow> nat multiset" where
  "hands n s = (\<Sum>i<n. kept (pcs (sv_pool s) i) (sv_conn s i))"

definition holders :: "server \<Rightarrow> nat multiset" where
  "holders s = add_mset (l_socket (sv_listener s)) (mset (tasks (sv_pool s)) + hands (workers s) s)"

definition client_inv :: "server \<Rightarrow> bool" where
  "client_inv s =
     ((\<forall>x. count (holders s) x = (if objs (sv_store s) x = None then 0 else 1)) \<and>
      (\<forall>t\<in>set (tasks (sv_pool s)). fd_of t (sv_store s) \<noteq> -1) \<and>
      (\<forall>i t. pcs (sv_pool s) i = Taken t \<longrightarrow> fd_of t (sv_store s) \<noteq> -1) \<and>
      (\<forall>i t. pcs (sv_pool s) i = Running t \<longrightarrow>
         fd_of t (sv_store s) = -1 \<and> fd_of (sv_conn s i) (sv_store s) \<noteq> -1))"

text \<open>One worker's hands change.\<close>

lemma sum_at:
  fixes f g :: "nat \<Rightarrow> 'a::comm_monoid_add"
  assumes "i < n" "\<And>j. j \<noteq> i \<Longrightarrow> g j = f j"
  shows "(\<Sum>j<n. g j) + f i = (\<Sum>j<n. f j) + g i"
proof -
  have r: "(\<Sum>j<n. h j) = h i + (\<Sum>j\<in>{..<n} - {i}. h j)" for h :: "nat \<Rightarrow> 'a"
    using assms(1) by (intro sum.remove) auto
  have "(\<Sum>j\<in>{..<n} - {i}. g j) = (\<Sum>j\<in>{..<n} - {i}. f j)"
    using assms(2) by (intro sum.cong) auto
  then show ?thesis unfolding r [of g] r [of f] by (simp add: ac_simps)
qed

lemma hands_at:
  assumes "i < n" "\<And>j. j \<noteq> i \<Longrightarrow> kept (pcs (sv_pool s') j) (sv_conn s' j) = kept (pcs (sv_pool s) j) (sv_conn s j)"
  shows "hands n s' + kept (pcs (sv_pool s) i) (sv_conn s i) = hands n s + kept (pcs (sv_pool s') i) (sv_conn s' i)"
  unfolding hands_def by (rule sum_at [OF assms])

text \<open>No object has two holders.\<close>

definition holds :: "nat \<Rightarrow> server \<Rightarrow> nat \<Rightarrow> bool" where
  "holds i s x = (x \<in># kept (pcs (sv_pool s) i) (sv_conn s i))"

lemma count_holders:
  "count (holders s) x = (if x = l_socket (sv_listener s) then 1 else 0) + count (mset (tasks (sv_pool s))) x +
     (\<Sum>i<workers s. count (kept (pcs (sv_pool s) i) (sv_conn s i)) x)"
  by (simp add: holders_def hands_def count_sum)

lemma client_inv_count: "client_inv s \<Longrightarrow> count (holders s) x = (if objs (sv_store s) x = None then 0 else 1)"
  by (simp add: client_inv_def)

lemma count_hands_le:
  fixes c :: "nat \<Rightarrow> nat"
  assumes "i < n" "j < n" "i \<noteq> j"
  shows "c i + c j \<le> (\<Sum>k<n. c k)"
proof -
  have "sum c {i, j} \<le> sum c {..<n}" by (rule sum_mono2) (use assms in auto)
  with assms(3) show ?thesis by simp
qed

lemma count_mset_pos: "0 < count (mset xs) x \<longleftrightarrow> x \<in> set xs"
  by (simp only: count_greater_zero_iff set_mset_mset)

lemma holds_count: "holds i s x \<longleftrightarrow> 0 < count (kept (pcs (sv_pool s) i) (sv_conn s i)) x"
  by (simp add: holds_def)

lemma held_once:
  assumes inv: "client_inv s" and i: "i < workers s" "holds i s x"
  shows "x \<notin> set (tasks (sv_pool s))" "x \<noteq> l_socket (sv_listener s)"
    and "j < workers s \<Longrightarrow> j \<noteq> i \<Longrightarrow> \<not> holds j s x"
proof -
  define c where "c i = count (kept (pcs (sv_pool s) i) (sv_conn s i)) x" for i
  define q where "q = count (mset (tasks (sv_pool s))) x"
  have le: "(if x = l_socket (sv_listener s) then 1 else 0) + q + (\<Sum>i<workers s. c i) \<le> 1"
    using client_inv_count [OF inv, of x] unfolding count_holders c_def q_def by (auto split: if_splits)
  have ci: "0 < c i" using i(2) by (simp add: holds_count c_def)
  have "c i \<le> (\<Sum>i<workers s. c i)" by (rule member_le_sum) (use i in auto)
  with le ci have "q = 0" "x \<noteq> l_socket (sv_listener s)" by (auto split: if_splits)
  then show "x \<notin> set (tasks (sv_pool s))" "x \<noteq> l_socket (sv_listener s)"
    using count_mset_pos [of "tasks (sv_pool s)" x] by (auto simp: q_def)
  show "\<not> holds j s x" if "j < workers s" "j \<noteq> i"
    using count_hands_le [OF i(1) that(1) that(2) [symmetric], of c] le ci
    by (auto simp: holds_count c_def [symmetric])
qed

lemma held_queue:
  assumes inv: "client_inv s" and x: "x \<in> set (tasks (sv_pool s))"
  shows "x \<noteq> l_socket (sv_listener s)" "objs (sv_store s) x \<noteq> None"
proof -
  have "0 < count (mset (tasks (sv_pool s))) x" using x unfolding count_mset_pos .
  then show "x \<noteq> l_socket (sv_listener s)" "objs (sv_store s) x \<noteq> None"
    using client_inv_count [OF inv, of x] unfolding count_holders
    by (auto simp del: count_mset split: if_splits)
qed

lemma held_live:
  assumes inv: "client_inv s" and i: "i < workers s" "holds i s x"
  shows "objs (sv_store s) x \<noteq> None"
proof -
  have "count (kept (pcs (sv_pool s) i) (sv_conn s i)) x \<le> (\<Sum>i<workers s. count (kept (pcs (sv_pool s) i) (sv_conn s i)) x)"
    by (rule member_le_sum) (use i in auto)
  with i show ?thesis
    using client_inv_count [OF inv, of x] unfolding count_holders holds_count by (auto simp: count_eq_zero_iff split: if_splits)
qed

lemma listener_live: "client_inv s \<Longrightarrow> objs (sv_store s) (l_socket (sv_listener s)) \<noteq> None"
  using client_inv_count [of s "l_socket (sv_listener s)"] unfolding count_holders by (auto split: if_splits)

section \<open>The second layer is kept\<close>

lemma client_invI:
  assumes "\<And>x. count (holders s) x = (if objs (sv_store s) x = None then 0 else 1)"
    and "\<And>t. t \<in> set (tasks (sv_pool s)) \<Longrightarrow> fd_of t (sv_store s) \<noteq> -1"
    and "\<And>i t. pcs (sv_pool s) i = Taken t \<Longrightarrow> fd_of t (sv_store s) \<noteq> -1"
    and "\<And>i t. pcs (sv_pool s) i = Running t \<Longrightarrow> fd_of t (sv_store s) = -1"
    and "\<And>i t. pcs (sv_pool s) i = Running t \<Longrightarrow> fd_of (sv_conn s i) (sv_store s) \<noteq> -1"
  shows "client_inv s"
  using assms unfolding client_inv_def by blast

lemma client_invD:
  assumes "client_inv s"
  shows client_queue: "t \<in> set (tasks (sv_pool s)) \<Longrightarrow> fd_of t (sv_store s) \<noteq> -1"
    and client_taken: "pcs (sv_pool s) i = Taken t \<Longrightarrow> fd_of t (sv_store s) \<noteq> -1"
    and client_running: "pcs (sv_pool s) i = Running t \<Longrightarrow> fd_of t (sv_store s) = -1"
    and client_conn: "pcs (sv_pool s) i = Running t \<Longrightarrow> fd_of (sv_conn s i) (sv_store s) \<noteq> -1"
  using assms unfolding client_inv_def by blast+

lemma fd_of_live: "fd_of x w \<noteq> -1 \<Longrightarrow> objs w x \<noteq> None"
  by (auto simp: fd_of_def split: option.splits)

text \<open>A busy worker is one of the pool's.\<close>

lemma busy_worker:
  assumes "server_inv s" "pcs (sv_pool s) i = Taken t \<or> pcs (sv_pool s) i = Running t"
  shows "i < workers s"
proof (rule ccontr)
  assume "\<not> i < workers s"
  with assms(1) have "pcs (sv_pool s) i = At_loop" by (simp add: server_inv_def pool_inv_def)
  with assms(2) show False by simp
qed

lemma running_holds:
  "pcs (sv_pool s) i = Running t \<Longrightarrow> holds i s t \<and> holds i s (sv_conn s i)"
  "pcs (sv_pool s) i = Taken t \<Longrightarrow> holds i s t"
  by (simp_all add: holds_def)

text \<open>Only what the invariant reads matters.\<close>

lemma client_inv_cong:
  assumes "client_inv s" "objs (sv_store s') = objs (sv_store s)" "sv_pool s' = sv_pool s" "sv_conn s' = sv_conn s"
    "l_socket (sv_listener s') = l_socket (sv_listener s)" "workers s' = workers s"
  shows "client_inv s'"
  using assms unfolding client_inv_def holders_def hands_def fd_of_def by simp

lemma client_inv_accept:
  assumes sinv: "server_inv s" and inv: "client_inv s"
    and fresh: "objs (sv_store s) i = None" "objs (sv_store s) j = None" "objs (sv_store s) k = None"
      "distinct [i, j, k]"
    and round: "accept_round now i j k fd io s = Some (Returned, io', s')"
  shows "client_inv s'"
  using round
proof (cases rule: accept_roundE)
  case none
  with inv fresh show ?thesis by (intro client_inv_cong [OF inv]) (auto simp: objs_listener_accept fun_eq_iff)
next
  case (rejected r w)
  with inv fresh show ?thesis by (intro client_inv_cong [OF inv]) (auto simp: objs_listener_accept fun_eq_iff)
next
  case (queued p)
  let ?w1 = "listener_accept (sv_listener s) i fd (sv_store s)"
  have p: "tasks p = tasks (sv_pool s) @ [j]" "pcs p = pcs (sv_pool s)" using queued(1) by (auto elim!: enqueueE)
  have objs: "objs (sv_store s') = (objs (sv_store s))(j \<mapsto> fd_of i ?w1)"
    using fresh queued(2) by (auto simp: objs_listener_accept fun_eq_iff)
  have s': "sv_conn s' = sv_conn s" "sv_listener s' = sv_listener s" "sv_config s' = sv_config s" "sv_pool s' = p"
    using queued(2) by simp_all
  then have "holders s' = add_mset j (holders s)" by (simp add: holders_def hands_def p)
  moreover have "fd_of x (sv_store s') \<noteq> -1" if "x = j \<or> fd_of x (sv_store s) \<noteq> -1" for x
    using that queued(4) by (auto simp: fd_of_def objs is_valid_def split: if_splits)
  moreover have "fd_of x (sv_store s') = -1" if "fd_of x (sv_store s) = -1" "x \<noteq> j" for x
    using that by (auto simp: fd_of_def objs)
  moreover have "t \<noteq> j" if "pcs (sv_pool s) i' = Running t" for i' t
    using held_live [OF inv busy_worker [OF sinv]] running_holds(1) [OF that] that fresh(2) by metis
  ultimately show ?thesis
    using client_queue [OF inv] client_taken [OF inv] client_running [OF inv] client_conn [OF inv]
    by (intro client_invI) (auto simp: s' p objs fresh(2) client_inv_count [OF inv])
qed

text \<open>A worker's hands change from what it keeps to something else, and the objects with them.\<close>

lemma holders_at:
  assumes "i < workers s" "workers s' = workers s" "l_socket (sv_listener s') = l_socket (sv_listener s)"
    and "\<And>j. j \<noteq> i \<Longrightarrow> kept (pcs (sv_pool s') j) (sv_conn s' j) = kept (pcs (sv_pool s) j) (sv_conn s j)"
  shows "holders s' + kept (pcs (sv_pool s) i) (sv_conn s i) + mset (tasks (sv_pool s)) =
    holders s + kept (pcs (sv_pool s') i) (sv_conn s' i) + mset (tasks (sv_pool s'))"
  using hands_at [OF assms(1), of s' s] assms(2-4) unfolding holders_def by (simp add: ac_simps)

lemma client_inv_at:
  assumes sinv: "server_inv s" and inv: "client_inv s" and i: "i < workers s"
    and same: "tasks (sv_pool s') = tasks (sv_pool s)" "\<And>j. j \<noteq> i \<Longrightarrow> pcs (sv_pool s') j = pcs (sv_pool s) j"
      "\<And>j. j \<noteq> i \<Longrightarrow> sv_conn s' j = sv_conn s j"
    and count: "\<And>x. count (holders s') x = (if objs (sv_store s') x = None then 0 else 1)"
    and frame: "\<And>x. objs (sv_store s) x \<noteq> None \<Longrightarrow> \<not> holds i s x \<Longrightarrow> fd_of x (sv_store s') = fd_of x (sv_store s)"
    and mine: "\<And>t. pcs (sv_pool s') i \<noteq> Taken t"
      "\<And>t. pcs (sv_pool s') i = Running t \<Longrightarrow> fd_of t (sv_store s') = -1 \<and> fd_of (sv_conn s' i) (sv_store s') \<noteq> -1"
  shows "client_inv s'"
proof -
  have queue: "fd_of x (sv_store s') = fd_of x (sv_store s)" if "x \<in> set (tasks (sv_pool s))" for x
    using frame held_queue(2) [OF inv that] held_once(1) [OF inv i] that by blast
  have hand: "fd_of x (sv_store s') = fd_of x (sv_store s)" if "holds j s x" "j < workers s" "j \<noteq> i" for j x
    using frame held_live [OF inv] held_once(3) [OF inv i] that by blast
  have running: "fd_of t (sv_store s') = -1 \<and> fd_of (sv_conn s' j) (sv_store s') \<noteq> -1"
    if r: "pcs (sv_pool s') j = Running t" for j t
  proof (cases "j = i")
    case True
    with mine(2) r show ?thesis by simp
  next
    case False
    with same r have j: "pcs (sv_pool s) j = Running t" by simp
    show ?thesis
      using hand [OF _ busy_worker [OF sinv, of j t] False] running_holds(1) [OF j] same(3) [OF False] j
        client_running [OF inv j] client_conn [OF inv j] by simp
  qed
  have "fd_of t (sv_store s') \<noteq> -1" if r: "pcs (sv_pool s') j = Taken t" for j t
  proof -
    have j: "j \<noteq> i" "pcs (sv_pool s) j = Taken t" using mine(1) r same(2) by (cases "j = i"; simp)+
    show ?thesis
      using hand [OF _ busy_worker [OF sinv, of j t] j(1)] running_holds(2) [OF j(2)] j(2) client_taken [OF inv j(2)] by simp
  qed
  with count queue client_queue [OF inv] running same(1) show ?thesis by (intro client_invI) auto
qed

lemma client_inv_begin:
  assumes sinv: "server_inv s" and inv: "client_inv s" and i: "i < workers s"
    and t: "pcs (sv_pool s) i = Taken t" and step: "worker_step i (sv_pool s) = Some p"
    and k: "objs (sv_store s) k = None"
  shows "client_inv (begin_task i t k p s)" (is "client_inv ?s")
proof (rule client_inv_at [OF sinv inv i])
  have p: "tasks p = tasks (sv_pool s)" "pcs p = (pcs (sv_pool s))(i := Running t)"
    using step t by (auto simp: worker_step_def)
  have s': "sv_listener ?s = sv_listener s" "sv_config ?s = sv_config s" "sv_pool ?s = p"
    "sv_conn ?s = (sv_conn s)(i := k)" by (simp_all add: begin_task_def)
  have objs: "objs (sv_store ?s) = (objs (sv_store s))(t \<mapsto> -1, k \<mapsto> fd_of t (sv_store s))"
    by (simp add: begin_task_def)
  have live: "objs (sv_store s) t \<noteq> None" using fd_of_live [OF client_taken [OF inv t]] .
  have "holders ?s = add_mset k (holders s)"
    using holders_at [OF i, of ?s] by (simp add: s' p t)
  with live show "count (holders ?s) x = (if objs (sv_store ?s) x = None then 0 else 1)" for x
    using client_inv_count [OF inv, of x] k by (auto simp: objs split: if_splits)
  show "fd_of x (sv_store ?s) = fd_of x (sv_store s)" if "objs (sv_store s) x \<noteq> None" "\<not> holds i s x" for x
    using that k running_holds(2) [OF t] by (auto simp: fd_of_def objs)
  show "fd_of t' (sv_store ?s) = -1 \<and> fd_of (sv_conn ?s i) (sv_store ?s) \<noteq> -1" if "pcs (sv_pool ?s) i = Running t'" for t'
  proof -
    have "t \<noteq> k" "t' = t" using live k that by (auto simp: s' p)
    then show ?thesis using client_taken [OF inv t] by (simp add: fd_of_def objs s')
  qed
qed (use step t in \<open>auto simp: begin_task_def worker_step_def\<close>)

lemma client_inv_end:
  assumes sinv: "server_inv s" and inv: "client_inv s" and i: "i < workers s"
    and t: "pcs (sv_pool s) i = Running t" and step: "worker_step i (sv_pool s) = Some p"
  shows "client_inv (end_task i t p s)" (is "client_inv ?s")
proof (rule client_inv_at [OF sinv inv i])
  have p: "tasks p = tasks (sv_pool s)" "pcs p = (pcs (sv_pool s))(i := At_loop)"
    using step t by (auto simp: worker_step_def)
  have s': "sv_listener ?s = sv_listener s" "sv_config ?s = sv_config s" "sv_pool ?s = p" "sv_conn ?s = sv_conn s"
    by (simp_all add: end_task_def)
  have objs: "objs (sv_store ?s) = (objs (sv_store s))(sv_conn s i := None, t := None)"
    by (simp add: end_task_def)
  have ne: "t \<noteq> sv_conn s i" using client_running [OF inv t] client_conn [OF inv t] by auto
  have "holders s = holders ?s + {#t, sv_conn s i#}"
    using holders_at [OF i, of ?s] by (simp add: s' p t add_mset_commute)
  then have "count (holders s) x = count (holders ?s) x + count {#t, sv_conn s i#} x" for x by simp
  then show "count (holders ?s) x = (if objs (sv_store ?s) x = None then 0 else 1)" for x
    using client_inv_count [OF inv, of x] held_live [OF inv i] running_holds(1) [OF t] ne
    by (auto simp: objs split: if_splits)
  show "fd_of x (sv_store ?s) = fd_of x (sv_store s)" if "objs (sv_store s) x \<noteq> None" "\<not> holds i s x" for x
    using that running_holds(1) [OF t] by (auto simp: fd_of_def objs)
qed (use step t in \<open>auto simp: end_task_def worker_step_def\<close>)

text \<open>\<open>start\<close> and \<open>stop\<close> touch the listener's object only.\<close>

lemma client_inv_listener:
  assumes inv: "client_inv s" and same: "tasks (sv_pool s') = tasks (sv_pool s)" "pcs (sv_pool s') = pcs (sv_pool s)"
      "sv_conn s' = sv_conn s" "sv_listener s' = sv_listener s" "workers s' = workers s"
    and sinv: "server_inv s"
    and objs: "objs (sv_store s') = (objs (sv_store s))(l_socket (sv_listener s) \<mapsto> g)"
  shows "client_inv s'"
proof (rule client_invI)
  have eq: "holders s' = holders s" by (simp add: holders_def hands_def same)
  show "count (holders s') x = (if objs (sv_store s') x = None then 0 else 1)" for x
    using client_inv_count [OF inv, of x] listener_live [OF inv] by (simp add: eq objs)
  have frame: "fd_of x (sv_store s') = fd_of x (sv_store s)" if "x \<noteq> l_socket (sv_listener s)" for x
    using that by (simp add: fd_of_def objs)
  have hand: "fd_of x (sv_store s') = fd_of x (sv_store s)" if "holds i s x" "i < workers s" for i x
    using frame held_once(2) [OF inv that(2,1)] by blast
  show "fd_of t (sv_store s') \<noteq> -1" if "t \<in> set (tasks (sv_pool s'))" for t
    using that frame held_queue(1) [OF inv] client_queue [OF inv] by (simp add: same)
  show "fd_of t (sv_store s') \<noteq> -1" if "pcs (sv_pool s') i = Taken t" for i t
    using that hand busy_worker [OF sinv] running_holds(2) client_taken [OF inv] by (metis same(2))
  show "fd_of t (sv_store s') = -1" "fd_of (sv_conn s' i) (sv_store s') \<noteq> -1" if "pcs (sv_pool s') i = Running t" for i t
    using that hand busy_worker [OF sinv] running_holds(1) client_running [OF inv] client_conn [OF inv]
    by (metis same(2,3))+
qed

text \<open>The steps of the pool that concern no socket: nothing moves, or the head of the queue into a
  worker's hands.\<close>

lemma quiet_stepE:
  assumes "pool_step n m p p'" "quiet p p'"
  obtains (still) "tasks p' = tasks p" "\<And>i t. pcs p' i = Taken t \<longleftrightarrow> pcs p i = Taken t"
      "\<And>i t. pcs p' i = Running t \<longleftrightarrow> pcs p i = Running t"
    | (pop) i t where "i < n" "tasks p = t # tasks p'" "pcs p i = Woken" "pcs p' = (pcs p)(i := Taken t)"
  using assms(1)
proof cases
  case (worker i)
  from worker(2) show ?thesis
  proof (cases rule: worker_stepE)
    case (pop t ts)
    with worker(1) that(2) [of i t] show ?thesis by simp
  next
    case (begin_task t)
    then have "pcs p' i = pcs p i" using assms(2) unfolding quiet_def by blast
    with begin_task(1,2) show ?thesis by simp
  next
    case (end_task t)
    then have "pcs p' i = pcs p i" using assms(2) unfolding quiet_def by blast
    with end_task(1,2) show ?thesis by simp
  qed (rule that(1); auto split: if_splits)+
next
  case (enqueue t r)
  from enqueue show ?thesis
  proof (cases rule: enqueueE)
    case refused
    then show ?thesis using that(1) by simp
  next
    case pushed
    with assms(2) show ?thesis by (simp add: quiet_def)
  qed
qed (rule that(1); auto simp: shutdown_exchange_def notify_all_def request_stop_def join_worker_def split: if_splits)+

lemma kept_cong:
  "(\<And>t. a = Taken t \<longleftrightarrow> b = Taken t) \<Longrightarrow> (\<And>t. a = Running t \<longleftrightarrow> b = Running t) \<Longrightarrow> kept a c = kept b c"
  by (cases a; cases b) auto

lemma client_inv_pool:
  assumes sinv: "server_inv s" and inv: "client_inv s" and q: "quiet (sv_pool s) p"
    and step: "pool_step (workers s) (unat (max_queue_size (sv_config s))) (sv_pool s) p"
  shows "client_inv (s\<lparr>sv_pool := p\<rparr>)" (is "client_inv ?s")
  using step q
proof (cases rule: quiet_stepE)
  case still
  have "kept (pcs p i) (sv_conn s i) = kept (pcs (sv_pool s) i) (sv_conn s i)" for i
    by (rule kept_cong) (rule still)+
  then have "holders ?s = holders s" by (simp add: holders_def hands_def still(1))
  with inv still show ?thesis by (simp add: client_inv_def)
next
  case (pop i t)
  have "holders ?s = holders s"
    using holders_at [OF pop(1), of ?s] pop by simp
  then have count: "count (holders ?s) x = (if objs (sv_store ?s) x = None then 0 else 1)" for x
    using client_inv_count [OF inv, of x] by simp
  show ?thesis
  proof (rule client_invI [OF count])
    show "fd_of x (sv_store ?s) \<noteq> -1" if "x \<in> set (tasks (sv_pool ?s))" for x
      using that client_queue [OF inv, of x] by (simp add: pop(2))
    show "fd_of u (sv_store ?s) \<noteq> -1" if "pcs (sv_pool ?s) j = Taken u" for j u
    proof (cases "j = i")
      case True
      with that pop(4) have "u = t" by simp
      then show ?thesis using client_queue [OF inv, of t] by (simp add: pop(2))
    next
      case False
      with that pop(4) show ?thesis using client_taken [OF inv, of j u] by simp
    qed
    show "fd_of u (sv_store ?s) = -1" "fd_of (sv_conn ?s j) (sv_store ?s) \<noteq> -1"
      if "pcs (sv_pool ?s) j = Running u" for j u
    proof -
      have "pcs (sv_pool s) j = Running u" using that pop(4) by (cases "j = i") simp_all
      then show "fd_of u (sv_store ?s) = -1" "fd_of (sv_conn ?s j) (sv_store ?s) \<noteq> -1"
        using client_running [OF inv] client_conn [OF inv] by simp_all
    qed
  qed
qed

lemma client_inv_step: "server_step s s' \<Longrightarrow> server_inv s \<Longrightarrow> client_inv s \<Longrightarrow> client_inv s'"
proof (induction rule: server_step.induct)
  case (start s tmp res s')
  have pool: "sv_pool s = new_pool" using start by (simp add: server_inv_def)
  have "tmp \<noteq> l_socket (sv_listener s)" using listener_live [OF start.prems(2)] start.hyps(2) by auto
  note objs = listener_start_objs [OF start.hyps(2) this, of res]
  have s': "s' = s\<lparr>sv_store := snd (listener_start (sv_listener s) tmp res (sv_store s)), sv_running := True,
      sv_pooled := True, sv_pool := new_pool\<rparr>"
    using start.hyps(4) by (auto simp: server_start_def Let_def split: prod.splits if_splits)
  show ?case
    by (rule client_inv_listener [OF start.prems(2) _ _ _ _ _ start.prems(1)]) (simp_all add: s' pool objs)
next
  case (accept s i j k fd now io io' s')
  show ?case by (rule client_inv_accept [OF accept.prems accept.hyps(3-6,8)])
next
  case (begin_task s i t p k)
  then show ?case by (intro client_inv_begin) simp_all
next
  case (end_task s i t p)
  then show ?case by (intro client_inv_end) simp_all
next
  case (pool s p)
  show ?case by (rule client_inv_pool [OF pool.prems pool.hyps(3,2)])
next
  case (stop s)
  obtain g where "objs (sv_store s) (l_socket (sv_listener s)) = Some g" using listener_live [OF stop(2)] by blast
  then have "objs (sv_store (server_stop s)) = (objs (sv_store s))(l_socket (sv_listener s) \<mapsto> -1)"
    by (auto simp: listener_stop_def socket_close_def fd_of_def is_valid_def sys_close_def)
  then show ?case
    by (rule client_inv_listener [OF stop(2) _ _ _ _ _ stop(1), rotated -1]) (simp_all add: shutdown_exchange_def)
qed

lemma client_inv_init:
  assumes "server_init config s"
  shows "client_inv s"
proof -
  have "kept (pcs (sv_pool s) i) c = {#}" "sv_pool s = new_pool" for i c
    using assms by (auto simp: server_init_def new_server_def new_pool_def)
  then show ?thesis
    using assms by (auto simp: client_inv_def server_init_def holders_def hands_def new_server_def new_pool_def empty_store_def)
qed

interpretation clients: layered_invariant "server_init config" server_step server_inv client_inv for config
  by unfold_locales (auto intro: client_inv_init client_inv_step)

section \<open>The pool inside the server\<close>

text \<open>Every step of the server is a step of its pool or leaves the pool alone.\<close>

lemma server_step_same:
  assumes "server_step s s'"
  shows "sv_config s' = sv_config s \<and> sv_router s' = sv_router s \<and> sv_listener s' = sv_listener s"
  using assms
proof cases
  case (start tmp res)
  then show ?thesis by (auto simp: server_start_def Let_def split: prod.splits if_splits)
next
  case (accept i j k fd now io io')
  from accept(8) show ?thesis by (cases rule: accept_roundE) simp_all
qed (simp_all add: begin_task_def end_task_def)

lemma server_step_pool:
  assumes inv: "server_inv s" and step: "server_step s s'"
  shows "sv_pool s' = sv_pool s \<or>
    pool_step (workers s) (unat (max_queue_size (sv_config s))) (sv_pool s) (sv_pool s')"
  using step
proof cases
  case (start tmp res)
  then have "sv_pool s' = new_pool" by (auto simp: server_start_def Let_def split: prod.splits if_splits)
  moreover have "sv_pool s = new_pool" using inv start by (simp add: server_inv_def)
  ultimately show ?thesis by simp
next
  case (accept i j k fd now io io')
  from accept(8) show ?thesis
  proof (cases rule: accept_roundE)
    case (queued p)
    from pool_step.enqueue [OF queued(1)] show ?thesis by (simp add: queued(2))
  qed simp_all
next
  case (begin_task i t p k)
  then have "i < workers s" by simp
  from pool_step.worker [OF this begin_task(5)] begin_task(1) show ?thesis by (simp add: begin_task_def)
next
  case (end_task i t p)
  then have "i < workers s" by simp
  from pool_step.worker [OF this end_task(5)] end_task(1) show ?thesis by (simp add: end_task_def)
next
  case (pool p)
  then show ?thesis by simp
next
  case stop
  then show ?thesis by (auto intro: pool_step.exchange)
qed

interpretation pooled: refinement_mapping "server_init config" server_step
    "\<lambda>s. server_inv s \<and> sv_config s = config" "\<lambda>p. p = new_pool"
    "pool_step (nat (num_workers config)) (unat (max_queue_size config))" sv_pool for config
proof unfold_locales
  fix s t :: server
  assume s: "server_init config s"
  then show "server_inv s \<and> sv_config s = config" "sv_pool s = new_pool"
    using server.inv_init [OF s] by (auto simp: server_init_def new_server_def)
next
  fix s t
  assume s: "server_inv s \<and> sv_config s = config" and step: "server_step s t"
  show "server_inv t \<and> sv_config t = config" using s server_inv_step [OF step] server_step_same [OF step] by simp
  show "sv_pool t = sv_pool s \<or>
      pool_step (nat (num_workers config)) (unat (max_queue_size config)) (sv_pool s) (sv_pool t)"
    using s server_step_pool [OF _ step] by simp
qed

section \<open>How many descriptors\<close>

text \<open>A descriptor that is open is the listener's, one of a waiting client, or the one a worker has in
  its hands.\<close>

definition hand_fd :: "server \<Rightarrow> nat \<Rightarrow> int" where
  "hand_fd s i = (case pcs (sv_pool s) i of Taken t \<Rightarrow> fd_of t (sv_store s) | _ \<Rightarrow> fd_of (sv_conn s i) (sv_store s))"

lemma open_fds_held:
  assumes "server_inv s" "client_inv s"
  shows "open_fds (sv_store s) \<subseteq> {fd_of (l_socket (sv_listener s)) (sv_store s)} \<union>
    (\<lambda>t. fd_of t (sv_store s)) ` set (tasks (sv_pool s)) \<union> hand_fd s ` {..<workers s}"
proof
  fix fd
  assume fd: "fd \<in> open_fds (sv_store s)"
  have own: "own_inv (sv_store s)" using assms(1) by (simp add: server_inv_def)
  obtain x where x: "objs (sv_store s) x = Some fd" using own_owner [OF own fd] by blast
  then have fx: "fd_of x (sv_store s) = fd" "fd \<noteq> -1" using own_no_minus [OF own] fd by (auto simp: fd_of_def)
  from assms(1) x have "owned s x" by (auto simp: server_inv_def)
  then consider "x = l_socket (sv_listener s)" | "x \<in> set (tasks (sv_pool s))"
    | i where "keeps (pcs (sv_pool s) i) (sv_conn s i) x" by (auto simp: owned_def)
  then show "fd \<in> {fd_of (l_socket (sv_listener s)) (sv_store s)} \<union>
      (\<lambda>t. fd_of t (sv_store s)) ` set (tasks (sv_pool s)) \<union> hand_fd s ` {..<workers s}"
  proof cases
    case (3 i)
    obtain t where t: "pcs (sv_pool s) i = Taken t \<or> pcs (sv_pool s) i = Running t"
      using 3 by (cases "pcs (sv_pool s) i") auto
    have "i < workers s" using busy_worker [OF assms(1) t] .
    moreover have "hand_fd s i = fd"
      using t 3 fx client_running [OF assms(2), of i t] by (auto simp: hand_fd_def)
    ultimately show ?thesis by blast
  qed (use fx in auto)
qed

lemma card_open_fds:
  assumes "server_inv s" "client_inv s"
  shows "card (open_fds (sv_store s)) \<le> 1 + length (tasks (sv_pool s)) + workers s"
proof -
  let ?T = "(\<lambda>t. fd_of t (sv_store s)) ` set (tasks (sv_pool s))"
  let ?H = "hand_fd s ` {..<workers s}"
  let ?L = "{fd_of (l_socket (sv_listener s)) (sv_store s)}"
  have "card (open_fds (sv_store s)) \<le> card (?L \<union> ?T \<union> ?H)"
    by (rule card_mono [OF _ open_fds_held [OF assms]]) simp
  also have "\<dots> \<le> card ?L + card ?T + card ?H"
    using card_Un_le [of "?L \<union> ?T" ?H] card_Un_le [of ?L ?T] by linarith
  also have "\<dots> \<le> 1 + length (tasks (sv_pool s)) + workers s"
    using card_image_le [of "set (tasks (sv_pool s))" "\<lambda>t. fd_of t (sv_store s)"] card_length [of "tasks (sv_pool s)"]
      card_image_le [of "{..<workers s}" "hand_fd s"] by simp
  finally show ?thesis .
qed

end
