(* ===== verification/Server_World.thy ===== *)
theory Server_World
  imports Server_Clients
begin

text \<open>
  The server with its clients: the stream behind every open descriptor, who has come and who has
  been served.  What a worker does between entering and leaving its task is \<open>handle_connection\<close> on
  the stream of the descriptor its connection holds; nobody else touches that stream, so the
  handler's reads and writes are one step, taken when the task ends.
\<close>

section \<open>State and steps\<close>

text \<open>\<open>w_arrived\<close> has the clients the queue had room for, in order, each with the stream it brought;
  \<open>w_served\<close> the clients whose task has ended, each with the stream the handler found, the clock
  it read, and the stream it left.\<close>

record world =
  w_server :: server
  w_stream :: "int \<Rightarrow> net_io"
  w_arrived :: "(nat \<times> net_io) list"
  w_served :: "(nat \<times> net_io \<times> (int \<Rightarrow> nat) \<times> net_io) list"

text \<open>A handler that waits for ever or kills the process (SIGPIPE) has no step; one that throws is
  caught in \<open>worker_loop\<close>.\<close>

inductive world_step :: "filesystem \<Rightarrow> world \<Rightarrow> world \<Rightarrow> bool" for fs :: filesystem where
  client: "sv_running (w_server w) \<Longrightarrow> sv_pooled (w_server w) \<Longrightarrow> objs (sv_store (w_server w)) i = None \<Longrightarrow>
     objs (sv_store (w_server w)) j = None \<Longrightarrow> objs (sv_store (w_server w)) k = None \<Longrightarrow> distinct [i, j, k] \<Longrightarrow>
     fd = -1 \<or> 0 \<le> fd \<and> fd \<notin> open_fds (sv_store (w_server w)) \<Longrightarrow> wire io = [] \<Longrightarrow>
     accept_round now i j k fd io (w_server w) = Some (Returned, io', s') \<Longrightarrow>
     accepted (sv_pool s') = accepted (sv_pool (w_server w)) @ [j] \<Longrightarrow>
     world_step fs w (w\<lparr>w_server := s', w_stream := (w_stream w)(fd := io'), w_arrived := w_arrived w @ [(j, io)]\<rparr>)"
| serve: "sv_pooled (w_server w) \<Longrightarrow> int i < num_workers (sv_config (w_server w)) \<Longrightarrow>
     pcs (sv_pool (w_server w)) i = Running t \<Longrightarrow> worker_step i (sv_pool (w_server w)) = Some p \<Longrightarrow>
     fd = fd_of (sv_conn (w_server w) i) (sv_store (w_server w)) \<Longrightarrow>
     handle_connection fs clock (sv_config (w_server w)) (sv_router (w_server w)) fd (w_stream w fd) = (e, io') \<Longrightarrow>
     e = Returned \<or> e = Threw \<Longrightarrow>
     world_step fs w (w\<lparr>w_server := end_task i t p (w_server w), w_stream := (w_stream w)(fd := io'),
       w_served := w_served w @ [(t, w_stream w fd, clock, io')]\<rparr>)"
| other: "server_step (w_server w) s' \<Longrightarrow> accepted (sv_pool s') = accepted (sv_pool (w_server w)) \<Longrightarrow>
     finished (sv_pool s') = finished (sv_pool (w_server w)) \<Longrightarrow> world_step fs w (w\<lparr>w_server := s'\<rparr>)"

definition world_init :: "Config \<Rightarrow> world \<Rightarrow> bool" where
  "world_init config w = (server_init config (w_server w) \<and> w_arrived w = [] \<and> w_served w = [])"

abbreviation world_reach :: "filesystem \<Rightarrow> Config \<Rightarrow> world \<Rightarrow> bool" where
  "world_reach fs config \<equiv> reach (world_init config) (world_step fs)"

section \<open>The server inside the world\<close>

text \<open>Every step of the world is a step of the server.\<close>

lemma world_step_server:
  assumes "world_step fs w w'"
  shows "server_step (w_server w) (w_server w')"
  using assms
proof cases
  case (client i j k fd io now io' s')
  from server_step.accept [OF client(2-8,10)] show ?thesis by (simp add: client(1))
next
  case (serve i t p fd clock e io')
  from server_step.end_task [OF serve(2-5)] show ?thesis by (simp add: serve(1))
next
  case (other s')
  then show ?thesis by simp
qed

interpretation embedded: refinement_mapping "world_init config" "world_step fs"
    "\<lambda>w. server_inv (w_server w)" "server_init config" server_step w_server for config fs
proof unfold_locales
  fix w w' :: world
  assume "world_init config w"
  then show "server_init config (w_server w)" "server_inv (w_server w)"
    using server.inv_init [of config "w_server w"] by (simp_all add: world_init_def)
next
  fix w w' :: world
  assume inv: "server_inv (w_server w)" and step: "world_step fs w w'"
  note s = world_step_server [OF step]
  from server_inv_step [OF s inv] show "server_inv (w_server w')" .
  from s show "w_server w' = w_server w \<or> server_step (w_server w) (w_server w')" ..
qed

section \<open>The clients of a server\<close>

text \<open>The clients that have not been served yet, each with its stream: \<open>g\<close> gives the stream of a
  \<open>Socket\<close> object.\<close>

fun attended :: "pc \<Rightarrow> nat \<Rightarrow> (nat \<Rightarrow> net_io) \<Rightarrow> (nat \<times> net_io) multiset" where
  "attended (Taken t) conn g = {#(t, g t)#}"
| "attended (Running t) conn g = {#(t, g conn)#}"
| "attended _ conn g = {#}"

definition clients :: "server \<Rightarrow> (nat \<Rightarrow> net_io) \<Rightarrow> (nat \<times> net_io) multiset" where
  "clients s g = mset (map (\<lambda>t. (t, g t)) (tasks (sv_pool s))) +
     (\<Sum>i<workers s. attended (pcs (sv_pool s) i) (sv_conn s i) g)"

definition stream_of :: "(int \<Rightarrow> net_io) \<Rightarrow> server \<Rightarrow> nat \<Rightarrow> net_io" where
  "stream_of st s x = st (fd_of x (sv_store s))"

text \<open>The objects whose streams count: those of waiting clients, of taken tasks, of connections.\<close>

definition client_obj :: "server \<Rightarrow> nat \<Rightarrow> bool" where
  "client_obj s x =
     (x \<in> set (tasks (sv_pool s)) \<or>
      (\<exists>i. pcs (sv_pool s) i = Taken x \<or> (\<exists>t. pcs (sv_pool s) i = Running t \<and> x = sv_conn s i)))"

lemma client_obj_fd:
  assumes "server_inv s" "client_inv s" "client_obj s x"
  shows "fd_of x (sv_store s) \<in> open_fds (sv_store s)"
proof -
  have "fd_of x (sv_store s) \<noteq> -1"
    using assms(3) client_queue [OF assms(2)] client_taken [OF assms(2)] client_conn [OF assms(2)]
    unfolding client_obj_def by auto
  moreover have "own_inv (sv_store s)" using assms(1) by (simp add: server_inv_def)
  ultimately show ?thesis using own_inv_owned [of "sv_store s" x] by (simp add: is_valid_def)
qed

lemma attended_cong:
  "(\<And>t. a = Taken t \<Longrightarrow> g t = g' t) \<Longrightarrow> (\<And>t. a = Running t \<Longrightarrow> g c = g' c) \<Longrightarrow> attended a c g = attended a c g'"
  by (cases a) auto

lemma waiting_cong:
  "(\<And>t. t \<in> set ts \<Longrightarrow> g' t = g t) \<Longrightarrow> mset (map (\<lambda>t. (t, g' t)) ts) = mset (map (\<lambda>t. (t, g t)) ts)"
  by (intro arg_cong [where f = mset] map_cong) auto

lemma clients_cong:
  assumes "tasks (sv_pool s') = tasks (sv_pool s)" "pcs (sv_pool s') = pcs (sv_pool s)" "sv_conn s' = sv_conn s"
    "workers s' = workers s" and g: "\<And>x. client_obj s x \<Longrightarrow> g' x = g x"
  shows "clients s' g' = clients s g"
proof -
  have "attended (pcs (sv_pool s) i) (sv_conn s i) g' = attended (pcs (sv_pool s) i) (sv_conn s i) g" for i
    by (rule attended_cong) (rule g, auto simp: client_obj_def)+
  moreover have "mset (map (\<lambda>t. (t, g' t)) (tasks (sv_pool s))) = mset (map (\<lambda>t. (t, g t)) (tasks (sv_pool s)))"
    by (rule waiting_cong) (use g in \<open>simp add: client_obj_def\<close>)
  ultimately show ?thesis by (simp only: clients_def assms(1-4))
qed

text \<open>One worker moves.\<close>

lemma clients_at:
  assumes "i < workers s" "workers s' = workers s" "tasks (sv_pool s') = tasks (sv_pool s)"
    and "\<And>j. j \<noteq> i \<Longrightarrow> pcs (sv_pool s') j = pcs (sv_pool s) j \<and> sv_conn s' j = sv_conn s j"
    and g: "\<And>x. client_obj s x \<Longrightarrow> \<not> holds i s x \<Longrightarrow> g' x = g x"
    and sinv: "server_inv s" and inv: "client_inv s"
  shows "clients s' g' + attended (pcs (sv_pool s) i) (sv_conn s i) g =
    clients s g + attended (pcs (sv_pool s') i) (sv_conn s' i) g'"
proof -
  have "attended (pcs (sv_pool s') j) (sv_conn s' j) g' = attended (pcs (sv_pool s) j) (sv_conn s j) g"
    if j: "j \<noteq> i" for j
  proof -
    have other: "g' x = g x" if "holds j s x" "client_obj s x" "j < workers s" for x
      using g that held_once(3) [OF inv that(3,1) assms(1)] j by blast
    have "attended (pcs (sv_pool s) j) (sv_conn s j) g' = attended (pcs (sv_pool s) j) (sv_conn s j) g"
    proof (rule attended_cong)
      show "g' t = g t" if "pcs (sv_pool s) j = Taken t" for t
        using that busy_worker [OF sinv, of j t] running_holds(2) [OF that] by (intro other) (auto simp: client_obj_def)
      show "g' (sv_conn s j) = g (sv_conn s j)" if "pcs (sv_pool s) j = Running t" for t
        using that busy_worker [OF sinv, of j t] running_holds(1) [OF that] by (intro other) (auto simp: client_obj_def)
    qed
    with assms(4) [OF j] show ?thesis by simp
  qed
  from sum_at [OF assms(1) this] have
    "(\<Sum>j<workers s. attended (pcs (sv_pool s') j) (sv_conn s' j) g') + attended (pcs (sv_pool s) i) (sv_conn s i) g =
     (\<Sum>j<workers s. attended (pcs (sv_pool s) j) (sv_conn s j) g) + attended (pcs (sv_pool s') i) (sv_conn s' i) g'" .
  moreover have "mset (map (\<lambda>t. (t, g' t)) (tasks (sv_pool s))) = mset (map (\<lambda>t. (t, g t)) (tasks (sv_pool s)))"
    by (rule waiting_cong) (use g held_once(1) [OF inv assms(1)] in \<open>auto simp: client_obj_def\<close>)
  ultimately show ?thesis unfolding clients_def assms(2,3) by (simp add: ac_simps del: mset_map)
qed

section \<open>Who is waiting, step by step\<close>

text \<open>A new client.\<close>

lemma clients_accept:
  assumes sinv: "server_inv s" and inv: "client_inv s"
    and fresh: "objs (sv_store s) i = None" "objs (sv_store s) j = None" "objs (sv_store s) k = None"
      "distinct [i, j, k]" and fd: "fd = -1 \<or> 0 \<le> fd \<and> fd \<notin> open_fds (sv_store s)"
    and round: "accept_round now i j k fd io s = Some (Returned, io', s')"
    and acc: "accepted (sv_pool s') = accepted (sv_pool s) @ [j]"
  shows "io' = io \<and> clients s' (stream_of (st(fd := io')) s') = add_mset (j, io) (clients s (stream_of st s))"
  using round
proof (cases rule: accept_roundE)
  case none
  with acc show ?thesis by simp
next
  case (rejected r w)
  with acc show ?thesis by simp
next
  case (queued p)
  let ?w1 = "listener_accept (sv_listener s) i fd (sv_store s)"
  let ?g = "stream_of (st(fd := io)) s'"
  have p: "tasks p = tasks (sv_pool s) @ [j]" "pcs p = pcs (sv_pool s)" using queued(1) by (auto elim!: enqueueE)
  have s': "sv_conn s' = sv_conn s" "sv_config s' = sv_config s" "sv_pool s' = p"
    using queued(2) by simp_all
  have objs: "objs (sv_store s') = (objs (sv_store s))(j \<mapsto> fd_of i ?w1)"
    using fresh queued(2) by (auto simp: objs_listener_accept fun_eq_iff)
  have new: "fd_of i ?w1 = fd" "fd \<noteq> -1"
    using queued(4) by (auto simp: listener_accept_def socket_create_def is_valid_def split: if_splits)
  have old: "?g x = stream_of st s x" if "client_obj s x" for x
  proof -
    have "fd_of x (sv_store s) \<in> open_fds (sv_store s)" using client_obj_fd [OF sinv inv that] .
    moreover from this have "fd_of x (sv_store s) \<noteq> -1"
      using own_no_minus [of "sv_store s"] sinv by (auto simp: server_inv_def)
    then have "x \<noteq> j" using fresh(2) fd_of_live by metis
    ultimately show ?thesis using fd new(2) by (auto simp: stream_of_def fd_of_def objs)
  qed
  have "?g j = io" by (simp add: stream_of_def fd_of_def objs new(1) [unfolded fd_of_def])
  then have "clients s' ?g = add_mset (j, io) (clients s ?g)"
    by (simp add: clients_def s' p)
  also have "clients s ?g = clients s (stream_of st s)" by (rule clients_cong) (simp_all add: old)
  finally show ?thesis unfolding queued(3) by (intro conjI refl)
qed

text \<open>A client that has been served.\<close>

lemma clients_end:
  assumes sinv: "server_inv s" and inv: "client_inv s" and i: "i < workers s"
    and t: "pcs (sv_pool s) i = Running t" and step: "worker_step i (sv_pool s) = Some p"
    and fd: "fd = fd_of (sv_conn s i) (sv_store s)"
  shows "clients s (stream_of st s) =
    add_mset (t, st fd) (clients (end_task i t p s) (stream_of (st(fd := io')) (end_task i t p s)))"
proof -
  let ?s = "end_task i t p s"
  have p: "tasks p = tasks (sv_pool s)" "pcs p = (pcs (sv_pool s))(i := At_loop)"
    using step t by (auto simp: worker_step_def)
  have s': "sv_listener ?s = sv_listener s" "sv_config ?s = sv_config s" "sv_pool ?s = p" "sv_conn ?s = sv_conn s"
    by (simp_all add: end_task_def)
  have objs: "objs (sv_store ?s) = (objs (sv_store s))(sv_conn s i := None, t := None)"
    by (simp add: end_task_def)
  have frame: "stream_of (st(fd := io')) ?s x = stream_of st s x" if x: "client_obj s x" "\<not> holds i s x" for x
  proof -
    have ne: "x \<noteq> sv_conn s i" "x \<noteq> t" using x(2) running_holds(1) [OF t] by auto
    have own: "own_inv (sv_store s)" using sinv by (simp add: server_inv_def)
    note open_x = client_obj_fd [OF sinv inv x(1)]
    have "fd_of x (sv_store s) \<noteq> fd" using fd_unique [OF own, of x] own_no_minus [OF own] open_x ne(1) fd by metis
    then show ?thesis using ne by (simp add: stream_of_def fd_of_def objs)
  qed
  have "stream_of st s (sv_conn s i) = st fd" by (simp add: stream_of_def fd)
  with clients_at [OF i _ _ _ _ sinv inv, of ?s "stream_of (st(fd := io')) ?s" "stream_of st s"] frame show ?thesis
    by (simp add: s' p t)
qed

text \<open>Any other step: the same clients, with the same streams.\<close>

lemma clients_begin:
  assumes sinv: "server_inv s" and inv: "client_inv s" and i: "i < workers s"
    and t: "pcs (sv_pool s) i = Taken t" and step: "worker_step i (sv_pool s) = Some p"
    and k: "objs (sv_store s) k = None"
  shows "clients (begin_task i t k p s) (stream_of st (begin_task i t k p s)) = clients s (stream_of st s)"
proof -
  let ?s = "begin_task i t k p s"
  have p: "tasks p = tasks (sv_pool s)" "pcs p = (pcs (sv_pool s))(i := Running t)"
    using step t by (auto simp: worker_step_def)
  have s': "sv_config ?s = sv_config s" "sv_pool ?s = p" "sv_conn ?s = (sv_conn s)(i := k)"
    by (simp_all add: begin_task_def)
  have objs: "objs (sv_store ?s) = (objs (sv_store s))(t \<mapsto> -1, k \<mapsto> fd_of t (sv_store s))"
    by (simp add: begin_task_def)
  have "stream_of st ?s x = stream_of st s x" if x: "client_obj s x" "\<not> holds i s x" for x
  proof -
    have "objs (sv_store s) x \<noteq> None"
      using client_obj_fd [OF sinv inv x(1)] own_inv_owned [of "sv_store s" x] own_no_minus [of "sv_store s"] sinv
        fd_of_live by (metis server_inv_def)
    then show ?thesis using x(2) k running_holds(2) [OF t] by (auto simp: stream_of_def fd_of_def objs)
  qed
  moreover have "stream_of st ?s k = stream_of st s t" by (simp add: stream_of_def fd_of_def objs)
  ultimately show ?thesis using clients_at [OF i _ _ _ _ sinv inv, of ?s "stream_of st ?s" "stream_of st s"]
    by (simp add: s' p t)
qed

lemma client_obj_live:
  assumes "server_inv s" "client_inv s" "client_obj s x"
  shows "objs (sv_store s) x \<noteq> None"
  using client_obj_fd [OF assms] own_no_minus [of "sv_store s"] assms(1) fd_of_live [of x "sv_store s"]
  by (metis server_inv_def)

lemma client_obj_not_listener:
  assumes sinv: "server_inv s" and inv: "client_inv s" and x: "client_obj s x"
  shows "x \<noteq> l_socket (sv_listener s)"
proof -
  consider "x \<in> set (tasks (sv_pool s))" | i where "i < workers s" "holds i s x"
    using x busy_worker [OF sinv] running_holds unfolding client_obj_def by blast
  then show ?thesis using held_queue(1) [OF inv] held_once(2) [OF inv] by cases
qed

lemma attended_same:
  "(\<And>t. a = Taken t \<longleftrightarrow> b = Taken t) \<Longrightarrow> (\<And>t. a = Running t \<longleftrightarrow> b = Running t) \<Longrightarrow> attended a c g = attended b c g"
  by (cases a; cases b; simp) metis+

text \<open>Accepting leaves the other objects alone.\<close>

lemma objs_accept_other: "x \<noteq> i \<Longrightarrow> objs (listener_accept l i fd w) x = objs w x"
  by (simp add: objs_listener_accept)

lemma clients_pool:
  assumes sinv: "server_inv s" and inv: "client_inv s" and q: "quiet (sv_pool s) p"
    and step: "pool_step (workers s) (unat (max_queue_size (sv_config s))) (sv_pool s) p"
  shows "clients (s\<lparr>sv_pool := p\<rparr>) g = clients s g" (is "clients ?s g = _")
  using step q
proof (cases rule: quiet_stepE)
  case still
  have "attended (pcs p i) (sv_conn s i) g = attended (pcs (sv_pool s) i) (sv_conn s i) g" for i
    by (rule attended_same) (rule still)+
  then show ?thesis by (simp add: clients_def still(1))
next
  case (pop i t)
  have "(\<Sum>j<workers s. attended (pcs p j) (sv_conn s j) g) + attended (pcs (sv_pool s) i) (sv_conn s i) g =
      (\<Sum>j<workers s. attended (pcs (sv_pool s) j) (sv_conn s j) g) + attended (pcs p i) (sv_conn s i) g"
    by (rule sum_at [OF pop(1)]) (simp add: pop(4))
  then show ?thesis by (simp add: clients_def pop)
qed

text \<open>A round of the accept loop that brings no task.\<close>

lemma clients_turned_away:
  assumes sinv: "server_inv s" and inv: "client_inv s"
    and free: "objs (sv_store s) i = None" "objs (sv_store s) j = None" "objs (sv_store s) k = None"
    and round: "accept_round now i j k fd io s = Some (Returned, io', s')"
    and same: "accepted (sv_pool s') = accepted (sv_pool s)"
  shows "clients s' (stream_of st s') = clients s (stream_of st s)"
proof -
  have fresh: "x \<noteq> i" "x \<noteq> j" "x \<noteq> k" if "client_obj s x" for x
    using client_obj_live [OF sinv inv that] free by blast+
  from round show ?thesis
  proof (cases rule: accept_roundE)
    case none
    have "stream_of st s' x = stream_of st s x" if "client_obj s x" for x
      using fresh [OF that] by (simp add: none(1) stream_of_def fd_of_def objs_accept_other)
    then show ?thesis by (intro clients_cong) (simp_all add: none(1))
  next
    case (queued p)
    from queued(1) have "accepted p = accepted (sv_pool s) @ [j]" by (cases rule: enqueueE) simp_all
    with same queued(2) show ?thesis by simp
  next
    case (rejected r w)
    have "stream_of st s' x = stream_of st s x" if "client_obj s x" for x
      using fresh [OF that] by (simp add: rejected(2,3) stream_of_def fd_of_def objs_accept_other)
    then show ?thesis by (intro clients_cong) (simp_all add: rejected(3))
  qed
qed

lemma clients_other:
  assumes sinv: "server_inv s" and inv: "client_inv s" and step: "server_step s s'"
    and same: "accepted (sv_pool s') = accepted (sv_pool s)" "finished (sv_pool s') = finished (sv_pool s)"
  shows "clients s' (stream_of st s') = clients s (stream_of st s)"
  using step
proof cases
  case (start tmp res)
  then have "sv_pool s' = new_pool" "sv_pool s = new_pool"
    using sinv by (auto simp: server_start_def server_inv_def Let_def split: prod.splits if_splits)
  moreover have "pcs new_pool i = At_loop" for i by (simp add: new_pool_def)
  ultimately show ?thesis by (simp add: clients_def) (simp add: new_pool_def)
next
  case (accept i j k fd now io io')
  from clients_turned_away [OF sinv inv accept(3-5,8) same(1)] show ?thesis .
next
  case (begin_task i t p k)
  then have "i < workers s" by simp
  from clients_begin [OF sinv inv this begin_task(4-6)] begin_task(1) show ?thesis by simp
next
  case (end_task i t p)
  then have "finished p = finished (sv_pool s) @ [t]" by (auto simp: worker_step_def)
  with same(2) end_task(1) show ?thesis by (simp add: end_task_def)
next
  case (pool p)
  then have "stream_of st s' = stream_of st s" by (simp add: stream_of_def fun_eq_iff)
  with clients_pool [OF sinv inv pool(4,3)] pool(1) show ?thesis by simp
next
  case stop
  have "stream_of st s' x = stream_of st s x" if "client_obj s x" for x
    using client_obj_not_listener [OF sinv inv that] socket_close_other
    by (simp add: stop stream_of_def fd_of_def listener_stop_def)
  then show ?thesis by (intro clients_cong) (simp_all add: stop shutdown_exchange_def)
qed

section \<open>Every client is accounted for\<close>

definition served_by :: "filesystem \<Rightarrow> server \<Rightarrow> net_io \<Rightarrow> (int \<Rightarrow> nat) \<Rightarrow> net_io \<Rightarrow> bool" where
  "served_by fs s io clock io' =
     (\<exists>fd e. fd \<noteq> -1 \<and> (e = Returned \<or> e = Threw) \<and>
        handle_connection fs clock (sv_config s) (sv_router s) fd io = (e, io'))"

definition world_inv :: "filesystem \<Rightarrow> world \<Rightarrow> bool" where
  "world_inv fs w =
     (mset (w_arrived w) = mset (map (\<lambda>(t, io, _, _). (t, io)) (w_served w)) +
        clients (w_server w) (stream_of (w_stream w) (w_server w)) \<and>
      map fst (w_arrived w) = accepted (sv_pool (w_server w)) \<and>
      map fst (w_served w) = finished (sv_pool (w_server w)) \<and>
      (\<forall>(t, io)\<in>set (w_arrived w). wire io = []) \<and>
      (\<forall>(t, io, clock, io')\<in>set (w_served w). served_by fs (w_server w) io clock io'))"

lemma server_step_served_by: "server_step s s' \<Longrightarrow> served_by fs s' = served_by fs s"
  using server_step_same [of s s'] by (simp add: served_by_def fun_eq_iff)

lemma world_inv_init:
  assumes "world_init config w"
  shows "world_inv fs w"
proof -
  have "sv_pool (w_server w) = new_pool" "w_arrived w = []" "w_served w = []"
    using assms by (auto simp: world_init_def server_init_def new_server_def)
  moreover have "pcs new_pool i = At_loop" for i by (simp add: new_pool_def)
  ultimately show ?thesis by (simp add: world_inv_def clients_def) (simp add: new_pool_def)
qed

lemma worker_step_accepted: "worker_step i p = Some p' \<Longrightarrow> accepted p' = accepted p"
  by (erule worker_stepE) simp_all

lemma world_inv_step:
  assumes step: "world_step fs w w'" and sinv: "server_inv (w_server w)" and cinv: "client_inv (w_server w)"
    and inv: "world_inv fs w"
  shows "world_inv fs w'"
  using step
proof cases
  case (client i j k fd io now io' s')
  from server_step.accept [OF client(2-8,10)] have s: "server_step (w_server w) s'" .
  have fin: "finished (sv_pool s') = finished (sv_pool (w_server w))"
    using client(10) by (cases rule: accept_roundE) (auto elim: enqueueE)
  from conjunct2 [OF clients_accept [OF sinv cinv client(4-8,10,11), of "w_stream w"]] inv fin client(9,11)
  show ?thesis by (simp add: world_inv_def client(1) server_step_served_by [OF s] del: fun_upd_apply)
next
  case (serve i t p fd clock e io')
  then have i: "i < workers (w_server w)" by simp
  let ?s = "end_task i t p (w_server w)"
  have s: "server_step (w_server w) ?s" by (rule server_step.end_task [OF serve(2-5)])
  have p: "finished (sv_pool ?s) = finished (sv_pool (w_server w)) @ [t]"
      "accepted (sv_pool ?s) = accepted (sv_pool (w_server w))"
    using serve(4,5) by (auto simp: worker_step_def end_task_def)
  have "fd \<noteq> -1" using client_conn [OF cinv serve(4)] serve(6) by simp
  then have "served_by fs (w_server w) (w_stream w fd) clock io'" using serve(7,8) unfolding served_by_def by blast
  with clients_end [OF sinv cinv i serve(4,5,6), of "w_stream w" io'] inv
  show ?thesis by (simp add: world_inv_def serve(1) p server_step_served_by [OF s] del: fun_upd_apply)
next
  case (other s')
  from clients_other [OF sinv cinv other(2-4), of "w_stream w"] inv other
  show ?thesis by (simp add: world_inv_def server_step_served_by [OF other(2)])
qed

interpretation world: invariant_system "world_init config" "world_step fs"
    "\<lambda>w. server_inv (w_server w) \<and> client_inv (w_server w) \<and> sv_config (w_server w) = config \<and> world_inv fs w" for config fs
proof unfold_locales
  fix w :: world
  assume w: "world_init config w"
  then have "server_init config (w_server w)" by (simp add: world_init_def)
  moreover from this have "sv_config (w_server w) = config" by (auto simp: server_init_def new_server_def)
  ultimately show "server_inv (w_server w) \<and> client_inv (w_server w) \<and> sv_config (w_server w) = config \<and> world_inv fs w"
    using server.inv_init client_inv_init world_inv_init [OF w] by blast
next
  fix w w' :: world
  assume inv: "server_inv (w_server w) \<and> client_inv (w_server w) \<and> sv_config (w_server w) = config \<and> world_inv fs w"
    and step: "world_step fs w w'"
  note s = world_step_server [OF step]
  show "server_inv (w_server w') \<and> client_inv (w_server w') \<and> sv_config (w_server w') = config \<and> world_inv fs w'"
    using inv server_inv_step [OF s] client_inv_step [OF s] server_step_same [OF s] world_inv_step [OF step] by simp
qed

end
