(* ===== verification/Thread_Pool_Shutdown.thy ===== *)
theory Thread_Pool_Shutdown
  imports Thread_Pool
begin

text \<open>
  How \<open>ThreadPool::shutdown\<close> ends.  If no worker is just about to fall asleep when it sets \<open>stop_\<close>, it
  returns after a bounded number of steps, its own and those of all other threads; a worker between the
  predicate and the block misses \<open>notify_all\<close> and is joined for ever, because \<open>stop_\<close> is set without the
  mutex.
\<close>

section \<open>The work left\<close>

text \<open>The steps left in the present round of a worker, at most; one that sleeps in a pool at work has to
  go round only when it is notified.\<close>

fun rank :: "pc \<Rightarrow> nat" where
  "rank (Taken _) = 7"
| "rank (Running _) = 6"
| "rank At_loop = 5"
| "rank Acquire = 4"
| "rank In_wait = 3"
| "rank Woken = 2"
| "rank Blocking = 2"
| "rank Waiting = 1"
| "rank Exited = 0"

definition work :: "nat \<Rightarrow> pool \<Rightarrow> nat" where
  "work n s = 8 * length (tasks s) + (\<Sum>i<n. rank (pcs s i))"

lemma rank_goto:
  "i < n \<Longrightarrow> (\<Sum>j<n. rank (((pcs s)(i := c)) j)) + rank (pcs s i) = (\<Sum>j<n. rank (pcs s j)) + rank c"
  by (rule sum_goto)

section \<open>Termination of \<open>shutdown\<close>\<close>

text \<open>A pool that is closing well: only before \<open>notify_all\<close> is anyone asleep, and no one is about to be.\<close>

definition closing :: "nat \<Rightarrow> pool \<Rightarrow> bool" where
  "closing n s =
     (pool_inv n s \<and> stop s \<and> (\<forall>i. pcs s i \<noteq> Blocking) \<and>
      (\<forall>i. pcs s i = Waiting \<longrightarrow> shut s = Exchanged) \<and>
      (\<forall>i. shut s = Joining i \<longrightarrow> i \<notin> joined s))"

text \<open>The steps left to all threads: eight per queued task and the rest of the present round for the
  workers (a sleeper will be woken), two for each thread to be joined, and the notifications that are
  still owed.\<close>

definition closing_rank :: "pc \<Rightarrow> nat" where
  "closing_rank c = (if c = Waiting then 5 else rank c)"

definition shutdown_left :: "nat \<Rightarrow> pool \<Rightarrow> nat" where
  "shutdown_left n s =
     (case shut s of
        Exchanged \<Rightarrow> 2 * n + 2
      | Clearing \<Rightarrow> 2 * (n - card (joined s)) + 1
      | Joining _ \<Rightarrow> 2 * (n - card (joined s))
      | _ \<Rightarrow> 0)"

definition closing_work :: "nat \<Rightarrow> pool \<Rightarrow> nat" where
  "closing_work n s =
     8 * length (tasks s) + (\<Sum>i<n. closing_rank (pcs s i)) + shutdown_left n s + notifies s"

lemma shutdown_left_cong:
  "shut s1 = shut s \<Longrightarrow> joined s1 = joined s \<Longrightarrow> shutdown_left n s1 = shutdown_left n s"
  by (simp add: shutdown_left_def split: shut_pc.split)

lemma closing_goto:
  "i < n \<Longrightarrow> (\<Sum>j<n. closing_rank (((pcs s)(i := c)) j)) + closing_rank (pcs s i) =
     (\<Sum>j<n. closing_rank (pcs s j)) + closing_rank c"
  by (rule sum_goto)

lemma closing_joined: "closing n s \<Longrightarrow> joined s \<subseteq> {..<n} \<and> finite (joined s) \<and> card (joined s) \<le> n"
proof -
  assume "closing n s"
  then have "joined s \<subseteq> {..<n}" by (auto simp: closing_def pool_inv_def)
  with card_mono [of "{..<n}" "joined s"] finite_subset [of "joined s" "{..<n}"] show ?thesis by simp
qed

lemma closing_work_goto:
  assumes d: "closing n s" and i: "i < n" and inv: "pool_inv n s'"
    and s': "s' = goto i c s1"
    and s1: "pcs s1 = pcs s" "stop s1 = stop s" "shut s1 = shut s" "joined s1 = joined s"
    and less: "closing_rank c + 8 * length (tasks s1) + notifies s1 <
      closing_rank (pcs s i) + 8 * length (tasks s) + notifies s"
    and c: "c \<noteq> Waiting" "c \<noteq> Blocking"
  shows "closing_work n s' < closing_work n s \<and> closing n s'"
proof -
  have "shutdown_left n s' = shutdown_left n s" by (rule shutdown_left_cong) (simp_all add: s' s1)
  moreover have "closing n s'" using d inv s1 c by (auto simp: s' closing_def)
  ultimately show ?thesis
    using less closing_goto [OF i, of s c] s1 by (simp add: s' closing_work_def)
qed

lemma closing_worker:
  assumes d: "closing n s" and i: "i < n" and step: "worker_step i s = Some s'"
  shows "closing_work n s' < closing_work n s \<and> closing n s'"
proof -
  have inv: "pool_inv n s'" using d i step pool_inv_worker by (auto simp: closing_def)
  from step show ?thesis
  proof (cases rule: worker_stepE)
    case unready
    with d show ?thesis by (simp add: closing_def wait_predicate_def)
  next
    case block
    with d show ?thesis by (simp add: closing_def)
  next
    case empty
    with d show ?thesis by (simp add: closing_def)
  qed ((rule closing_work_goto [OF d i inv], assumption, simp_all add: closing_rank_def)[1])+
qed

lemma closing_wake:
  assumes d: "closing n s" and inv: "pool_inv n (notify_all s)" and w: "shut s = Exchanged"
  shows "closing_work n (notify_all s) < closing_work n s \<and> closing n (notify_all s)"
proof -
  have "(\<Sum>i<n. closing_rank (pcs (notify_all s) i)) \<le> (\<Sum>i<n. closing_rank (pcs s i))"
    by (rule sum_mono) (simp add: notify_all_def closing_rank_def)
  with w d inv show ?thesis
    by (auto simp: closing_work_def closing_def shutdown_left_def notify_all_def)
qed

lemma closing_join:
  assumes d: "closing n s" and inv: "pool_inv n (join_worker i s)" and j: "shut s = Joining i"
  shows "closing_work n (join_worker i s) < closing_work n s \<and> closing n (join_worker i s)"
proof -
  have "i < n" "i \<notin> joined s" using j d by (auto simp: closing_def pool_inv_def)
  then have "card (insert i (joined s)) = Suc (card (joined s))" "card (insert i (joined s)) \<le> n"
    using closing_joined [OF d] card_mono [of "{..<n}" "insert i (joined s)"] by auto
  with j d inv show ?thesis
    by (auto simp: closing_work_def closing_def shutdown_left_def join_worker_def)
qed

text \<open>Every step that does anything brings the end nearer.\<close>

lemma closing_step:
  assumes d: "closing n s" and step: "pool_step n m s s'" and moves: "s' \<noteq> s"
  shows "closing_work n s' < closing_work n s \<and> closing n s'"
proof -
  have inv: "pool_inv n s'" using pool_inv_step [OF step] d by (simp add: closing_def)
  have stop: "stop s" using d by (simp add: closing_def)
  show ?thesis
    using step
  proof cases
    case (worker i)
    with closing_worker [OF d] show ?thesis by blast
  next
    case (spurious i)
    then show ?thesis
      by (intro closing_work_goto [OF d spurious(2) inv spurious(1)]) (simp_all add: closing_rank_def)
  next
    case (enqueue t r)
    with stop moves show ?thesis by (simp add: enqueue_def split: if_splits)
  next
    case (notify_one i)
    then show ?thesis
      by (intro closing_work_goto [OF d notify_one(3) inv notify_one(1)]) (simp_all add: closing_rank_def)
  next
    case notify_none
    then have "shutdown_left n s' = shutdown_left n s" by (intro shutdown_left_cong) simp_all
    with notify_none d inv show ?thesis by (simp add: closing_work_def closing_def)
  next
    case exchange
    with stop moves show ?thesis by (simp add: shutdown_exchange_def)
  next
    case wake
    with closing_wake [OF d] inv show ?thesis by simp
  next
    case (request i)
    with d inv show ?thesis
      by (auto simp: closing_work_def closing_def shutdown_left_def request_stop_def)
  next
    case (join i)
    with closing_join [OF d] inv show ?thesis by simp
  next
    case return
    with d inv show ?thesis
      by (auto simp: closing_work_def closing_def shutdown_left_def)
  qed
qed

lemma mutex_holder:
  assumes inv: "pool_inv n s" and j: "mutex s = Some j"
  shows "j < n \<and> worker_step j s \<noteq> None"
proof -
  have h: "holds_mutex (pcs s j)" and out: "\<forall>k\<ge>n. pcs s k = At_loop"
    using inv j by (auto simp: pool_inv_def)
  have "j < n"
  proof (rule ccontr)
    assume "\<not> j < n"
    with out have "pcs s j = At_loop" by simp
    with h show False by (simp add: holds_mutex_def)
  qed
  with h show ?thesis by (auto simp: worker_step_def holds_mutex_def)
qed

lemma closing_progress:
  assumes d: "closing n s" "shut s \<noteq> Exchanged" and i: "i < n" "pcs s i \<noteq> Exited"
  shows "\<exists>j<n. worker_step j s \<noteq> None"
proof (cases "mutex s")
  case None
  have "pcs s i \<noteq> Waiting" using d by (auto simp: closing_def)
  with None i show ?thesis
    by (intro exI [of _ i]) (auto simp: worker_step_def split: pc.split)
next
  case (Some j)
  with d mutex_holder [of n s j] show ?thesis by (auto simp: closing_def)
qed

text \<open>The steps that do something, of any thread, and where they can end.\<close>

definition moves :: "nat \<Rightarrow> nat \<Rightarrow> pool \<Rightarrow> pool \<Rightarrow> bool" where
  "moves n m s s' = (pool_step n m s s' \<and> s' \<noteq> s)"

lemma moves_shut: "pool_step n m s s' \<Longrightarrow> shut s' \<noteq> shut s \<Longrightarrow> moves n m s s'"
  by (auto simp: moves_def)

lemma closing_at_rest:
  assumes d: "closing n s" and rest: "\<And>s'. \<not> moves n m s s'"
  shows "shut s = Shut"
proof (cases "shut s")
  case Not_called
  with d show ?thesis by (auto simp: closing_def pool_inv_def)
next
  case Exchanged
  then have "moves n m s (notify_all s)"
    by (intro moves_shut pool_step.wake) (simp_all add: notify_all_def)
  with rest show ?thesis by blast
next
  case Clearing
  show ?thesis
  proof (cases "joined s = {..<n}")
    case True
    with Clearing have "moves n m s (s\<lparr>shut := Shut\<rparr>)" by (intro moves_shut pool_step.return) simp_all
    with rest show ?thesis by blast
  next
    case False
    with closing_joined [OF d] obtain i where "i < n" "i \<notin> joined s" by blast
    with Clearing have "moves n m s (request_stop i s)"
      by (intro moves_shut pool_step.request) (simp_all add: request_stop_def)
    with rest show ?thesis by blast
  qed
next
  case (Joining i)
  then have i: "i < n" using d by (simp add: closing_def pool_inv_def)
  show ?thesis
  proof (cases "pcs s i = Exited")
    case True
    with Joining have "moves n m s (join_worker i s)"
      by (intro moves_shut pool_step.join) (simp_all add: join_worker_def)
    with rest show ?thesis by blast
  next
    case False
    with closing_progress [OF d _ i] Joining obtain j s' where j: "j < n" "worker_step j s = Some s'" by auto
    from closing_worker [OF d j] have "s' \<noteq> s" by auto
    with pool_step.worker [OF j] have "moves n m s s'" by (simp add: moves_def)
    with rest show ?thesis by blast
  qed
qed

lemma closing_moves:
  "(moves n m ^^ k) s s' \<Longrightarrow> closing n s \<Longrightarrow> k + closing_work n s' \<le> closing_work n s \<and> closing n s'"
proof (induction k arbitrary: s')
  case 0
  then show ?case by simp
next
  case (Suc k)
  then obtain t where t: "(moves n m ^^ k) s t" "moves n m t s'" by auto
  from Suc.IH [OF t(1) Suc.prems(2)] t(2) closing_step [of n t m s'] show ?case by (auto simp: moves_def)
qed

lemma exchange_closing:
  assumes "pool_inv n s" "\<not> stop s" "\<And>i. pcs s i \<noteq> Blocking"
  shows "closing n (shutdown_exchange s) \<and>
    closing_work n (shutdown_exchange s) \<le> 8 * length (tasks s) + notifies s + 9 * n + 2"
proof -
  have "(\<Sum>i<n. closing_rank (pcs s i)) \<le> (\<Sum>i<n. 7)"
  proof (rule sum_mono)
    show "closing_rank (pcs s i) \<le> 7" for i by (cases "pcs s i") (auto simp: closing_rank_def)
  qed
  with assms pool_inv_shutdown(1) [OF assms(1)] show ?thesis
    by (simp add: closing_def closing_work_def shutdown_left_def shutdown_exchange_def)
qed

section \<open>Schedules with a bad end\<close>

text \<open>No thread moves any more unless the condition variable wakes up by itself.\<close>

definition deadlocked :: "nat \<Rightarrow> nat \<Rightarrow> pool \<Rightarrow> bool" where
  "deadlocked n m s =
     ((\<exists>i<n. shut s = Joining i \<and> pcs s i = Waiting) \<and>
      (\<forall>s'. pool_step n m s s' \<longrightarrow> s' = s \<or> (\<exists>i<n. pcs s i = Waiting \<and> s' = goto i Acquire s)))"

lemma reach_worker:
  "pool_reach n m s \<Longrightarrow> i < n \<Longrightarrow> worker_step i s = Some s' \<Longrightarrow> pool_reach n m s'"
  by (erule reach_step) (rule pool_step.worker)

definition missed_wakeup :: pool where
  "missed_wakeup = request_stop 0 (goto 0 Waiting ((notify_all (shutdown_exchange
     (goto 0 Blocking (goto 0 In_wait (new_pool\<lparr>mutex := Some 0\<rparr>)))))\<lparr>mutex := None\<rparr>))"

lemma missed_wakeup_reachable: "pool_reach 1 m missed_wakeup"
proof -
  let ?s1 = "goto 0 Acquire new_pool"
  let ?s2 = "goto 0 In_wait (?s1\<lparr>mutex := Some 0\<rparr>)"
  let ?s3 = "goto 0 Blocking ?s2"
  let ?s4 = "shutdown_exchange ?s3"
  let ?s5 = "notify_all ?s4"
  let ?s6 = "goto 0 Waiting (?s5\<lparr>mutex := None\<rparr>)"
  have "pool_reach 1 m new_pool" by (rule reach_init) simp
  then have "pool_reach 1 m ?s1" by (rule reach_worker [of _ _ _ 0]) (simp_all add: worker_step_def new_pool_def)
  then have "pool_reach 1 m ?s2" by (rule reach_worker [of _ _ _ 0]) (simp_all add: worker_step_def new_pool_def)
  then have "pool_reach 1 m ?s3"
    by (rule reach_worker [of _ _ _ 0]) (simp_all add: worker_step_def new_pool_def wait_predicate_def)
  then have "pool_reach 1 m ?s4" by (rule reach_step) (rule pool_step.exchange)
  then have "pool_reach 1 m ?s5"
    by (rule reach_step) (rule pool_step.wake, simp add: shutdown_exchange_def new_pool_def)
  then have "pool_reach 1 m ?s6"
    by (rule reach_worker [of _ _ _ 0])
      (simp_all add: worker_step_def notify_all_def shutdown_exchange_def new_pool_def)
  then have "pool_reach 1 m (request_stop 0 ?s6)"
    by (rule reach_step)
      (rule pool_step.request, simp_all add: notify_all_def shutdown_exchange_def new_pool_def)
  moreover have "request_stop 0 ?s6 = missed_wakeup"
    by (simp add: missed_wakeup_def goto_def notify_all_def shutdown_exchange_def new_pool_def
        request_stop_def fun_eq_iff)
  ultimately show ?thesis by simp
qed

lemma missed_wakeup_fields:
  "pcs missed_wakeup 0 = Waiting" "shut missed_wakeup = Joining 0" "notifies missed_wakeup = 0"
  "stop missed_wakeup" "mutex missed_wakeup = None" "tasks missed_wakeup = []"
  by (simp_all add: missed_wakeup_def request_stop_def goto_def notify_all_def shutdown_exchange_def
      new_pool_def)

lemma missed_wakeup_deadlocked: "deadlocked 1 m missed_wakeup"
proof -
  have "s' = missed_wakeup \<or> s' = goto 0 Acquire missed_wakeup" if "pool_step 1 m missed_wakeup s'" for s'
    using that
    by (cases rule: pool_step.cases)
      (auto simp: worker_step_def missed_wakeup_fields enqueue_def shutdown_exchange_def)
  then show ?thesis
    unfolding deadlocked_def using missed_wakeup_fields by force
qed

text \<open>A task accepted before \<open>shutdown\<close> and never run.\<close>

lemma dropped_task:
  assumes "0 < m"
  shows "\<exists>s. pool_reach 1 m s \<and> shut s = Shut \<and> tasks s = [t] \<and> accepted s = [t] \<and> started s = []"
proof -
  define s1 where "s1 = new_pool\<lparr>tasks := [t], accepted := [t], notifies := 1\<rparr>"
  let ?s2 = "notify_all (shutdown_exchange s1)"
  let ?s3 = "goto 0 Exited (request_stop 0 ?s2)"
  let ?s4 = "join_worker 0 ?s3"
  have "pool_reach 1 m new_pool" by (rule reach_init) simp
  then have "pool_reach 1 m s1"
    by (rule reach_step) (rule pool_step.enqueue [of m t _ True], use assms in \<open>simp add: enqueue_def new_pool_def s1_def\<close>)
  then have "pool_reach 1 m (shutdown_exchange s1)" by (rule reach_step) (rule pool_step.exchange)
  then have "pool_reach 1 m ?s2"
    by (rule reach_step) (rule pool_step.wake, simp add: shutdown_exchange_def s1_def new_pool_def)
  then have "pool_reach 1 m (request_stop 0 ?s2)"
    by (rule reach_step) (rule pool_step.request,
      simp_all add: notify_all_def shutdown_exchange_def s1_def new_pool_def)
  then have "pool_reach 1 m ?s3"
    by (rule reach_worker [of _ _ _ 0])
      (simp_all add: worker_step_def request_stop_def notify_all_def shutdown_exchange_def s1_def new_pool_def)
  then have "pool_reach 1 m ?s4"
    by (rule reach_step) (rule pool_step.join, simp_all add: request_stop_def)
  then have "pool_reach 1 m (?s4\<lparr>shut := Shut\<rparr>)"
    by (rule reach_step) (rule pool_step.return,
      auto simp: join_worker_def request_stop_def notify_all_def shutdown_exchange_def s1_def new_pool_def)
  then show ?thesis
    by (rule exI [of _ "?s4\<lparr>shut := Shut\<rparr>", OF conjI])
      (simp add: join_worker_def request_stop_def notify_all_def shutdown_exchange_def s1_def new_pool_def)
qed

end
