(* ===== verification/Thread_Pool_Progress.thy ===== *)
theory Thread_Pool_Progress
  imports Thread_Pool_Shutdown
begin

text \<open>
  A running pool that is left alone: whatever the schedule of the workers and of the
  notifications that are on their way, it comes to rest after a bounded number of steps, and then
  every accepted task has been run to its end and every worker sleeps.
\<close>

section \<open>Left alone\<close>

text \<open>The moves a pool makes by itself.\<close>

inductive serving_step :: "nat \<Rightarrow> pool \<Rightarrow> pool \<Rightarrow> bool" for n :: nat where
  worker: "i < n \<Longrightarrow> worker_step i s = Some s' \<Longrightarrow> serving_step n s s'"
| notify_one: "0 < notifies s \<Longrightarrow> i < n \<Longrightarrow> pcs s i = Waiting \<Longrightarrow>
    serving_step n s (goto i Acquire (s\<lparr>notifies := notifies s - 1\<rparr>))"
| notify_none: "0 < notifies s \<Longrightarrow> \<forall>i<n. pcs s i \<noteq> Waiting \<Longrightarrow>
    serving_step n s (s\<lparr>notifies := notifies s - 1\<rparr>)"

lemma serving_pool_step: "serving_step n s s' \<Longrightarrow> pool_step n m s s'"
  by (induction rule: serving_step.induct) (blast intro: pool_step.intros)+

text \<open>A worker past its wait finds a task, as long as the pool runs: the test for an empty queue
  behind the wait never succeeds then.\<close>

definition woken_inv :: "pool \<Rightarrow> bool" where
  "woken_inv s = (\<forall>i. pcs s i = Woken \<longrightarrow> stop s \<or> tasks s \<noteq> [])"

lemma woken_inv_worker:
  assumes inv: "pool_inv n s" and w: "woken_inv s" and step: "worker_step i s = Some s'"
  shows "woken_inv s'"
  using step
proof (cases rule: worker_stepE)
  case ready
  have "stop s \<or> tasks s \<noteq> []" using ready(2) inv by (auto simp: wait_predicate_def pool_inv_def)
  with ready(3) w show ?thesis by (auto simp: woken_inv_def)
next
  case (pop t ts)
  have "pcs s j \<noteq> Woken" if "j \<noteq> i" for j
    using inv pop(1) that unfolding pool_inv_def holds_mutex_def by (metis insertI1 insertI2 option.inject)
  with pop(3) show ?thesis by (simp add: woken_inv_def)
qed (use w in \<open>auto simp: woken_inv_def\<close>)

lemma woken_inv_step: "pool_step n m s s' \<Longrightarrow> pool_inv n s \<Longrightarrow> woken_inv s \<Longrightarrow> woken_inv s'"
proof (induction rule: pool_step.induct)
  case (worker i s s')
  then show ?case using woken_inv_worker by blast
next
  case (enqueue t s r s')
  from enqueue.hyps show ?case by (cases rule: enqueueE) (use enqueue in \<open>simp_all add: woken_inv_def\<close>)
next
  case (wake s)
  then show ?case by (auto simp: woken_inv_def notify_all_def split: if_splits)
qed (auto simp: woken_inv_def shutdown_exchange_def request_stop_def join_worker_def)

interpretation woken: layered_invariant "\<lambda>s. s = new_pool" "pool_step n m" "pool_inv n" woken_inv for n m
proof unfold_locales
  show "woken_inv s" if "s = new_pool" for s using that by (simp add: woken_inv_def new_pool_def)
qed (rule woken_inv_step)

section \<open>Every schedule ends\<close>

definition to_do :: "nat \<Rightarrow> pool \<Rightarrow> nat" where
  "to_do n s = work n s + 8 * notifies s"

lemma to_do_goto:
  assumes "i < n" "rank c + 8 * length (tasks s1) + 8 * notifies s1 < rank (pcs s i) + 8 * length (tasks s) + 8 * notifies s"
    "pcs s1 = pcs s"
  shows "to_do n (goto i c s1) < to_do n s"
  using assms rank_goto [OF assms(1), of s c] by (simp add: to_do_def work_def)

lemma serving_step_less:
  assumes "serving_step n s s'" "pool_inv n s" "woken_inv s" "\<not> stop s"
  shows "to_do n s' < to_do n s \<and> \<not> stop s' \<and> accepted s' = accepted s"
  using assms(1)
proof cases
  case (worker i)
  from worker(2) show ?thesis
  proof (cases rule: worker_stepE)
    case empty
    with assms(3,4) show ?thesis by (auto simp: woken_inv_def)
  qed (use worker(1) assms(4) in \<open>simp_all add: to_do_goto\<close>)
next
  case (notify_one i)
  with assms(4) show ?thesis by (simp add: to_do_goto)
next
  case notify_none
  with assms(4) show ?thesis by (simp add: to_do_def work_def)
qed

lemma serving_steps:
  assumes "(serving_step n ^^ k) s s'" "pool_reach n m s" "\<not> stop s"
  shows "k + to_do n s' \<le> to_do n s \<and> pool_reach n m s' \<and> \<not> stop s' \<and> accepted s' = accepted s"
  using assms(1)
proof (induction k arbitrary: s')
  case 0
  with assms show ?case by simp
next
  case (Suc k)
  then obtain t where t: "(serving_step n ^^ k) s t" "serving_step n t s'" by auto
  from Suc.IH [OF t(1)] have r: "pool_reach n m t" "\<not> stop t" "k + to_do n t \<le> to_do n s" "accepted t = accepted s"
    by simp_all
  have "pool_reach n m s'" using reach_step [OF r(1) serving_pool_step [OF t(2)]] .
  with r serving_step_less [OF t(2) _ woken.reach_inv2 [OF r(1)] r(2)] pool_reach_inv [OF r(1)] show ?case
    by simp
qed

lemma to_do_bound: "to_do n s \<le> 8 * (length (tasks s) + notifies s) + 7 * n"
proof -
  have "(\<Sum>i<n. rank (pcs s i)) \<le> (\<Sum>i<n. 7)"
  proof (rule sum_mono)
    show "rank (pcs s i) \<le> 7" for i by (cases "pcs s i") auto
  qed
  then show ?thesis by (simp add: to_do_def work_def)
qed

section \<open>At rest\<close>

lemma at_rest_waiting:
  assumes inv: "pool_inv n s" and run: "\<not> stop s" and rest: "\<And>s'. \<not> serving_step n s s'"
  shows "notifies s = 0 \<and> (\<forall>i<n. pcs s i = Waiting)"
proof -
  have "notifies s = 0"
    using rest serving_step.notify_one [of s _ n] serving_step.notify_none [of s n] by blast
  moreover have none: "worker_step i s = None" if "i < n" for i
    using rest serving_step.worker [OF that] by (cases "worker_step i s") auto
  moreover have "mutex s = None"
  proof (rule ccontr)
    assume "mutex s \<noteq> None"
    then obtain j where j: "mutex s = Some j" by blast
    with mutex_holder [OF inv] none show False by blast
  qed
  moreover have "pcs s i \<noteq> Exited" for i using inv run unfolding pool_inv_def by blast
  ultimately show ?thesis
  proof (intro conjI allI impI)
    fix i
    assume "mutex s = None" "i < n" and none: "\<And>i. i < n \<Longrightarrow> worker_step i s = None" and "\<And>i. pcs s i \<noteq> Exited"
    then show "pcs s i = Waiting" using none [OF \<open>i < n\<close>] by (cases "pcs s i") (simp_all add: worker_step_def)
  qed
qed

lemma at_rest_done:
  assumes r: "pool_reach n m s" and run: "\<not> stop s" and n: "0 < n" and rest: "\<And>s'. \<not> serving_step n s s'"
  shows "tasks s = [] \<and> mset (finished s) = mset (accepted s) \<and> (\<forall>i<n. pcs s i = Waiting)"
proof -
  note inv = pool_reach_inv [OF r]
  have w: "notifies s = 0" "\<forall>i<n. pcs s i = Waiting" using at_rest_waiting [OF _ run rest] inv by simp_all
  then have "tasks s = []" using inv run n by (auto simp: pool_awake_def)
  moreover have "in_hand n s = {#}" using w by (simp add: in_hand_def hand_def)
  ultimately show ?thesis using inv w by (simp add: pool_count_def)
qed

end
