(* ===== verification/World_Progress.thy ===== *)
theory World_Progress
  imports Server_World Thread_Pool_Progress
begin

text \<open>
  Nobody waits for ever: a server whose pool runs, left alone by new clients, serves everyone who
  has arrived, whatever the schedule of its workers.
\<close>

section \<open>Serving\<close>

text \<open>The steps of the world in which the pool moves by itself.\<close>

definition world_serving :: "filesystem \<Rightarrow> world \<Rightarrow> world \<Rightarrow> bool" where
  "world_serving fs w w' =
     (world_step fs w w' \<and> serving_step (workers (w_server w)) (sv_pool (w_server w)) (sv_pool (w_server w')))"

lemma serving_step_accepted: "serving_step n p p' \<Longrightarrow> accepted p' = accepted p"
  by (induction rule: serving_step.induct) (auto elim: worker_stepE)

lemma server_step_pooled:
  assumes "server_step s s'" "sv_pooled s"
  shows "sv_pooled s'"
  using assms(1)
proof cases
  case (accept i j k fd now io io')
  from accept(8) assms(2) show ?thesis by (cases rule: accept_roundE) simp_all
qed (use assms(2) in \<open>auto simp: begin_task_def end_task_def\<close>)

lemma world_serving_same:
  assumes "world_serving fs w w'"
  shows "w_arrived w' = w_arrived w \<and> sv_config (w_server w') = sv_config (w_server w) \<and>
    (sv_pooled (w_server w) \<longrightarrow> sv_pooled (w_server w'))"
proof -
  have step: "world_step fs w w'" and acc: "accepted (sv_pool (w_server w')) = accepted (sv_pool (w_server w))"
    using assms serving_step_accepted by (auto simp: world_serving_def)
  note s = world_step_server [OF step]
  from step have "w_arrived w' = w_arrived w"
  proof cases
    case (client i j k fd io now io' s')
    with acc show ?thesis by simp
  qed simp_all
  with server_step_same [OF s] server_step_pooled [OF s] show ?thesis by simp
qed

lemma world_serving_steps:
  assumes "(world_serving fs ^^ k) w w'" "world_reach fs config w"
  shows "(serving_step (nat (num_workers config)) ^^ k) (sv_pool (w_server w)) (sv_pool (w_server w')) \<and>
    world_reach fs config w' \<and> w_arrived w' = w_arrived w \<and> (sv_pooled (w_server w) \<longrightarrow> sv_pooled (w_server w'))"
  using assms(1)
proof (induction k arbitrary: w')
  case 0
  with assms(2) show ?case by simp
next
  case (Suc k)
  then obtain v where v: "(world_serving fs ^^ k) w v" "world_serving fs v w'" by auto
  note IH = Suc.IH [OF v(1)]
  have "world_step fs v w'" using v(2) by (simp add: world_serving_def)
  with IH have r: "world_reach fs config w'" by (auto intro: reach_step)
  have "sv_config (w_server v) = config" using world.reach_inv [of config fs v] IH by simp
  with v(2) have "serving_step (nat (num_workers config)) (sv_pool (w_server v)) (sv_pool (w_server w'))"
    by (simp add: world_serving_def)
  with IH r world_serving_same [OF v(2)] show ?case by auto
qed

section \<open>What the pool can do, the world can do\<close>

lemma spare_object:
  assumes "client_inv s"
  obtains k where "objs (sv_store s) k = None"
proof -
  obtain k where "k \<notin> set_mset (holders s)"
    using ex_new_if_finite [OF infinite_UNIV_nat, of "set_mset (holders s)"] by auto
  then have "count (holders s) k = 0" by (simp add: not_in_iff)
  with client_inv_count [OF assms, of k] that show ?thesis by (cases "objs (sv_store s) k") simp_all
qed

lemma client_running_stream:
  assumes "i < workers s" "pcs (sv_pool s) i = Running t"
  shows "(t, g (sv_conn s i)) \<in># clients s g"
proof -
  have "(\<Sum>j<workers s. attended (pcs (sv_pool s) j) (sv_conn s j) g) = attended (pcs (sv_pool s) i) (sv_conn s i) g +
      (\<Sum>j\<in>{..<workers s} - {i}. attended (pcs (sv_pool s) j) (sv_conn s j) g)"
    using assms(1) by (intro sum.remove) auto
  with assms(2) show ?thesis unfolding clients_def by simp
qed

text \<open>A move that is not the begin or the end of a task.\<close>

lemma world_quiet:
  assumes w: "sv_pooled (w_server w)" and q: "quiet (sv_pool (w_server w)) p" "finished p = finished (sv_pool (w_server w))"
    and step: "serving_step (workers (w_server w)) (sv_pool (w_server w)) p"
  shows "\<exists>w'. world_serving fs w w'"
proof -
  let ?s = "(w_server w)\<lparr>sv_pool := p\<rparr>"
  have "server_step (w_server w) ?s"
    using w q(1) serving_pool_step [OF step] by (intro server_step.pool) simp_all
  then have "world_step fs w (w\<lparr>w_server := ?s\<rparr>)"
    using q by (intro world_step.other) (simp_all add: quiet_def)
  with step show ?thesis by (auto simp: world_serving_def)
qed

text \<open>The handler of a worker's client can end: no time limit is missing, the client has not gone.\<close>

lemma world_serves:
  assumes r: "world_reach fs config w" and w: "sv_pooled (w_server w)"
    and limits: "read_timeout_sec config \<noteq> 0" "write_timeout_sec config \<noteq> 0"
    and pipe: "\<forall>(t, io)\<in>set (w_arrived w). SPipe \<notin> set (outq io)"
    and i: "i < workers (w_server w)" and t: "pcs (sv_pool (w_server w)) i = Running t"
    and p: "worker_step i (sv_pool (w_server w)) = Some p"
  obtains w' where "world_step fs w w'" "sv_pool (w_server w') = p"
proof -
  have inv: "client_inv (w_server w)" "sv_config (w_server w) = config" "world_inv fs w"
    using world.reach_inv [OF r] by simp_all
  have i': "int i < num_workers (sv_config (w_server w))" using i by simp
  let ?fd = "fd_of (sv_conn (w_server w) i) (sv_store (w_server w))"
  obtain e io' where h: "handle_connection fs (\<lambda>_. 0) config (sv_router (w_server w)) ?fd (w_stream w ?fd) = (e, io')"
    by fastforce
  have "(t, w_stream w ?fd) \<in># mset (w_arrived w)"
    using inv(3) client_running_stream [where g = "stream_of (w_stream w) (w_server w)", OF i t]
    by (auto simp: world_inv_def stream_of_def)
  then have "SPipe \<notin> set (outq (w_stream w ?fd))" using pipe by auto
  then have "e = Returned \<or> e = Threw"
    using handle_connection_ends [OF client_conn [OF inv(1) t] h] limits by (cases e) auto
  from world_step.serve [OF w i' t p refl h [folded inv(2)] this] show ?thesis
    by (rule that) (simp add: end_task_def)
qed

lemma world_progress:
  assumes r: "world_reach fs config w" and w: "sv_pooled (w_server w)"
    and limits: "read_timeout_sec config \<noteq> 0" "write_timeout_sec config \<noteq> 0"
    and pipe: "\<forall>(t, io)\<in>set (w_arrived w). SPipe \<notin> set (outq io)"
    and step: "serving_step (nat (num_workers config)) (sv_pool (w_server w)) p"
  shows "\<exists>w'. world_serving fs w w'"
proof -
  have inv: "server_inv (w_server w)" "client_inv (w_server w)" "sv_config (w_server w) = config" "world_inv fs w"
    using world.reach_inv [OF r] by simp_all
  note step' = step [folded inv(3)]
  show ?thesis
    using step'
  proof cases
    case (worker i)
    have i: "int i < num_workers (sv_config (w_server w))" using worker(1) by simp
    show ?thesis
    proof (cases "pcs (sv_pool (w_server w)) i")
      case (Taken t)
      obtain k where k: "objs (sv_store (w_server w)) k = None" using spare_object [OF inv(2)] .
      let ?s = "begin_task i t k p (w_server w)"
      have p: "accepted p = accepted (sv_pool (w_server w))" "finished p = finished (sv_pool (w_server w))"
        using worker(2) Taken by (auto simp: worker_step_def)
      have "world_step fs w (w\<lparr>w_server := ?s\<rparr>)"
        using server_step.begin_task [OF w i Taken worker(2) k] p
        by (intro world_step.other) (simp_all add: begin_task_def)
      with step' show ?thesis
        by (intro exI [of _ "w\<lparr>w_server := ?s\<rparr>"]) (simp add: world_serving_def begin_task_def)
    next
      case (Running t)
      obtain w' where "world_step fs w w'" "sv_pool (w_server w') = p"
        using world_serves [OF r w limits pipe worker(1) Running worker(2)] .
      with step' show ?thesis by (auto simp: world_serving_def)
    qed (use worker(2) in \<open>auto intro!: world_quiet [OF w _ _ step'] simp: quiet_def worker_step_def take_task_def
        split: if_splits list.splits\<close>)
  next
    case (notify_one i)
    then show ?thesis by (intro world_quiet [OF w _ _ step']) (auto simp: quiet_def)
  next
    case notify_none
    then show ?thesis by (intro world_quiet [OF w _ _ step']) (auto simp: quiet_def)
  qed
qed

section \<open>The end of a schedule\<close>

lemma world_reach_pool:
  assumes "world_reach fs config w"
  shows "pool_reach (nat (num_workers config)) (unat (max_queue_size config)) (sv_pool (w_server w))"
  using pooled.reach_abs [OF embedded.reach_abs [OF assms]] .

lemma at_rest_served:
  assumes r: "world_reach fs config w" and w: "sv_pooled (w_server w)" "is_running (sv_pool (w_server w))"
    and n: "0 < num_workers config" and limits: "read_timeout_sec config \<noteq> 0" "write_timeout_sec config \<noteq> 0"
    and pipe: "\<forall>(t, io)\<in>set (w_arrived w). SPipe \<notin> set (outq io)"
    and rest: "\<forall>w'. \<not> world_serving fs w w'"
  shows "mset (map (\<lambda>(t, io, _, _). (t, io)) (w_served w)) = mset (w_arrived w)"
proof -
  let ?p = "sv_pool (w_server w)" and ?n = "nat (num_workers config)"
  have "\<not> serving_step ?n ?p p" for p
    using world_progress [OF r w(1) limits pipe] rest by blast
  with at_rest_done [OF world_reach_pool [OF r], of] w(2) n
  have "tasks ?p = []" "\<forall>i<?n. pcs ?p i = Waiting" by (simp_all add: is_running_def)
  moreover have inv: "world_inv fs w" "sv_config (w_server w) = config" using world.reach_inv [OF r] by simp_all
  ultimately have "clients (w_server w) (stream_of (w_stream w) (w_server w)) = {#}"
    by (simp add: clients_def)
  with inv(1) show ?thesis by (simp add: world_inv_def)
qed

end
