(* ===== verification/Threaded_Service.thy ===== *)
theory Threaded_Service
  imports Server_Conversation
begin

text \<open>
  The contract of a server that runs \<open>handle_connection\<close> in a thread for each of its clients, whichever
  way it comes by the threads, and what a client can rely on because of it.
\<close>

locale threaded_service =
  fixes ok :: "filesystem \<Rightarrow> Config \<Rightarrow> 'w \<Rightarrow> bool"
    and served :: "'w \<Rightarrow> (nat \<times> net_io \<times> (int \<Rightarrow> nat) \<times> net_io) list"
    and router_of :: "'w \<Rightarrow> Router"
  assumes handled: "ok fs config w \<Longrightarrow> (t, io, clock, io') \<in> set (served w) \<Longrightarrow>
    wire io = [] \<and> (\<exists>fd e. fd \<noteq> -1 \<and> handle_connection fs clock config (router_of w) fd io = (e, io'))"
begin

text \<open>What a client has been sent when its thread is done with it.\<close>

lemma protocol:
  assumes "ok fs config w" "(t, io, clock, io') \<in> set (served w)"
  shows "\<exists>rs k. dialogue (route fs (router_of w)) config 0 rs \<and>
    int (length rs) \<le> max 0 (max_requests_per_conn config) \<and> wire io' = take k (transcript clock 0 rs)"
proof -
  obtain fd e where h: "fd \<noteq> -1" "wire io = []" "handle_connection fs clock config (router_of w) fd io = (e, io')"
    using handled [OF assms] by blast
  obtain rs k where "dialogue (route fs (router_of w)) config 0 rs"
    "wire io' = wire io @ take k (transcript clock 0 rs)"
    using handle_connection_says [OF h(1,3)] .
  with h(2) dialogue_length show ?thesis by fastforce
qed

lemma conversation:
  assumes "ok fs config w" "(t, io, clock, io') \<in> set (served w)"
    and "list_all2 delivers msgs css" "inq io = map RBytes (concat css)"
    and "reply = transcript clock 0 (answers (route fs (router_of w)) config
        (take (nat (max_requests_per_conn config)) (map message_request msgs)))"
    and "list_all makes_progress (outq io)" "length reply \<le> rooms (outq io)"
  shows "wire io' = reply"
proof -
  obtain fd e where h: "fd \<noteq> -1" "wire io = []" "handle_connection fs clock config (router_of w) fd io = (e, io')"
    using handled [OF assms(1,2)] by blast
  from handle_connection_conversation [OF h(1) assms(3-7)] h(2,3) show ?thesis by simp
qed

end

end
