(* ===== verification/World_Props.thy ===== *)
theory World_Props
  imports World_Progress Threaded_Service Sample_Client Router_Props
begin

text \<open>
  What the clients of a server with a pool can rely on: each is served once, over its own stream,
  by the protocol; and a world in which one client comes and is served, for the examples.
\<close>

section \<open>A world with one client\<close>

definition one_worker :: Config where
  "one_worker = default_config\<lparr>num_workers := 1\<rparr>"

abbreviation one_server :: server where
  "one_server \<equiv> started_server one_worker (\<lambda>_. default_router one_worker)"

lemma one_worker_fields [simp]: "num_workers one_worker = 1" "max_queue_size one_worker = 256"
  by (simp_all add: one_worker_def default_config_def)

lemma world_worker:
  assumes "world_reach fs one_worker w" "sv_pooled (w_server w)" "worker_step 0 (sv_pool (w_server w)) = Some p"
    and "sv_config (w_server w) = one_worker" "quiet (sv_pool (w_server w)) p"
    "finished p = finished (sv_pool (w_server w))"
  shows "world_reach fs one_worker (w\<lparr>w_server := (w_server w)\<lparr>sv_pool := p\<rparr>\<rparr>)"
proof (rule reach_step [OF assms(1)])
  have "pool_step 1 256 (sv_pool (w_server w)) p" by (rule pool_step.worker [OF _ assms(3)]) simp
  then have "server_step (w_server w) ((w_server w)\<lparr>sv_pool := p\<rparr>)"
    using assms(2,4,5) by (intro server_step.pool) simp_all
  then show "world_step fs w (w\<lparr>w_server := (w_server w)\<lparr>sv_pool := p\<rparr>\<rparr>)"
    using assms(5,6) by (intro world_step.other) (simp_all add: quiet_def)
qed

text \<open>A client has come: its task is number 11, its descriptor 4.\<close>

definition one_arrived :: "net_io \<Rightarrow> pool \<Rightarrow> world" where
  "one_arrived io p = \<lparr>w_server = one_server\<lparr>sv_store := \<lparr>objs = [0 \<mapsto> 3, 11 \<mapsto> 4], open_fds = {4, 3}, bad_closes = 0\<rparr>,
     sv_pool := p\<rparr>, w_stream = (\<lambda>_. io)(4 := io), w_arrived = [(11, io)], w_served = []\<rparr>"

definition one_queued :: pool where
  "one_queued = new_pool\<lparr>tasks := [11], accepted := [11], notifies := 1\<rparr>"

lemma one_client_arrived:
  assumes io: "wire io = []"
  shows "world_reach fs one_worker (one_arrived io one_queued)"
proof -
  define w0 where "w0 = \<lparr>w_server = with_router (\<lambda>_. default_router one_worker) (new_server one_worker),
    w_stream = (\<lambda>_. io), w_arrived = [], w_served = []\<rparr>"
  have "world_reach fs one_worker w0"
    by (rule reach_init) (auto simp: w0_def world_init_def server_init_def)
  moreover have "world_step fs w0 (w0\<lparr>w_server := one_server\<rparr>)"
    using started_step [of one_worker "\<lambda>_. default_router one_worker"]
    by (intro world_step.other) (simp_all add: w0_def, simp_all add: new_server_def)
  ultimately have r: "world_reach fs one_worker (w0\<lparr>w_server := one_server\<rparr>)" by (rule reach_step)
  have "accept_round 0 10 11 12 4 io one_server = Some (Returned, io, one_server\<lparr>sv_pool := one_queued,
      sv_store := \<lparr>objs = [0 \<mapsto> 3, 11 \<mapsto> 4], open_fds = {4, 3}, bad_closes = 0\<rparr>\<rparr>)"
    by (simp add: accept_round_def accept_client_def Let_def listener_accept_def socket_create_def socket_new_def socket_move_new_def
        socket_destroy_def socket_close_def fd_of_def is_valid_def enqueue_def one_queued_def new_pool_def fun_eq_iff)
  moreover have "s\<lparr>sv_pool := p, sv_store := st\<rparr> = s\<lparr>sv_store := st, sv_pool := p\<rparr>" for s :: server and p st
    by (cases s) simp
  ultimately have "accept_round 0 10 11 12 4 io one_server = Some (Returned, io, w_server (one_arrived io one_queued))"
    by (simp add: one_arrived_def)
  then show ?thesis
    using reach_step [OF r world_step.client [of "w0\<lparr>w_server := one_server\<rparr>" 10 11 12 4 io 0 io]] io
    by (simp add: w0_def one_arrived_def one_queued_def new_pool_def)
qed

lemma one_client_served:
  assumes io: "wire io = []"
    and h: "handle_connection fs clock one_worker (default_router one_worker) 4 io = (e, io')" "e = Returned \<or> e = Threw"
  shows "\<exists>w. world_reach fs one_worker w \<and> sv_router (w_server w) = default_router one_worker \<and>
    w_arrived w = [(11, io)] \<and> w_served w = [(11, io, clock, io')]"
proof -
  let ?p2 = "goto 0 Acquire one_queued"
  let ?p3 = "goto 0 In_wait (?p2\<lparr>mutex := Some 0\<rparr>)"
  let ?p4 = "goto 0 Woken ?p3"
  let ?p5 = "goto 0 (Taken 11) (?p4\<lparr>tasks := [], started := [11], mutex := None\<rparr>)"
  let ?p6 = "goto 0 (Running 11) (?p5\<lparr>active_count := 1\<rparr>)"
  let ?p7 = "goto 0 At_loop (?p6\<lparr>active_count := 0, finished := [11]\<rparr>)"
  note defs = one_arrived_def one_queued_def new_pool_def
  let ?w = "one_arrived io"
  have "world_reach fs one_worker (?w one_queued)" using io by (rule one_client_arrived)
  then have "world_reach fs one_worker (?w ?p2)"
    using world_worker [of fs "?w one_queued" ?p2] by (simp add: worker_step_def quiet_def defs)
  then have "world_reach fs one_worker (?w ?p3)"
    using world_worker [of fs "?w ?p2" ?p3] by (simp add: worker_step_def quiet_def defs)
  then have "world_reach fs one_worker (?w ?p4)"
    using world_worker [of fs "?w ?p3" ?p4] by (simp add: worker_step_def wait_predicate_def quiet_def defs)
  then have r5: "world_reach fs one_worker (?w ?p5)"
    using world_worker [of fs "?w ?p4" ?p5] by (simp add: worker_step_def take_task_def quiet_def defs)
  have "server_step (w_server (?w ?p5)) (begin_task 0 11 13 ?p6 (w_server (?w ?p5)))"
    by (rule server_step.begin_task) (simp_all add: worker_step_def defs)
  then have "world_reach fs one_worker (?w ?p5\<lparr>w_server := begin_task 0 11 13 ?p6 (w_server (?w ?p5))\<rparr>)"
    by (intro reach_step [OF r5] world_step.other) (simp_all add: begin_task_def defs)
  moreover define w6 where "w6 = ?w ?p5\<lparr>w_server := begin_task 0 11 13 ?p6 (w_server (?w ?p5))\<rparr>"
  ultimately have r6: "world_reach fs one_worker w6" by simp
  have w6: "sv_pooled (w_server w6)" "sv_config (w_server w6) = one_worker" "sv_pool (w_server w6) = ?p6"
    "sv_router (w_server w6) = default_router one_worker" "w_stream w6 4 = io" "w_served w6 = []" "w_arrived w6 = [(11, io)]"
    "fd_of (sv_conn (w_server w6) 0) (sv_store (w_server w6)) = 4"
    by (simp_all add: w6_def begin_task_def fd_of_def socket_move_new_def one_arrived_def)
  have "world_step fs w6 (w6\<lparr>w_server := end_task 0 11 ?p7 (w_server w6), w_stream := (w_stream w6)(4 := io'),
      w_served := w_served w6 @ [(11, w_stream w6 4, clock, io')]\<rparr>)"
    by (rule world_step.serve [where i = 0 and clock = clock and e = e])
      (use h in \<open>simp_all add: w6, simp_all add: worker_step_def defs\<close>)
  with r6 have "world_reach fs one_worker (w6\<lparr>w_server := end_task 0 11 ?p7 (w_server w6),
      w_stream := (w_stream w6)(4 := io'), w_served := w_served w6 @ [(11, w_stream w6 4, clock, io')]\<rparr>)"
    by (rule reach_step)
  then show ?thesis
    by (rule exI [where x = "w6\<lparr>w_server := end_task 0 11 ?p7 (w_server w6), w_stream := (w_stream w6)(4 := io'),
      w_served := w_served w6 @ [(11, w_stream w6 4, clock, io')]\<rparr>", OF conjI]) (simp_all add: w6 end_task_def)
qed

text \<open>The example client: it asks for \<open>/health\<close>, and the kernel takes the answer byte by byte.\<close>

definition health_reply :: bytes where
  "health_reply = transcript (\<lambda>_. 0) 0 (answers (route sample_fs (default_router one_worker)) one_worker
     [message_request health_message])"

definition health_io :: net_io where
  "health_io = \<lparr>inq = [RBytes (message_bytes health_message)], outq = replicate (length health_reply) (SRoom 1),
     wire = [], rcv_timeo = 0, snd_timeo = 0, nonblock = False\<rparr>"

lemma health_served:
  "\<exists>w io'. world_reach sample_fs one_worker w \<and> sv_router (w_server w) = default_router one_worker \<and>
     w_arrived w = [(11, health_io)] \<and> w_served w = [(11, health_io, (\<lambda>_. 0), io')]"
proof -
  obtain e io' where h: "handle_connection sample_fs (\<lambda>_. 0) one_worker (default_router one_worker) 4 health_io = (e, io')"
    by fastforce
  have "e \<noteq> Waits" "e \<noteq> Died"
    using handle_connection_ends [OF _ h] by (auto simp: one_worker_def default_config_def health_io_def)
  then have "e = Returned \<or> e = Threw" by (cases e) simp_all
  with one_client_served [OF _ h] show ?thesis by (auto simp: health_io_def)
qed

section \<open>Properties\<close>

text \<open>C2. Every client the queue had room for is accounted for, at every moment: it has been served once, over
  the stream it brought, or it waits in the queue, or a worker has it in its hands, and then its stream
  is as it brought it.  Nobody is lost, served twice or served over the stream of another; clients
  arrive in the order in which the pool accepts tasks and are done in the order in which they finish.\<close>

theorem clients_accounted:
  assumes "world_reach fs config w"
  shows "mset (w_arrived w) = mset (map (\<lambda>(t, io, _, _). (t, io)) (w_served w)) +
      clients (w_server w) (stream_of (w_stream w) (w_server w)) \<and>
    map fst (w_arrived w) = accepted (sv_pool (w_server w)) \<and>
    map fst (w_served w) = finished (sv_pool (w_server w))"
  using world.reach_inv [OF assms] by (simp add: world_inv_def)

theorem clients_accounted_witness:
  "\<exists>w io'. world_reach sample_fs one_worker w \<and> w_served w = [(11, health_io, (\<lambda>_. 0), io')] \<and>
     clients (w_server w) (stream_of (w_stream w) (w_server w)) = {#} \<and> [11] = finished (sv_pool (w_server w))"
proof -
  obtain w io' where w: "world_reach sample_fs one_worker w" "w_arrived w = [(11, health_io)]"
    "w_served w = [(11, health_io, (\<lambda>_. 0), io')]"
    using health_served by blast
  note a = clients_accounted [OF w(1)]
  have "clients (w_server w) (stream_of (w_stream w) (w_server w)) = {#}" using conjunct1 [OF a] w(2,3) by simp
  moreover have "[11] = finished (sv_pool (w_server w))" using conjunct2 [OF conjunct2 [OF a]] w(3) by simp
  ultimately show ?thesis using w by blast
qed

interpretation pooled_service: threaded_service "\<lambda>fs config. world_reach fs config" w_served "\<lambda>w. sv_router (w_server w)"
proof unfold_locales
  fix fs config w t io clock io'
  assume r: "world_reach fs config w" and s: "(t, io, clock, io') \<in> set (w_served w)"
  have inv: "world_inv fs w" "sv_config (w_server w) = config" using world.reach_inv [OF r] by simp_all
  from s have "(t, io) \<in># mset (w_arrived w)"
    using inv(1) by (force simp: world_inv_def)
  then have "wire io = []" using inv(1) by (auto simp: world_inv_def)
  moreover have "served_by fs (w_server w) io clock io'" using inv(1) s by (auto simp: world_inv_def)
  ultimately show "wire io = [] \<and> (\<exists>fd e. fd \<noteq> -1 \<and>
      handle_connection fs clock config (sv_router (w_server w)) fd io = (e, io'))"
    using inv(2) by (auto simp: served_by_def)
qed

text \<open>C8. The server keeps to the protocol with every client it serves, whatever the others do, whatever the
  routes, the schedule, the segmentation and the faults of the network: what the client has been
  sent when its task ends is a prefix of a transcript the specification allows.\<close>

theorem server_protocol:
  assumes "world_reach fs config w" "(t, io, clock, io') \<in> set (w_served w)"
  shows "\<exists>rs k. dialogue (route fs (sv_router (w_server w))) config 0 rs \<and>
    int (length rs) \<le> max 0 (max_requests_per_conn config) \<and> wire io' = take k (transcript clock 0 rs)"
  using assms by (rule pooled_service.protocol)

theorem server_protocol_witness:
  "\<exists>w io' rs k. world_reach sample_fs one_worker w \<and> w_served w = [(11, health_io, (\<lambda>_. 0), io')] \<and>
     dialogue (route sample_fs (sv_router (w_server w))) one_worker 0 rs \<and> wire io' = take k (transcript (\<lambda>_. 0) 0 rs)"
proof -
  obtain w io' where w: "world_reach sample_fs one_worker w" "w_served w = [(11, health_io, (\<lambda>_. 0), io')]"
    using health_served by blast
  with server_protocol [OF w(1), of 11 health_io "\<lambda>_. 0" io'] show ?thesis by (metis list.set_intros(1))
qed



text \<open>C3. Nobody waits for ever.  A server with workers and both time limits whose pool runs serves every client
  that has arrived, if no more come: every schedule of its workers is bounded by the work left
  (eight steps per queued task and per notification on its way, seven per worker), and when none of
  them can go on, everyone who has arrived has been served.  Only a client that goes away before it is
  written to (SIGPIPE) can prevent that.\<close>

theorem every_client_served:
  assumes "world_reach fs config w" "sv_pooled (w_server w)" "is_running (sv_pool (w_server w))"
    and "0 < num_workers config" "read_timeout_sec config \<noteq> 0" "write_timeout_sec config \<noteq> 0"
    and "\<forall>(t, io)\<in>set (w_arrived w). SPipe \<notin> set (outq io)"
    and "(world_serving fs ^^ k) w w'"
  shows "k \<le> 8 * (length (tasks (sv_pool (w_server w))) + notifies (sv_pool (w_server w))) + 7 * nat (num_workers config) \<and>
    ((\<forall>w''. \<not> world_serving fs w' w'') \<longrightarrow>
       mset (map (\<lambda>(t, io, _, _). (t, io)) (w_served w')) = mset (w_arrived w))"
proof -
  note w' = world_serving_steps [OF assms(8,1)]
  have "\<not> stop (sv_pool (w_server w))" using assms(3) by (simp add: is_running_def)
  note p' = serving_steps [OF conjunct1 [OF w'] world_reach_pool [OF assms(1)] this]
  have "is_running (sv_pool (w_server w'))" using p' by (simp add: is_running_def)
  then have "mset (map (\<lambda>(t, io, _, _). (t, io)) (w_served w')) = mset (w_arrived w)"
    if "\<forall>w''. \<not> world_serving fs w' w''"
    using at_rest_served [of config fs w'] w' assms(2,4-7) that by simp
  with p' to_do_bound [of "nat (num_workers config)" "sv_pool (w_server w)"] show ?thesis by simp
qed

theorem every_client_served_witness:
  "\<exists>k w'. (world_serving sample_fs ^^ k) (one_arrived health_io one_queued) w' \<and> k \<le> 23 \<and>
     mset (map (\<lambda>(t, io, _, _). (t, io)) (w_served w')) = {#(11, health_io)#}"
proof -
  let ?w = "one_arrived health_io one_queued"
  have r: "world_reach sample_fs one_worker ?w" by (rule one_client_arrived) (simp add: health_io_def)
  have ends: "k \<le> 23 \<and> ((\<forall>w''. \<not> world_serving sample_fs w' w'') \<longrightarrow>
      mset (map (\<lambda>(t, io, _, _). (t, io)) (w_served w')) = {#(11, health_io)#})"
    if "(world_serving sample_fs ^^ k) ?w w'" for k w'
    using every_client_served [OF r _ _ _ _ _ _ that]
    by (simp add: one_arrived_def one_queued_def new_pool_def is_running_def health_io_def one_worker_def default_config_def)
  then obtain k w' where "(world_serving sample_fs ^^ k) ?w w'" "\<forall>w''. \<not> world_serving sample_fs w' w''"
    using schedule_ends [of "world_serving sample_fs" ?w 23] by blast
  with ends show ?thesis by blast
qed

end
