(* ===== verification/Baseline_Props.thy ===== *)
theory Baseline_Props
  imports Baseline_World World_Props
begin

text \<open>
  What the clients of a server without a pool can rely on: each has its thread, which serves it over
  its own stream by the protocol, and the loop, once told to stop, ends when all of them have been
  served.
\<close>

section \<open>The threads left alone\<close>

text \<open>The steps of the threads: neither the loop nor \<open>stop\<close>.\<close>

definition thread_moves :: "filesystem \<Rightarrow> crowd \<Rightarrow> crowd \<Rightarrow> bool" where
  "thread_moves fs c c' =
     (crowd_step fs c c' \<and> cr_arrived c' = cr_arrived c \<and> bl_threads (cr_base c') \<noteq> bl_threads (cr_base c))"

fun thread_work :: "conn_thread \<Rightarrow> nat" where
  "thread_work (Spawned t) = 2"
| "thread_work (Serving t k) = 1"
| "thread_work Done_thread = 0"

definition crowd_work :: "crowd \<Rightarrow> nat" where
  "crowd_work c = sum_list (map thread_work (bl_threads (cr_base c)))"

lemma work_update:
  "j < length ths \<Longrightarrow> thread_work (ths ! j) = Suc (thread_work th) \<Longrightarrow>
     sum_list (map thread_work ths) = Suc (sum_list (map thread_work (ths[j := th])))"
  by (induction ths arbitrary: j) (auto simp: nth_Cons split: nat.splits)

lemma work_bound: "sum_list (map thread_work ths) \<le> 2 * length ths"
proof (induction ths)
  case (Cons th ths)
  then show ?case by (cases th) simp_all
qed simp

lemma thread_moves_same:
  assumes "thread_moves fs c c'"
  shows "crowd_work c = Suc (crowd_work c') \<and> cr_arrived c' = cr_arrived c \<and>
    sv_running (bl_server (cr_base c')) = sv_running (bl_server (cr_base c)) \<and>
    sv_router (bl_server (cr_base c')) = sv_router (bl_server (cr_base c))"
proof -
  have step: "crowd_step fs c c'" and same: "cr_arrived c' = cr_arrived c"
    and moved: "bl_threads (cr_base c') \<noteq> bl_threads (cr_base c)"
    using assms by (simp_all add: thread_moves_def)
  from step show ?thesis
  proof cases
    case (client i t fd io s')
    with same show ?thesis by simp
  next
    case (nobody i t fd s')
    with moved show ?thesis by simp
  next
    case (begins j t k)
    with work_update [of j "bl_threads (cr_base c)" "Serving t k"] show ?thesis
      by (simp add: crowd_work_def thread_begin_def)
  next
    case (serves j t k clock)
    from serves(3) show ?thesis
      by (rule thread_serve_ends)
        (use serves(1,2) work_update [of j "bl_threads (cr_base c)" Done_thread] in
          \<open>simp add: crowd_work_def thread_end_def\<close>)
  next
    case stop
    with moved show ?thesis by (simp add: baseline_stop_def)
  qed
qed

lemma thread_moves_steps:
  assumes "(thread_moves fs ^^ n) c c'" "crowd_reach fs config c"
  shows "crowd_reach fs config c' \<and> crowd_work c = crowd_work c' + n \<and> cr_arrived c' = cr_arrived c \<and>
    sv_running (bl_server (cr_base c')) = sv_running (bl_server (cr_base c)) \<and>
    sv_router (bl_server (cr_base c')) = sv_router (bl_server (cr_base c))"
  using assms(1)
proof (induction n arbitrary: c')
  case 0
  with assms(2) show ?case by simp
next
  case (Suc n)
  then obtain v where v: "(thread_moves fs ^^ n) c v" "thread_moves fs v c'" by auto
  have "crowd_step fs v c'" using v(2) by (simp add: thread_moves_def)
  with Suc.IH [OF v(1)] thread_moves_same [OF v(2)] show ?case by (auto intro: reach_step)
qed

section \<open>Somebody can always go on\<close>

lemma thread_objects_finite: "finite {x. list_ex (\<lambda>th. thread_keeps th x) ths}"
proof (induction ths)
  case (Cons th ths)
  have "{x. list_ex (\<lambda>th. thread_keeps th x) (th # ths)} = {x. thread_keeps th x} \<union> {x. list_ex (\<lambda>th. thread_keeps th x) ths}"
    by auto
  moreover have "finite {x. thread_keeps th x}" by (cases th) (simp_all add: Collect_disj_eq)
  ultimately show ?case using Cons by simp
qed simp

lemma baseline_spare:
  assumes "baseline_inv s"
  obtains k where "objs (sv_store (bl_server s)) k = None"
proof -
  let ?L = "insert (l_socket (sv_listener (bl_server s))) {x. list_ex (\<lambda>th. thread_keeps th x) (bl_threads s)}"
  have "finite ?L" using thread_objects_finite by simp
  then obtain k where "k \<notin> ?L" using ex_new_if_finite [OF infinite_UNIV_nat] by blast
  with assms have "objs (sv_store (bl_server s)) k = None"
    by (cases "objs (sv_store (bl_server s)) k") (auto simp: baseline_inv_def)
  then show ?thesis by (rule that)
qed

text \<open>A thread can go on if its handler can end: with both time limits, a client that stays, and routes that
  do not throw.\<close>

definition friendly :: "filesystem \<Rightarrow> Config \<Rightarrow> crowd \<Rightarrow> bool" where
  "friendly fs config c =
     (read_timeout_sec config \<noteq> 0 \<and> write_timeout_sec config \<noteq> 0 \<and>
      (\<forall>io\<in>set (cr_arrived c). SPipe \<notin> set (outq io)) \<and>
      (\<forall>req. wellformed req \<longrightarrow> route fs (sv_router (bl_server (cr_base c))) req \<noteq> None))"

lemma crowd_progress:
  assumes r: "crowd_reach fs config c" and kind: "friendly fs config c"
    and j: "j < length (bl_threads (cr_base c))" "bl_threads (cr_base c) ! j \<noteq> Done_thread"
  shows "\<exists>c'. thread_moves fs c c'"
proof -
  have inv: "baseline_inv (cr_base c)" "sv_config (bl_server (cr_base c)) = config" "crowd_inv fs c"
    using crowd.base.reach_inv [OF r] crowd.reach_inv2 [OF r] by simp_all
  have ok: "base_ok (cr_base c)" and un: "untouched (bl_threads (cr_base c)) (sv_store (bl_server (cr_base c))) (cr_stream c) (cr_arrived c)"
    using inv(3) by (simp_all add: crowd_inv_def)
  have other: "(bl_threads (cr_base c))[j := th] \<noteq> bl_threads (cr_base c)" if "th \<noteq> bl_threads (cr_base c) ! j" for th
    using j(1) that by (metis nth_list_update_eq)
  show ?thesis
  proof (cases "bl_threads (cr_base c) ! j")
    case (Spawned t)
    obtain k where "objs (sv_store (bl_server (cr_base c))) k = None" using baseline_spare [OF inv(1)] .
    from crowd_step.begins [OF j(1) Spawned this] other [of "Serving t k"] Spawned show ?thesis
      unfolding thread_moves_def by (intro exI conjI) (assumption, simp_all add: thread_begin_def)
  next
    case (Serving t k)
    let ?fd = "fd_of k (sv_store (bl_server (cr_base c)))"
    obtain e io' where h: "handle_connection fs (\<lambda>_. 0) config (sv_router (bl_server (cr_base c))) ?fd (cr_stream c ?fd) = (e, io')"
      by fastforce
    have fd: "?fd \<noteq> -1" using threads_okD(4) [OF ok j(1), of k] Serving by simp
    have "cr_stream c ?fd \<in> set (cr_arrived c)" using un j(1) Serving by (simp add: untouched_def)
    then have "SPipe \<notin> set (outq (cr_stream c ?fd))" using kind by (simp add: friendly_def)
    with handle_connection_ends [OF fd h] kind have "e = Returned" by (cases e) (auto simp: friendly_def)
    then have "thread_serve fs (\<lambda>_. 0) j t k c = Thread_ends (c\<lparr>cr_base := thread_end j t k (cr_base c),
        cr_stream := (cr_stream c)(?fd := io'), cr_served := cr_served c @ [(j, cr_stream c ?fd, (\<lambda>_. 0), io')]\<rparr>)"
      using h inv(2) by (simp add: thread_serve_def Let_def)
    from crowd_step.serves [OF j(1) Serving this] other [of Done_thread] Serving show ?thesis
      unfolding thread_moves_def by (intro exI conjI) (assumption, simp_all add: thread_end_def)
  qed (use j(2) in simp)
qed

lemma crowd_at_rest:
  assumes "crowd_reach fs config c" "friendly fs config c" "\<forall>c'. \<not> thread_moves fs c c'"
  shows "list_all (\<lambda>t. t = Done_thread) (bl_threads (cr_base c))"
  using crowd_progress [OF assms(1,2)] assms(3) by (auto simp: list_all_length)

lemma everyone_served:
  assumes "crowd_reach fs config c" "list_all (\<lambda>t. t = Done_thread) (bl_threads (cr_base c))"
  shows "mset (map fst (cr_served c)) = mset [0..<length (cr_arrived c)]"
proof -
  have "crowd_inv fs c" using crowd.reach_inv2 [OF assms(1)] .
  then have "distinct (map fst (cr_served c))" "set (map fst (cr_served c)) = set [0..<length (cr_arrived c)]"
    using assms(2) by (auto simp: crowd_inv_def untouched_def list_all_length)
  then show ?thesis using set_eq_iff_mset_eq_distinct distinct_upt by blast
qed

section \<open>A crowd of one\<close>

abbreviation alone_server :: server where
  "alone_server \<equiv> started_server no_workers (\<lambda>_. default_router no_workers)"

text \<open>A client has come: its thread is number 0, its descriptor 4.\<close>

definition one_guest :: "net_io \<Rightarrow> crowd" where
  "one_guest io = \<lparr>cr_base = \<lparr>bl_server = alone_server\<lparr>sv_store := \<lparr>objs = [0 \<mapsto> 3, 11 \<mapsto> 4], open_fds = {4, 3}, bad_closes = 0\<rparr>\<rparr>,
     bl_threads = [Spawned 11]\<rparr>, cr_stream = (\<lambda>_. io)(4 := io), cr_arrived = [io], cr_served = []\<rparr>"

lemma one_guest_arrived:
  assumes "wire io = []"
  shows "crowd_reach fs no_workers (one_guest io)"
proof -
  define c where "c = \<lparr>cr_base = \<lparr>bl_server = alone_server, bl_threads = []\<rparr>,
    cr_stream = (\<lambda>_. io), cr_arrived = [], cr_served = []\<rparr>"
  have n: "num_workers no_workers \<le> 0" by (simp add: no_workers_def)
  note st = baseline_started [OF n, of "\<lambda>_. default_router no_workers"]
  have r: "crowd_reach fs no_workers c"
    using st(1) by (intro reach_init) (simp add: crowd_init_def c_def)
  have "baseline_round 10 11 4 True (cr_base c) = Some (cr_base (one_guest io))"
    by (simp add: baseline_round_def Let_def c_def one_guest_def listener_accept_def socket_create_def socket_new_def
        socket_move_new_def socket_destroy_def socket_close_def fd_of_def is_valid_def with_store_def fun_eq_iff)
  from reach_step [OF r crowd_step.client [of c 10 11 4 io, OF _ _ _ _ _ _ assms this]] show ?thesis
    by (simp add: c_def one_guest_def)
qed

lemma one_guest_friendly: "SPipe \<notin> set (outq io) \<Longrightarrow> friendly sample_fs no_workers (one_guest io)"
  using route_total [of sample_fs]
  by (simp add: friendly_def one_guest_def no_workers_def default_config_def sample_fs_def)

lemma one_guest_served:
  assumes "wire io = []" "SPipe \<notin> set (outq io)"
  shows "\<exists>c io'. crowd_reach sample_fs no_workers c \<and> sv_router (bl_server (cr_base c)) = default_router no_workers \<and>
    cr_arrived c = [io] \<and> cr_served c = [(0, io, (\<lambda>_. 0), io')]"
proof -
  let ?c = "one_guest io"
  define c where "c = ?c\<lparr>cr_base := thread_begin 0 11 12 (cr_base ?c)\<rparr>"
  have "crowd_step sample_fs ?c c"
    unfolding c_def by (rule crowd_step.begins) (simp_all add: one_guest_def)
  then have r: "crowd_reach sample_fs no_workers c" using reach_step [OF one_guest_arrived [OF assms(1)]] by blast
  have c: "bl_threads (cr_base c) = [Serving 11 12]" "fd_of 12 (sv_store (bl_server (cr_base c))) = 4"
    "sv_config (bl_server (cr_base c)) = no_workers" "sv_router (bl_server (cr_base c)) = default_router no_workers"
    "cr_stream c 4 = io" "cr_arrived c = [io]" "cr_served c = []"
    by (simp_all add: c_def thread_begin_def one_guest_def fd_of_def)
  obtain e io' where h: "handle_connection sample_fs (\<lambda>_. 0) no_workers (default_router no_workers) 4 io = (e, io')"
    by fastforce
  have fd: "(4 :: int) \<noteq> -1" by simp
  note ends = handle_connection_ends [OF fd h]
  have "route sample_fs (default_router no_workers) req \<noteq> None" for req
    by (rule route_total) (simp add: sample_fs_def)
  then have "e \<noteq> Threw" using ends(3) by blast
  moreover have "read_timeout_sec no_workers \<noteq> 0" "write_timeout_sec no_workers \<noteq> 0"
    by (simp_all add: no_workers_def default_config_def)
  ultimately have "e = Returned"
    using ends(1,2) assms(2) by (cases e) auto
  then have serve: "thread_serve sample_fs (\<lambda>_. 0) 0 11 12 c = Thread_ends (c\<lparr>cr_base := thread_end 0 11 12 (cr_base c),
      cr_stream := (cr_stream c)(4 := io'), cr_served := [(0, io, (\<lambda>_. 0), io')]\<rparr>)"
    using h by (simp add: thread_serve_def Let_def c)
  have "crowd_step sample_fs c (c\<lparr>cr_base := thread_end 0 11 12 (cr_base c),
      cr_stream := (cr_stream c)(4 := io'), cr_served := [(0, io, (\<lambda>_. 0), io')]\<rparr>)"
    by (rule crowd_step.serves [OF _ _ serve]) (simp_all add: c)
  from reach_step [OF r this] show ?thesis
    by (intro exI conjI) (assumption, simp_all add: c thread_end_def)
qed

section \<open>Properties\<close>

interpretation baseline_service: threaded_service "\<lambda>fs config. crowd_reach fs config" cr_served
    "\<lambda>c. sv_router (bl_server (cr_base c))"
proof unfold_locales
  fix fs config c j io clock io'
  assume r: "crowd_reach fs config c" and s: "(j, io, clock, io') \<in> set (cr_served c)"
  have inv: "crowd_inv fs c" and cfg: "sv_config (bl_server (cr_base c)) = config"
    using crowd.reach_inv2 [OF r] crowd.base.reach_inv [OF r] by simp_all
  have io: "io = cr_arrived c ! j" "conducted fs (bl_server (cr_base c)) io clock io'"
    using inv s by (auto simp: crowd_inv_def)
  have "j \<in> set (map fst (cr_served c))" using s by force
  with inv have "wire io = []" by (simp add: crowd_inv_def untouched_def io(1))
  with io(2) cfg show "wire io = [] \<and> (\<exists>fd e. fd \<noteq> -1 \<and>
      handle_connection fs clock config (sv_router (bl_server (cr_base c))) fd io = (e, io'))"
    by (auto simp: conducted_def)
qed

text \<open>C9. One thread, one client, one stream.  At every moment each client that has come has a thread of its
  own, and those whose thread has ended have been served, once, over the stream they brought and by
  the protocol: what such a client has been sent is a prefix of a transcript the specification
  allows.  When the loop returns that is everyone.\<close>

theorem baseline_serves_each:
  assumes "crowd_reach fs config c"
  shows "length (cr_arrived c) = length (bl_threads (cr_base c)) \<and>
    distinct (map fst (cr_served c)) \<and>
    (\<forall>j. j \<in> set (map fst (cr_served c)) \<longleftrightarrow> j < length (cr_arrived c) \<and> bl_threads (cr_base c) ! j = Done_thread) \<and>
    (\<forall>(j, io, clock, io')\<in>set (cr_served c). io = cr_arrived c ! j \<and>
       (\<exists>rs k. dialogue (route fs (sv_router (bl_server (cr_base c)))) config 0 rs \<and>
          int (length rs) \<le> max 0 (max_requests_per_conn config) \<and> wire io' = take k (transcript clock 0 rs))) \<and>
    (\<forall>sv. baseline_return (cr_base c) = Some sv \<longrightarrow> mset (map fst (cr_served c)) = mset [0..<length (cr_arrived c)])"
proof -
  have inv: "crowd_inv fs c" using crowd.reach_inv2 [OF assms] .
  have len: "length (cr_arrived c) = length (bl_threads (cr_base c))" using inv by (simp add: crowd_inv_def untouched_def)
  have "io = cr_arrived c ! j \<and> (\<exists>rs k. dialogue (route fs (sv_router (bl_server (cr_base c)))) config 0 rs \<and>
      int (length rs) \<le> max 0 (max_requests_per_conn config) \<and> wire io' = take k (transcript clock 0 rs))"
    if s: "(j, io, clock, io') \<in> set (cr_served c)" for j io clock io'
    using baseline_service.protocol [OF assms s] inv s by (auto simp: crowd_inv_def)
  moreover have "mset (map fst (cr_served c)) = mset [0..<length (cr_arrived c)]"
    if "baseline_return (cr_base c) = Some sv" for sv
    using everyone_served [OF assms] that by (auto simp: baseline_return_def split: if_splits)
  moreover have "distinct (map fst (cr_served c))" "j \<in> set (map fst (cr_served c)) \<longleftrightarrow>
      j < length (cr_arrived c) \<and> bl_threads (cr_base c) ! j = Done_thread" for j
    using inv len by (simp_all add: crowd_inv_def)
  ultimately show ?thesis using len by blast
qed

theorem baseline_serves_each_witness:
  "\<exists>rs k io'. dialogue (route sample_fs (default_router no_workers)) no_workers 0 rs \<and>
     wire io' = take k (transcript (\<lambda>_. 0) 0 rs) \<and>
     (\<exists>c. crowd_reach sample_fs no_workers c \<and> cr_served c = [(0, health_io, (\<lambda>_. 0), io')])"
proof -
  obtain c io' where c: "crowd_reach sample_fs no_workers c" "sv_router (bl_server (cr_base c)) = default_router no_workers"
    "cr_served c = [(0, health_io, (\<lambda>_. 0), io')]"
    using one_guest_served [of health_io] by (auto simp: health_io_def)
  from baseline_serves_each [OF c(1)] c(2,3) obtain rs k where
    "dialogue (route sample_fs (default_router no_workers)) no_workers 0 rs" "wire io' = take k (transcript (\<lambda>_. 0) 0 rs)"
    by auto
  with c show ?thesis by blast
qed

text \<open>A client that sends well-formed requests, in segments as in \<open>fair_chunks\<close>, and reads what it is sent
  gets exactly the application's responses, whatever the other threads do.\<close>

theorem baseline_conversation:
  assumes "crowd_reach fs config c" "(j, io, clock, io') \<in> set (cr_served c)"
    and "list_all2 delivers msgs css" "inq io = map RBytes (concat css)"
    and "reply = transcript clock 0 (answers (route fs (sv_router (bl_server (cr_base c)))) config
        (take (nat (max_requests_per_conn config)) (map message_request msgs)))"
    and "list_all makes_progress (outq io)" "length reply \<le> rooms (outq io)"
  shows "wire io' = reply"
  using assms by (rule baseline_service.conversation)

theorem baseline_conversation_witness:
  "\<exists>c io'. crowd_reach sample_fs no_workers c \<and> (\<exists>io. cr_served c = [(0, io, (\<lambda>_. 0), io')]) \<and> wire io' = transcript (\<lambda>_. 0) 0 (answers (route sample_fs (default_router no_workers)) no_workers
       [message_request health_message])"
proof -
  define reply where "reply = transcript (\<lambda>_. 0) 0 (answers (route sample_fs (default_router no_workers)) no_workers
    [message_request health_message])"
  define io where "io = \<lparr>inq = [RBytes (message_bytes health_message)], outq = replicate (length reply) (SRoom 1),
    wire = [], rcv_timeo = 0, snd_timeo = 0, nonblock = False\<rparr>"
  obtain c io' where c: "crowd_reach sample_fs no_workers c" "sv_router (bl_server (cr_base c)) = default_router no_workers"
    "cr_served c = [(0, io, (\<lambda>_. 0), io')]"
    using one_guest_served [of io] by (auto simp: io_def)
  have "wire io' = reply"
    by (rule baseline_conversation [OF c(1), of 0 io "\<lambda>_. 0" io' "[health_message]" "[[message_bytes health_message]]"])
      (use health_delivers in \<open>simp_all add: c(2,3) io_def reply_def no_workers_def default_config_def
        list_all_iff makes_progress_def rooms_def\<close>)
  with c show ?thesis unfolding reply_def by blast
qed

text \<open>C4. The loop comes to its end, in friendly circumstances: both time limits are set, no client is gone
  before it is written to (SIGPIPE), and no route throws (an exception ends the process, see
  \<open>baseline_exception_fatal\<close>).  Then the threads take at most two steps each, in whatever order, and when
  none can go on every client has been served; if the server has been told to stop, the loop then
  returns.\<close>

theorem baseline_loop_ends:
  assumes "crowd_reach fs config c" "friendly fs config c" "(thread_moves fs ^^ n) c c'"
  shows "n \<le> 2 * length (cr_arrived c) \<and>
    ((\<forall>c''. \<not> thread_moves fs c' c'') \<longrightarrow>
       mset (map fst (cr_served c')) = mset [0..<length (cr_arrived c)] \<and>
       (\<not> sv_running (bl_server (cr_base c)) \<longrightarrow> baseline_return (cr_base c') = Some (bl_server (cr_base c'))))"
proof -
  note c' = thread_moves_steps [OF assms(3,1)]
  have "length (bl_threads (cr_base c)) = length (cr_arrived c)"
    using crowd.reach_inv2 [OF assms(1)] by (simp add: crowd_inv_def untouched_def)
  then have "n \<le> 2 * length (cr_arrived c)"
    using c' work_bound [of "bl_threads (cr_base c)"] by (simp add: crowd_work_def)
  moreover have "friendly fs config c'" using assms(2) c' by (simp add: friendly_def)
  ultimately show ?thesis
    using crowd_at_rest [of config fs c'] everyone_served [of config fs c'] c' by (simp add: baseline_return_def)
qed

theorem baseline_loop_ends_witness:
  "\<exists>n c'. (thread_moves sample_fs ^^ n) (one_guest health_io) c' \<and> n \<le> 2 \<and> mset (map fst (cr_served c')) = {#0#}"
proof -
  have r: "crowd_reach sample_fs no_workers (one_guest health_io)" by (rule one_guest_arrived) (simp add: health_io_def)
  have kind: "friendly sample_fs no_workers (one_guest health_io)" by (rule one_guest_friendly) (simp add: health_io_def)
  have ends: "n \<le> 2 \<and> ((\<forall>c''. \<not> thread_moves sample_fs c' c'') \<longrightarrow> mset (map fst (cr_served c')) = {#0#})"
    if "(thread_moves sample_fs ^^ n) (one_guest health_io) c'" for n c'
    using baseline_loop_ends [OF r kind that] by (simp add: one_guest_def)
  then obtain n c' where "(thread_moves sample_fs ^^ n) (one_guest health_io) c'" "\<forall>c''. \<not> thread_moves sample_fs c' c''"
    using schedule_ends [of "thread_moves sample_fs" "one_guest health_io" 2] by blast
  with ends show ?thesis by blast
qed

text \<open>An exception that leaves the handler ends the process: a well-formed request is enough, if the
  application throws at it.  The pool of the other server catches it (\<open>worker_loop\<close>), and there the
  task just ends.\<close>

theorem baseline_exception_fatal:
  assumes "fd_of k (sv_store (bl_server (cr_base c))) = fd" "fd \<noteq> -1"
    and "0 < max_requests_per_conn (sv_config (bl_server (cr_base c)))"
    and "sendable m t hs b" "inq (cr_stream c fd) = RBytes (render_request m t hs b) # es"
    and "length (render_request m t hs b) \<le> BUF_SIZE"
    and "route fs (sv_router (bl_server (cr_base c))) (sent_request m t hs b) = None"
  shows "thread_serve fs clock j th k c = Process_ends"
proof -
  let ?s = "bl_server (cr_base c)"
  let ?c = "new_connection fd"
  obtain io1 where h: "handle_connection fs clock (sv_config ?s) (sv_router ?s) fd (cr_stream c fd) =
      connection_loop fs clock (sv_config ?s) (sv_router ?s) ?c initial_parser 0 io1"
    and io1: "inq io1 = inq (cr_stream c fd)"
    using handle_connection_loop [OF assms(2)] by blast
  obtain q where q: "feed (render_request m t hs b) initial_parser = (R_COMPLETE, q)" "p_request q = sent_request m t hs b"
    using feed_printed [OF assms(4), of "[]"] by auto
  have "render_request m t hs b \<noteq> []" by (simp add: render_request_def)
  with read_request_once [OF _ _ _ assms(6) q(1), of ?c io1 es] assms(2,5) io1
  have "read_request ?c initial_parser io1 = (Request_complete, q, io1\<lparr>inq := es\<rparr>)" by simp
  from connection_loop_throw [OF assms(3) this, of fs "sv_router ?s"] assms(7) q(2) h
  show ?thesis by (simp add: thread_serve_def Let_def assms(1))
qed

theorem baseline_exception_fatal_witness:
  "\<exists>fs io. thread_serve fs (\<lambda>_. 0) 0 11 12 ((one_guest io)\<lparr>cr_base := thread_begin 0 11 12 (cr_base (one_guest io))\<rparr>) = Process_ends"
proof -
  define fs where "fs = \<lparr>fs_canonical = (\<lambda>_. Some ''/srv''), fs_is_regular = (\<lambda>_. None), fs_read = (\<lambda>_. None)\<rparr>"
  define io where "io = \<lparr>inq = [RBytes (render_request ''GET'' ''/static/a'' [] [])], outq = [], wire = [],
    rcv_timeo = 0, snd_timeo = 0, nonblock = False\<rparr>"
  have ok: "sendable ''GET'' ''/static/a'' [] []"
    by (simp add: sendable_def sendable_line_def sendable_fields_def allowed_methods_def
        limits valid_body_def sent_request_def stored_headers_def content_length_def header_def
        umap_find_def render_fields_def)
  have throws: "route fs (default_router no_workers) (sent_request ''GET'' ''/static/a'' [] []) = None"
    by (simp add: route_def default_router_def setup_routes_def new_router_def add_route_def add_static_def
        sent_request_def serve_static_file_def request_rel_path_def is_path_safe_def find_char_None fs_def)
  have len: "length (render_request ''GET'' ''/static/a'' [] []) \<le> BUF_SIZE" by code_simp
  have "thread_serve fs (\<lambda>_. 0) 0 11 12 ((one_guest io)\<lparr>cr_base := thread_begin 0 11 12 (cr_base (one_guest io))\<rparr>) = Process_ends"
    by (rule baseline_exception_fatal [OF refl _ _ ok _ len])
      (use throws in \<open>simp_all add: one_guest_def thread_begin_def fd_of_def io_def no_workers_def default_config_def\<close>)
  then show ?thesis by blast
qed

end
