(* ===== verification/Server_Refusal.thy ===== *)
theory Server_Refusal
  imports Server_Clients
begin

text \<open>
  The accept loop while it refuses a client.  With its 503 on the way the main thread holds one more
  socket than between two rounds, for as long as the client likes, since nobody has given that socket
  a time limit; the workers go on meanwhile, and the server may be stopped.  A round taken apart in
  this way is, when it ends, the round that \<open>accept_round\<close> does at once.
\<close>

section \<open>State and steps\<close>

text \<open>The objects \<open>client\<close>, \<open>*shared_sock\<close> and the socket of \<open>conn\<close> of a refusal that is under way.\<close>

record accepting =
  ac_server :: server
  ac_refusing :: "(nat \<times> nat \<times> nat) option"

text \<open>What the other threads and a stop do; \<open>finish\<close> is a write that has returned, with whatever result,
  and a write that blocks for ever has no step.\<close>

inductive others_step :: "server \<Rightarrow> server \<Rightarrow> bool" where
  begin_task: "sv_pooled s \<Longrightarrow> int i < num_workers (sv_config s) \<Longrightarrow> pcs (sv_pool s) i = Taken t \<Longrightarrow>
     worker_step i (sv_pool s) = Some p \<Longrightarrow> objs (sv_store s) k = None \<Longrightarrow>
     others_step s (begin_task i t k p s)"
| end_task: "sv_pooled s \<Longrightarrow> int i < num_workers (sv_config s) \<Longrightarrow> pcs (sv_pool s) i = Running t \<Longrightarrow>
     worker_step i (sv_pool s) = Some p \<Longrightarrow> others_step s (end_task i t p s)"
| pool: "sv_pooled s \<Longrightarrow> pool_step (nat (num_workers (sv_config s))) (unat (max_queue_size (sv_config s))) (sv_pool s) p \<Longrightarrow>
     quiet (sv_pool s) p \<Longrightarrow> others_step s (s\<lparr>sv_pool := p\<rparr>)"
| stop: "others_step s (server_stop s)"

inductive accepting_step :: "accepting \<Rightarrow> accepting \<Rightarrow> bool" where
  start: "ac_refusing b = None \<Longrightarrow> \<not> sv_pooled (ac_server b) \<Longrightarrow> objs (sv_store (ac_server b)) tmp = None \<Longrightarrow>
     r_socket res = -1 \<or> 0 \<le> r_socket res \<and> r_socket res \<notin> open_fds (sv_store (ac_server b)) \<Longrightarrow>
     server_start tmp res (ac_server b) = (Pool_mode, s') \<Longrightarrow> accepting_step b (b\<lparr>ac_server := s'\<rparr>)"
| accept: "ac_refusing b = None \<Longrightarrow> sv_running (ac_server b) \<Longrightarrow> sv_pooled (ac_server b) \<Longrightarrow>
     objs (sv_store (ac_server b)) i = None \<Longrightarrow> objs (sv_store (ac_server b)) j = None \<Longrightarrow>
     objs (sv_store (ac_server b)) k = None \<Longrightarrow> distinct [i, j, k] \<Longrightarrow>
     fd = -1 \<or> 0 \<le> fd \<and> fd \<notin> open_fds (sv_store (ac_server b)) \<Longrightarrow>
     accept_client i j k fd (ac_server b) = Some (a, s') \<Longrightarrow>
     accepting_step b (b\<lparr>ac_server := s', ac_refusing := if a = Refusing then Some (i, j, k) else None\<rparr>)"
| finish: "ac_refusing b = Some (i, j, k) \<Longrightarrow>
     write_all (new_connection (fd_of k (sv_store (ac_server b)))) (serialize now overload_response) io = (Returns r, io') \<Longrightarrow>
     accepting_step b (b\<lparr>ac_server := refusal_end i j k (ac_server b), ac_refusing := None\<rparr>)"
| others: "others_step (ac_server b) s' \<Longrightarrow> accepting_step b (b\<lparr>ac_server := s'\<rparr>)"

inductive_cases accepting_stepE: "accepting_step b b'"

definition accepting_init :: "Config \<Rightarrow> accepting \<Rightarrow> bool" where
  "accepting_init config b = (server_init config (ac_server b) \<and> ac_refusing b = None)"

abbreviation accepting_reach :: "Config \<Rightarrow> accepting \<Rightarrow> bool" where
  "accepting_reach config \<equiv> reach (accepting_init config) accepting_step"

section \<open>The round as one step\<close>

text \<open>The server as it will be when the refusal under way has ended.\<close>

definition settled :: "accepting \<Rightarrow> server" where
  "settled b =
     (case ac_refusing b of None \<Rightarrow> ac_server b | Some (i, j, k) \<Rightarrow> refusal_end i j k (ac_server b))"

text \<open>Operations on different objects commute.\<close>

lemma close_commutes:
  "sys_close f (sys_close g w) = sys_close g (sys_close f w)"
  by (rule store.equality) (auto simp: sys_close_def)

lemma sys_close_objs: "sys_close f (w\<lparr>objs := x\<rparr>) = (sys_close f w)\<lparr>objs := x\<rparr>"
  by (simp add: sys_close_def)

lemma fd_of_upd: "i \<noteq> j \<Longrightarrow> fd_of i (v\<lparr>objs := (objs w)(j := x)\<rparr>) = fd_of i w"
  by (simp add: fd_of_def)

lemma fd_of_sys_close [simp]: "fd_of i (sys_close f w) = fd_of i w"
  by (simp add: fd_of_def sys_close_def)

lemma objs_sys_close [simp]: "objs (sys_close f w) = objs w"
  by (simp add: sys_close_def)

lemma socket_destroy_alt:
  "socket_destroy i w = (if fd_of i w = -1 then w else sys_close (fd_of i w) w)\<lparr>objs := (objs w)(i := None)\<rparr>"
  by (simp add: socket_destroy_def socket_close_def Let_def is_valid_def)

lemma socket_destroy_commutes:
  assumes "i \<noteq> j"
  shows "socket_destroy i (socket_destroy j w) = socket_destroy j (socket_destroy i w)"
  using assms close_commutes [of "fd_of i w" "fd_of j w" w]
  by (simp add: socket_destroy_alt fd_of_upd sys_close_objs fun_upd_twist)

lemma socket_close_commutes:
  assumes "i \<noteq> j"
  shows "socket_destroy i (socket_close j w) = socket_close j (socket_destroy i w)"
  using assms close_commutes [of "fd_of i w" "fd_of j w" w]
  by (simp add: socket_destroy_alt socket_close_def is_valid_def fd_of_upd sys_close_objs fun_upd_twist)

lemma socket_move_commutes:
  assumes "i \<noteq> k" "i \<noteq> t"
  shows "socket_destroy i (socket_move_new k t w) = socket_move_new k t (socket_destroy i w)"
  using assms
  by (simp add: socket_destroy_alt socket_move_new_def fd_of_def sys_close_objs fun_upd_twist)

lemma refusal_commutes:
  assumes "x \<noteq> i" "x \<noteq> j" "x \<noteq> k"
  shows "socket_destroy i (socket_destroy j (socket_destroy k (socket_destroy x w))) =
      socket_destroy x (socket_destroy i (socket_destroy j (socket_destroy k w)))"
    "socket_destroy i (socket_destroy j (socket_destroy k (socket_close x w))) =
      socket_close x (socket_destroy i (socket_destroy j (socket_destroy k w)))"
    "y \<noteq> i \<Longrightarrow> y \<noteq> j \<Longrightarrow> y \<noteq> k \<Longrightarrow>
      socket_destroy i (socket_destroy j (socket_destroy k (socket_move_new y x w))) =
      socket_move_new y x (socket_destroy i (socket_destroy j (socket_destroy k w)))"
  using assms socket_destroy_commutes [of _ x] by (simp_all add: socket_close_commutes socket_move_commutes)

text \<open>A step of the others, with the refusal under way or already over.\<close>

lemma others_server: "others_step s s' \<Longrightarrow> server_step s s'"
  by (induction rule: others_step.induct) (auto intro: server_step.intros)

lemma refusal_end_fields [simp]:
  "sv_config (refusal_end i j k s) = sv_config s" "sv_listener (refusal_end i j k s) = sv_listener s"
  "sv_pooled (refusal_end i j k s) = sv_pooled s" "sv_pool (refusal_end i j k s) = sv_pool s"
  "sv_running (refusal_end i j k s) = sv_running s" "sv_conn (refusal_end i j k s) = sv_conn s"
  "sv_router (refusal_end i j k s) = sv_router s"
  "sv_store (refusal_end i j k s) = socket_destroy i (socket_destroy j (socket_destroy k (sv_store s)))"
  "owned (refusal_end i j k s) = owned s"
  by (simp_all add: refusal_end_def owned_def fun_eq_iff)

definition stranger :: "nat \<Rightarrow> server \<Rightarrow> bool" where
  "stranger x s = (objs (sv_store s) x \<noteq> None \<and> \<not> owned s x)"

lemma keeps_iff: "keeps c conn x \<longleftrightarrow> c = Taken x \<or> (\<exists>t. c = Running t \<and> (x = t \<or> x = conn))"
  by (cases c) auto

lemma owned_quiet:
  assumes q: "quiet (sv_pool s) p" and step: "pool_step n m (sv_pool s) p"
    and x: "owned (s\<lparr>sv_pool := p\<rparr>) x"
  shows "owned s x"
  using step q
proof (cases rule: quiet_stepE)
  case still
  have "keeps (pcs p i) c x = keeps (pcs (sv_pool s) i) c x" for i c
    by (simp add: keeps_iff still(2,3))
  with x still(1) show ?thesis by (simp add: owned_def)
next
  case (pop i t)
  then have "keeps (pcs p j) c x \<Longrightarrow> keeps (pcs (sv_pool s) j) c x \<or> x = t" for j c
    by (cases "j = i") auto
  with x pop show ?thesis by (auto simp: owned_def)
qed

text \<open>What the others touch is theirs, or new.\<close>

lemma others_strangers:
  assumes step: "others_step s s'" and x: "stranger x s"
  shows "stranger x s' \<and> objs (sv_store s') x = objs (sv_store s) x"
  using step
proof cases
  case (begin_task w t p l)
  have p: "tasks p = tasks (sv_pool s)" "pcs p = (pcs (sv_pool s))(w := Running t)"
    using begin_task(4,5) by (auto simp: worker_step_def)
  have t: "owned s t" using begin_task(4) by (auto simp: owned_def intro: exI [of _ w])
  have "x \<noteq> t" "x \<noteq> l" using x t begin_task(6) by (auto simp: stranger_def)
  moreover have "owned s x" if "owned s' x" "x \<noteq> l"
    by (rule owned_other [OF that(1), of w])
      (use that \<open>x \<noteq> t\<close> in \<open>auto simp: begin_task(1) begin_task_def p\<close>)
  ultimately show ?thesis using x by (auto simp: stranger_def begin_task(1) begin_task_def)
next
  case (end_task w t p)
  have p: "tasks p = tasks (sv_pool s)" "pcs p = (pcs (sv_pool s))(w := At_loop)"
    using end_task(4,5) by (auto simp: worker_step_def)
  have "owned s t" "owned s (sv_conn s w)" using end_task(4) by (auto simp: owned_def intro: exI [of _ w])
  then have "x \<noteq> t" "x \<noteq> sv_conn s w" using x by (auto simp: stranger_def)
  moreover have "owned s x" if "owned s' x"
    by (rule owned_other [OF that, of w]) (auto simp: end_task(1) end_task_def p)
  ultimately show ?thesis using x by (auto simp: stranger_def end_task(1) end_task_def)
next
  case (pool p)
  from x owned_quiet [OF pool(4,3)] show ?thesis by (auto simp: stranger_def pool(1))
next
  case stop
  have "x \<noteq> l_socket (sv_listener s)" using x by (auto simp: stranger_def owned_def)
  moreover have "owned (server_stop s) x = owned s x" by (simp add: owned_def shutdown_exchange_def)
  ultimately show ?thesis
    using x by (simp add: stranger_def stop listener_stop_def socket_close_other)
qed

lemma others_own:
  assumes step: "others_step s s'" and own: "own_inv (sv_store s)"
  shows "own_inv (sv_store s')"
  using step
  by cases (use own in \<open>auto simp: begin_task_def end_task_def own_inv_move_new own_inv_destroy listener_stop_inv\<close>)

lemma others_settled:
  assumes step: "others_step s s'" and st: "stranger i s" "stranger j s" "stranger k s"
  shows "server_step (refusal_end i j k s) (refusal_end i j k s')"
proof (rule others_server)
  show "others_step (refusal_end i j k s) (refusal_end i j k s')"
    using step
  proof cases
    case (begin_task w t p l)
    have "owned s t" using begin_task(4) by (auto simp: owned_def intro: exI [of _ w])
    then have "t \<notin> {i, j, k}" "l \<notin> {i, j, k}" using st begin_task(6) by (auto simp: stranger_def)
    then have "refusal_end i j k s' = begin_task w t l p (refusal_end i j k s)"
      unfolding begin_task(1) by (simp add: refusal_end_def begin_task_def refusal_commutes [of _ i j k])
    moreover have "others_step (refusal_end i j k s) (begin_task w t l p (refusal_end i j k s))"
      by (rule others_step.begin_task) (use begin_task in simp_all)
    ultimately show ?thesis by simp
  next
    case (end_task w t p)
    have "owned s t" "owned s (sv_conn s w)" using end_task(4) by (auto simp: owned_def intro: exI [of _ w])
    then have "t \<notin> {i, j, k}" "sv_conn s w \<notin> {i, j, k}" using st by (auto simp: stranger_def)
    then have "refusal_end i j k s' = end_task w t p (refusal_end i j k s)"
      unfolding end_task(1) by (simp add: refusal_end_def end_task_def refusal_commutes [of _ i j k])
    moreover have "others_step (refusal_end i j k s) (end_task w t p (refusal_end i j k s))"
      by (rule others_step.end_task) (use end_task in simp_all)
    ultimately show ?thesis by simp
  next
    case (pool p)
    have "others_step (refusal_end i j k s) ((refusal_end i j k s)\<lparr>sv_pool := p\<rparr>)"
      by (rule others_step.pool) (use pool in simp_all)
    moreover have "refusal_end i j k s' = (refusal_end i j k s)\<lparr>sv_pool := p\<rparr>"
      by (rule server.equality) (simp_all add: pool(1))
    ultimately show ?thesis by simp
  next
    case stop
    have "l_socket (sv_listener s) \<notin> {i, j, k}" using st by (auto simp: stranger_def owned_def)
    then have "refusal_end i j k s' = server_stop (refusal_end i j k s)"
      unfolding stop by (cases "sv_pooled s") (simp_all add: refusal_end_def server_stop_def Let_def listener_stop_def refusal_commutes [of _ i j k])
    then show ?thesis using others_step.stop [of "refusal_end i j k s"] by simp
  qed
qed

text \<open>The objects of a refusal are nobody else's, and only the connection has a descriptor.\<close>

definition refusal_inv :: "accepting \<Rightarrow> bool" where
  "refusal_inv b =
     (server_inv (settled b) \<and> client_inv (settled b) \<and> own_inv (sv_store (ac_server b)) \<and>
      (\<forall>i j k. ac_refusing b = Some (i, j, k) \<longrightarrow>
         stranger i (ac_server b) \<and> stranger j (ac_server b) \<and> stranger k (ac_server b) \<and>
         fd_of i (sv_store (ac_server b)) = -1 \<and> fd_of j (sv_store (ac_server b)) = -1))"

lemma settled_idle [simp]: "ac_refusing b = None \<Longrightarrow> settled b = ac_server b"
  by (simp add: settled_def)

text \<open>A refusal leaves the store as it was.\<close>

lemma refused_store:
  assumes own: "own_inv w" and fresh: "objs w i = None" "objs w j = None" "objs w k = None" "distinct [i, j, k]"
    and fd: "fd = -1 \<or> 0 \<le> fd \<and> fd \<notin> open_fds w" and valid: "is_valid (fd_of i (listener_accept l i fd w))"
  defines "w3 \<equiv> socket_move_new k j (socket_move_new j i (listener_accept l i fd w))"
  shows "socket_destroy i (socket_destroy j (socket_destroy k w3)) = w"
    and "own_inv w3" "fd_of i w3 = -1" "fd_of j w3 = -1" "objs w3 x \<noteq> None \<longleftrightarrow> x \<in> {i, j, k} \<or> objs w x \<noteq> None"
proof -
  have acc: "listener_accept l i fd w = socket_create i fd w" "fd \<noteq> -1"
    using valid by (auto simp: listener_accept_def is_valid_def socket_create_def split: if_splits)
  have objs: "objs w3 = (objs w)(i \<mapsto> -1, j \<mapsto> -1, k \<mapsto> fd)"
    using fresh(4) by (simp add: w3_def acc fd_of_def fun_eq_iff)
  show "fd_of i w3 = -1" "fd_of j w3 = -1" "objs w3 x \<noteq> None \<longleftrightarrow> x \<in> {i, j, k} \<or> objs w x \<noteq> None"
    using fresh(4) by (auto simp: objs fd_of_def)
  have w3: "w3 = \<lparr>objs = (objs w)(i \<mapsto> -1, j \<mapsto> -1, k \<mapsto> fd), open_fds = insert fd (open_fds w), bad_closes = bad_closes w\<rparr>"
    using acc(2) by (intro store.equality) (simp_all add: objs, simp_all add: w3_def acc socket_move_new_def socket_create_def socket_new_def)
  show "own_inv w3"
    unfolding w3_def acc(1) using fresh fd
    by (intro own_inv_move_new own_inv_create own) (auto simp: fd_of_def)
  show "socket_destroy i (socket_destroy j (socket_destroy k w3)) = w"
    using fresh fd acc(2)
    by (intro store.equality)
      (auto simp: w3 socket_destroy_alt fd_of_def sys_close_def fun_eq_iff)
qed

lemma owned_live:
  assumes sinv: "server_inv s" and inv: "client_inv s" and x: "owned s x"
  shows "objs (sv_store s) x \<noteq> None"
proof -
  have "0 < count (holders s) x"
  proof -
    consider (l) "x = l_socket (sv_listener s)" | (q) "x \<in> set (tasks (sv_pool s))"
      | (w) i where "keeps (pcs (sv_pool s) i) (sv_conn s i) x" using x by (auto simp: owned_def)
    then show ?thesis
    proof cases
      case (w i)
      then obtain t where "pcs (sv_pool s) i = Taken t \<or> pcs (sv_pool s) i = Running t" by (auto simp: keeps_iff)
      then have i: "i < workers s" by (rule busy_worker [OF sinv])
      have "count (kept (pcs (sv_pool s) i) (sv_conn s i)) x \<le>
          (\<Sum>j<workers s. count (kept (pcs (sv_pool s) j) (sv_conn s j)) x)"
        using i by (intro member_le_sum) auto
      moreover have "x \<in># kept (pcs (sv_pool s) i) (sv_conn s i)"
        using w by (cases "pcs (sv_pool s) i") auto
      ultimately show ?thesis unfolding count_holders count_greater_zero_iff [symmetric] by linarith
    qed (simp_all add: count_holders)
  qed
  with client_inv_count [OF inv, of x] show ?thesis by (simp split: if_splits)
qed

lemma server_client_step:
  "server_step s s' \<Longrightarrow> server_inv s \<Longrightarrow> client_inv s \<Longrightarrow> server_inv s' \<and> client_inv s'"
  using server_inv_step client_inv_step by blast

text \<open>A refused client is in nobody's state, once the refusal has ended.\<close>

lemma refusing_settled:
  assumes inv: "refusal_inv b" and idle: "ac_refusing b = None"
    and fresh: "objs (sv_store (ac_server b)) i = None" "objs (sv_store (ac_server b)) j = None"
      "objs (sv_store (ac_server b)) k = None" "distinct [i, j, k]"
    and fd: "fd = -1 \<or> 0 \<le> fd \<and> fd \<notin> open_fds (sv_store (ac_server b))"
    and refused: "accept_client i j k fd (ac_server b) = Some (Refusing, s')"
  shows "refusal_end i j k s' = ac_server b \<and> refusal_inv (b\<lparr>ac_server := s', ac_refusing := Some (i, j, k)\<rparr>)"
proof -
  let ?s = "ac_server b"
  have own: "own_inv (sv_store ?s)" using inv by (simp add: refusal_inv_def)
  from refused obtain s': "s' = ?s\<lparr>sv_store := socket_move_new k j
        (socket_move_new j i (listener_accept (sv_listener ?s) i fd (sv_store ?s)))\<rparr>"
    and valid: "is_valid (fd_of i (listener_accept (sv_listener ?s) i fd (sv_store ?s)))"
    by (cases rule: accept_clientE) simp_all
  note r = refused_store [OF own fresh fd valid]
  have settled: "refusal_end i j k s' = ?s" unfolding refusal_end_def s' using r(1) by simp
  have live: "owned ?s x \<Longrightarrow> objs (sv_store ?s) x \<noteq> None" for x
    using owned_live [of ?s x] inv idle by (simp add: refusal_inv_def)
  have "owned s' x = owned ?s x" for x by (simp add: s' owned_def)
  then have "stranger x s'" if "x \<in> {i, j, k}" for x
    using live [of x] that fresh r(5) unfolding stranger_def by (auto simp: s')
  with inv settled r(2-4) idle show ?thesis by (simp add: refusal_inv_def settled_def) (simp add: s')
qed

lemma others_refusal_inv:
  assumes inv: "refusal_inv b" and step: "others_step (ac_server b) s'"
  shows "server_step (settled b) (settled (b\<lparr>ac_server := s'\<rparr>)) \<and> refusal_inv (b\<lparr>ac_server := s'\<rparr>)"
proof (cases "ac_refusing b")
  case None
  from others_server [OF step] server_client_step [OF others_server [OF step]] inv None show ?thesis
    by (simp add: refusal_inv_def) (simp add: server_inv_def)
next
  case (Some r)
  then obtain i j k where r: "ac_refusing b = Some (i, j, k)" by (cases r) auto
  have st: "stranger i (ac_server b)" "stranger j (ac_server b)" "stranger k (ac_server b)"
    and own: "own_inv (sv_store (ac_server b))" using inv r by (simp_all add: refusal_inv_def)
  have s: "settled b = refusal_end i j k (ac_server b)" "settled (b\<lparr>ac_server := s'\<rparr>) = refusal_end i j k s'"
    using r by (simp_all add: settled_def)
  note step' = others_settled [OF step st]
  have "server_inv (refusal_end i j k s') \<and> client_inv (refusal_end i j k s')"
    using server_client_step [OF step'] inv by (simp add: refusal_inv_def s)
  with step' others_own [OF step own] others_strangers [OF step st(1)]
    others_strangers [OF step st(2)] others_strangers [OF step st(3)] inv r
  show ?thesis unfolding refusal_inv_def s by (simp add: fd_of_def)
qed

text \<open>A step of the taken-apart loop is none of the server, or one.\<close>

lemma accepting_step_settled:
  assumes inv: "refusal_inv b" and step: "accepting_step b b'"
  shows "(settled b' = settled b \<or> server_step (settled b) (settled b')) \<and> refusal_inv b'"
  using step
proof cases
  case (start tmp res s')
  have s: "settled b = ac_server b" "settled b' = s'" using start(2) by (simp_all add: start(1))
  have "server_step (ac_server b) s'" by (rule server_step.start [OF start(3-6)])
  moreover from this have "server_inv s' \<and> client_inv s'"
    using server_client_step inv by (simp add: refusal_inv_def s)
  ultimately show ?thesis unfolding refusal_inv_def s using start(1,2) by (simp add: server_inv_def)
next
  case (accept i j k fd a s')
  show ?thesis
  proof (cases "a = Refusing")
    case False
    then have "accept_round 0 i j k fd undefined (ac_server b) = Some (Returned, undefined, s')"
      using accept(10) by (cases a) (simp_all add: accept_round_def)
    from server_step.accept [OF accept(3-9) this] have st: "server_step (ac_server b) s'" .
    have "server_inv s' \<and> client_inv s'"
      using server_client_step [OF st] inv accept(2) by (simp add: refusal_inv_def)
    with st False show ?thesis
      using accept(2) by (simp add: accept(1) refusal_inv_def settled_def) (simp add: server_inv_def)
  next
    case True
    with refusing_settled [OF inv accept(2,5-9)] accept(2,10) show ?thesis
      by (simp add: accept(1) settled_def)
  qed
next
  case (finish i j k now io r io')
  have "settled b' = settled b" using finish(2) by (simp add: finish(1) settled_def)
  moreover have "own_inv (sv_store (ac_server b'))"
    using inv by (simp add: finish(1) refusal_inv_def own_inv_destroy)
  ultimately show ?thesis using inv by (simp add: refusal_inv_def) (simp add: finish(1))
next
  case (others s')
  with others_refusal_inv [OF inv others(2)] show ?thesis by simp
qed

lemma refusal_inv_init: "accepting_init config b \<Longrightarrow> refusal_inv b"
  using server.inv_init client_inv_init by (auto simp: accepting_init_def refusal_inv_def server_inv_def)

interpretation refusing: refinement_mapping "accepting_init config" accepting_step refusal_inv
    "server_init config" server_step settled for config
proof unfold_locales
  fix b b' :: accepting
  assume "accepting_init config b"
  then show "refusal_inv b" "server_init config (settled b)"
    using refusal_inv_init by (auto simp: accepting_init_def)
next
  fix b b' :: accepting
  assume "refusal_inv b" "accepting_step b b'"
  from accepting_step_settled [OF this] show "refusal_inv b'" "settled b' = settled b \<or> server_step (settled b) (settled b')"
    by auto
qed

text \<open>What is open while a client is being refused: one descriptor more at most.\<close>

lemma open_fds_refusing:
  assumes "refusal_inv b"
  shows "open_fds (sv_store (ac_server b)) \<subseteq> open_fds (sv_store (settled b)) \<union>
    (case ac_refusing b of None \<Rightarrow> {} | Some (i, j, k) \<Rightarrow> {fd_of k (sv_store (ac_server b))})"
proof (cases "ac_refusing b")
  case None
  then show ?thesis by simp
next
  case (Some r)
  then obtain i j k where r: "ac_refusing b = Some (i, j, k)" by (cases r) auto
  let ?w = "sv_store (ac_server b)"
  have own: "own_inv ?w" and fds: "fd_of i ?w = -1" "fd_of j ?w = -1" using assms r by (simp_all add: refusal_inv_def)
  have none: "fd_of x (socket_destroy y v) \<in> {-1, fd_of x v}" for x y v by (simp add: fd_of_def)
  have "open_fds (socket_destroy i (socket_destroy j (socket_destroy k ?w))) \<supseteq> open_fds ?w - {fd_of k ?w}"
    using own own_no_minus [OF own] fds none [of j k ?w] none [of i j "socket_destroy k ?w"] none [of i k ?w]
    by (auto simp: own_inv_destroy)
  then show ?thesis using r by (auto simp: settled_def)
qed

end
