(* ===== verification/Server_Props.thy ===== *)
theory Server_Props
  imports Server_Refusal Server_Conversation
begin

text \<open>
  The properties of \<open>Server\<close> with its pool: a full queue, the descriptors a server can have open,
  and what is left when it has been stopped and destroyed; an example server.
\<close>

section \<open>A full queue\<close>

lemma fd_of_destroy_other: "i \<noteq> j \<Longrightarrow> fd_of i (socket_destroy j w) = fd_of i w"
  by (simp add: socket_destroy_def fd_of_def socket_close_other Let_def)

lemma rejected_store:
  assumes own: "own_inv w" and fresh: "objs w i = None" "objs w j = None" "objs w k = None" "distinct [i, j, k]"
    and fd: "0 \<le> fd" "fd \<notin> open_fds w" and l: "is_valid (fd_of (l_socket l) w)"
  shows "let w3 = socket_move_new k j (socket_move_new j i (listener_accept l i fd w)) in
    fd_of k w3 = fd \<and> open_fds (socket_destroy i (socket_destroy j (socket_destroy k w3))) = open_fds w"
proof -
  let ?w1 = "listener_accept l i fd w"
  let ?w2 = "socket_move_new j i ?w1"
  let ?w3 = "socket_move_new k j ?w2"
  have w1: "?w1 = socket_create i fd w" using l by (simp add: listener_accept_def)
  have own1: "own_inv ?w1" using own fresh(1) fd by (simp add: listener_accept_inv)
  have own2: "own_inv ?w2" using fresh by (intro own_inv_move_new [OF own1]) (simp add: w1)
  have own3: "own_inv ?w3" using fresh by (intro own_inv_move_new [OF own2]) (simp add: w1)
  have fds: "fd_of k ?w3 = fd" "fd_of j ?w3 = -1" "fd_of i ?w3 = -1"
    using fresh(4) by (auto simp: fd_of_def w1)
  have "open_fds ?w1 = insert fd (open_fds w)"
    using fd by (simp add: w1 socket_create_def socket_new_def)
  then show ?thesis
    using fds fresh(4) own3 own_no_minus [OF own] fd
    by (simp add: Let_def own_inv_destroy fd_of_destroy_other)
qed

text \<open>C29. Overload: when the queue is full a new client is told so at once, with a 503 that closes the
  connection, its descriptor is closed again, and neither the queue nor any other socket is
  touched.\<close>

theorem overload_refused:
  assumes "server_inv s" "is_valid (fd_of (l_socket (sv_listener s)) (sv_store s))"
    and "objs (sv_store s) i = None" "objs (sv_store s) j = None" "objs (sv_store s) k = None"
      "distinct [i, j, k]" "0 \<le> fd" "fd \<notin> open_fds (sv_store s)"
    and "mutex (sv_pool s) = None" "unat (max_queue_size (sv_config s)) \<le> length (tasks (sv_pool s))"
    and "list_all makes_progress (outq io)" "length (serialize now overload_response) \<le> rooms (outq io)"
  shows "\<exists>io' s'. accept_round now i j k fd io s = Some (Returned, io', s') \<and>
    wire io' = wire io @ serialize now overload_response \<and>
    read_response (serialize now overload_response) =
      Some (status_line overload_response, message_headers now overload_response, ''Service Unavailable'', []) \<and>
    sv_pool s' = sv_pool s \<and> open_fds (sv_store s') = open_fds (sv_store s)"
proof -
  let ?w1 = "listener_accept (sv_listener s) i fd (sv_store s)"
  let ?w3 = "socket_move_new k j (socket_move_new j i ?w1)"
  let ?w4 = "socket_destroy i (socket_destroy j (socket_destroy k ?w3))"
  have own: "own_inv (sv_store s)" using assms(1) by (simp add: server_inv_def)
  have st: "fd_of k ?w3 = fd" "open_fds ?w4 = open_fds (sv_store s)"
    using rejected_store [OF own assms(3-8,2)] by (simp_all add: Let_def)
  have valid: "is_valid (fd_of i ?w1)" using assms(2,7) by (simp add: listener_accept_def socket_create_def is_valid_def)
  have enq: "enqueue (unat (max_queue_size (sv_config s))) j (sv_pool s) = Some (False, sv_pool s)"
    using assms(9,10) by (intro enqueue_full) simp_all
  have open_c: "is_open (new_connection fd)" using assms(7) by simp
  obtain io' where w: "write_all (new_connection fd) (serialize now overload_response) io = (Returns True, io')"
    "wire io' = wire io @ serialize now overload_response"
    using write_all_delivers [OF open_c assms(11,12)] by blast
  have round: "accept_round now i j k fd io s = Some (Returned, io', s\<lparr>sv_pool := sv_pool s, sv_store := ?w4\<rparr>)"
    using valid enq w(1) st(1) by (simp add: accept_round_def accept_client_def refusal_end_def Let_def)
  have "rs_body overload_response = ''Service Unavailable''"
    by (simp add: overload_response_def make_response_def Let_def)
  then have "read_response (serialize now overload_response) =
      Some (status_line overload_response, message_headers now overload_response, ''Service Unavailable'', [])"
    using read_response_serialize [OF overload_safe, of now "[]"] by simp
  with round w(2) st(2) show ?thesis by simp
qed

text \<open>A server of one worker that listens on descriptor 3 and has no room for tasks.\<close>

definition tiny_config :: Config where
  "tiny_config = default_config\<lparr>num_workers := 1, max_queue_size := 0\<rparr>"

abbreviation tiny_server :: server where
  "tiny_server \<equiv> started_server tiny_config (\<lambda>r. r)"

lemma tiny_workers [simp]: "num_workers tiny_config = 1" "max_queue_size tiny_config = 0"
  by (simp_all add: tiny_config_def)

lemma tiny_reach: "server_reach tiny_config tiny_server"
  by (rule started_reach) simp

theorem overload_refused_witness:
  "\<exists>out io' s'. accept_round 0 10 11 12 4 \<lparr>inq = [], outq = out, wire = [], rcv_timeo = 0, snd_timeo = 0, nonblock = False\<rparr>
     tiny_server = Some (Returned, io', s') \<and> wire io' = serialize 0 overload_response \<and>
     open_fds (sv_store s') = {3}"
proof -
  define io where "io = \<lparr>inq = [], outq = replicate (length (serialize 0 overload_response)) (SRoom 1),
    wire = [], rcv_timeo = 0, snd_timeo = 0, nonblock = False\<rparr>"
  have inv: "server_inv tiny_server" using tiny_reach by (rule server.reach_inv)
  have "\<exists>io' s'. accept_round 0 10 11 12 4 io tiny_server = Some (Returned, io', s') \<and>
    wire io' = wire io @ serialize 0 overload_response \<and>
    read_response (serialize 0 overload_response) =
      Some (status_line overload_response, message_headers 0 overload_response, ''Service Unavailable'', []) \<and>
    sv_pool s' = sv_pool tiny_server \<and> open_fds (sv_store s') = open_fds (sv_store tiny_server)"
    by (rule overload_refused [OF inv])
      (simp_all add: fd_of_def is_valid_def new_pool_def io_def list_all_iff
        makes_progress_def rooms_def)
  then show ?thesis unfolding io_def by auto
qed

section \<open>Descriptors\<close>




text \<open>C16. No leak and no double close over the whole life of the server, whatever clients come, whatever
  the workers do and whenever it is stopped: once the pool has shut down and the server is
  destroyed, every descriptor it ever had is closed, and none was closed twice.\<close>

theorem server_leaves_nothing_open:
  assumes "server_reach config s" "shut (sv_pool s) = Shut"
  shows "open_fds (server_destroy s) = {} \<and> bad_closes (server_destroy s) = 0"
  using server.reach_inv [OF assms(1)] assms(2) by (rule server_destroy_clean)

theorem server_leaves_nothing_open_witness:
  "\<exists>s. server_reach tiny_config s \<and> shut (sv_pool s) = Shut \<and> open_fds (server_destroy s) = {}"
proof -
  let ?s1 = "server_stop tiny_server"
  let ?p1 = "sv_pool ?s1"
  let ?p2 = "notify_all ?p1"
  let ?p3 = "request_stop 0 ?p2"
  let ?p4 = "goto 0 Exited ?p3"
  let ?p5 = "join_worker 0 ?p4"
  let ?p6 = "?p5\<lparr>shut := Shut\<rparr>"
  have quiet_step: "server_reach tiny_config (?s1\<lparr>sv_pool := q\<rparr>)"
    if "server_reach tiny_config (?s1\<lparr>sv_pool := p\<rparr>)" "pool_step 1 0 p q" "quiet p q" for p q
    using reach_step [OF that(1) server_step.pool [of "?s1\<lparr>sv_pool := p\<rparr>" q]] that(2,3)
    by (simp)
  have "server_reach tiny_config ?s1" by (rule reach_step [OF tiny_reach server_step.stop])
  moreover have "s\<lparr>sv_pool := sv_pool s\<rparr> = s" for s :: server by simp
  ultimately have "server_reach tiny_config (?s1\<lparr>sv_pool := ?p1\<rparr>)" by (simp only:)
  then have "server_reach tiny_config (?s1\<lparr>sv_pool := ?p2\<rparr>)"
    by (rule quiet_step) (rule pool_step.wake, simp_all add: quiet_def notify_all_def
      shutdown_exchange_def new_pool_def)
  then have "server_reach tiny_config (?s1\<lparr>sv_pool := ?p3\<rparr>)"
    by (rule quiet_step) (rule pool_step.request, simp_all add: quiet_def request_stop_def notify_all_def
      shutdown_exchange_def new_pool_def)
  then have "server_reach tiny_config (?s1\<lparr>sv_pool := ?p4\<rparr>)"
    by (rule quiet_step) (rule pool_step.worker [of 0], simp_all add: worker_step_def quiet_def request_stop_def
      notify_all_def shutdown_exchange_def new_pool_def)
  then have "server_reach tiny_config (?s1\<lparr>sv_pool := ?p5\<rparr>)"
    by (rule quiet_step) (rule pool_step.join, simp_all add: quiet_def request_stop_def join_worker_def)
  then have r: "server_reach tiny_config (?s1\<lparr>sv_pool := ?p6\<rparr>)"
    by (rule quiet_step) (rule pool_step.return, auto simp: quiet_def request_stop_def join_worker_def
      notify_all_def shutdown_exchange_def new_pool_def)
  have "shut (sv_pool (?s1\<lparr>sv_pool := ?p6\<rparr>)) = Shut" by simp
  with r server_leaves_nothing_open [OF r] show ?thesis by blast
qed

end
