(* ===== verification/Thread_Pool_Signal.thy ===== *)
theory Thread_Pool_Signal
  imports Thread_Pool
begin

text \<open>
  The main thread at a finer grain.  \<open>enqueue\<close> is called by the accept loop, on the main thread;
  \<open>shutdown\<close> is called by the signal handler (\<open>src/main.cpp\<close>, through \<open>Server::stop\<close>), which runs on the
  main thread too and can interrupt \<open>enqueue\<close> between any two of its calls: before it locks, between
  the two checks, between a check and the push, before and after it unlocks.  While \<open>shutdown\<close> runs, the
  interrupted \<open>enqueue\<close> stands still; when it has returned, \<open>enqueue\<close> goes on with what it had checked.
\<close>

section \<open>State and steps\<close>

text \<open>Where the main thread stands: outside \<open>enqueue\<close>; about to lock; holding the mutex and about to test
  \<open>stop_\<close>, about to test the size, about to push; about to unlock, after the push or to return false;
  about to \<open>notify_one\<close>.\<close>

datatype main_pc = Outside | Locking nat | Locked nat | Checked nat | Room nat | Pushed | Refused | Notifying

record process_state =
  ps_pool :: pool
  ps_main :: main_pc

definition main_holds :: "process_state \<Rightarrow> bool" where
  "main_holds s =
     (case ps_main s of Locked t \<Rightarrow> True | Checked t \<Rightarrow> True | Room t \<Rightarrow> True | Pushed \<Rightarrow> True | Refused \<Rightarrow> True
      | _ \<Rightarrow> False)"

definition in_handler :: "process_state \<Rightarrow> bool" where
  "in_handler s = (shut (ps_pool s) \<notin> {Not_called, Shut})"

definition push_task :: "nat \<Rightarrow> pool \<Rightarrow> pool" where
  "push_task t s = s\<lparr>tasks := tasks s @ [t], accepted := accepted s @ [t], notifies := Suc (notifies s)\<rparr>"

text \<open>One step of \<open>enqueue\<close> with the mutex in the hands of the main thread.\<close>

definition enqueue_step :: "nat \<Rightarrow> process_state \<Rightarrow> process_state" where
  "enqueue_step m s =
     (case ps_main s of
        Locked t \<Rightarrow> s\<lparr>ps_main := if stop (ps_pool s) then Refused else Checked t\<rparr>
      | Checked t \<Rightarrow> s\<lparr>ps_main := if length (tasks (ps_pool s)) \<ge> m then Refused else Room t\<rparr>
      | Room t \<Rightarrow> s\<lparr>ps_pool := push_task t (ps_pool s), ps_main := Pushed\<rparr>
      | Pushed \<Rightarrow> s\<lparr>ps_main := Notifying\<rparr>
      | Refused \<Rightarrow> s\<lparr>ps_main := Outside\<rparr>
      | _ \<Rightarrow> s)"

text \<open>The workers move as before, except that none can lock the mutex while the main thread holds it.
  A second signal finds \<open>stop_\<close> set and its handler returns.\<close>

inductive signal_step :: "nat \<Rightarrow> nat \<Rightarrow> process_state \<Rightarrow> process_state \<Rightarrow> bool" for n :: nat and m :: nat where
  worker: "i < n \<Longrightarrow> pcs (ps_pool s) i = Acquire \<longrightarrow> \<not> main_holds s \<Longrightarrow> worker_step i (ps_pool s) = Some p \<Longrightarrow>
     signal_step n m s (s\<lparr>ps_pool := p\<rparr>)"
| spurious: "i < n \<Longrightarrow> pcs (ps_pool s) i = Waiting \<Longrightarrow>
     signal_step n m s (s\<lparr>ps_pool := goto i Acquire (ps_pool s)\<rparr>)"
| call: "\<not> in_handler s \<Longrightarrow> ps_main s = Outside \<Longrightarrow> signal_step n m s (s\<lparr>ps_main := Locking t\<rparr>)"
| lock: "\<not> in_handler s \<Longrightarrow> ps_main s = Locking t \<Longrightarrow> mutex (ps_pool s) = None \<Longrightarrow>
     signal_step n m s (s\<lparr>ps_main := Locked t\<rparr>)"
| critical: "\<not> in_handler s \<Longrightarrow> main_holds s \<Longrightarrow> signal_step n m s (enqueue_step m s)"
| notify_one: "\<not> in_handler s \<Longrightarrow> ps_main s = Notifying \<Longrightarrow> i < n \<Longrightarrow> pcs (ps_pool s) i = Waiting \<Longrightarrow>
     signal_step n m s (s\<lparr>ps_pool := goto i Acquire ((ps_pool s)\<lparr>notifies := notifies (ps_pool s) - 1\<rparr>), ps_main := Outside\<rparr>)"
| notify_none: "\<not> in_handler s \<Longrightarrow> ps_main s = Notifying \<Longrightarrow> \<forall>i<n. pcs (ps_pool s) i \<noteq> Waiting \<Longrightarrow>
     signal_step n m s (s\<lparr>ps_pool := (ps_pool s)\<lparr>notifies := notifies (ps_pool s) - 1\<rparr>, ps_main := Outside\<rparr>)"
| signal: "signal_step n m s (s\<lparr>ps_pool := shutdown_exchange (ps_pool s)\<rparr>)"
| wake: "shut (ps_pool s) = Exchanged \<Longrightarrow> signal_step n m s (s\<lparr>ps_pool := notify_all (ps_pool s)\<rparr>)"
| request: "shut (ps_pool s) = Clearing \<Longrightarrow> i < n \<Longrightarrow> i \<notin> joined (ps_pool s) \<Longrightarrow>
     signal_step n m s (s\<lparr>ps_pool := request_stop i (ps_pool s)\<rparr>)"
| join: "shut (ps_pool s) = Joining i \<Longrightarrow> pcs (ps_pool s) i = Exited \<Longrightarrow>
     signal_step n m s (s\<lparr>ps_pool := join_worker i (ps_pool s)\<rparr>)"
| return: "shut (ps_pool s) = Clearing \<Longrightarrow> joined (ps_pool s) = {..<n} \<Longrightarrow>
     signal_step n m s (s\<lparr>ps_pool := (ps_pool s)\<lparr>shut := Shut\<rparr>\<rparr>)"

inductive_cases signal_stepE: "signal_step n m s s'"

definition new_process :: process_state where
  "new_process = \<lparr>ps_pool = new_pool, ps_main = Outside\<rparr>"

abbreviation signal_reach :: "nat \<Rightarrow> nat \<Rightarrow> process_state \<Rightarrow> bool" where
  "signal_reach n m \<equiv> reach (\<lambda>s. s = new_process) (signal_step n m)"

section \<open>The point at which \<open>enqueue\<close> takes effect\<close>

text \<open>An \<open>enqueue\<close> that has found \<open>stop_\<close> unset counts as done if there is room: no one else touches the queue
  before it pushes, but a signal may set \<open>stop_\<close> in between.\<close>

definition pending_push :: "nat \<Rightarrow> process_state \<Rightarrow> nat option" where
  "pending_push m s =
     (case ps_main s of
        Checked t \<Rightarrow> if length (tasks (ps_pool s)) < m then Some t else None
      | Room t \<Rightarrow> Some t
      | _ \<Rightarrow> None)"

definition linearized :: "nat \<Rightarrow> process_state \<Rightarrow> pool" where
  "linearized m s =
     (case pending_push m s of Some t \<Rightarrow> push_task t (ps_pool s) | None \<Rightarrow> ps_pool s)"

text \<open>The mutex is the main thread's or a worker's, and a notification is owed from the push until
  \<open>enqueue\<close> sends it.\<close>

definition main_inv :: "nat \<Rightarrow> nat \<Rightarrow> process_state \<Rightarrow> bool" where
  "main_inv n m s =
     (pool_inv n (ps_pool s) \<and>
      (main_holds s \<longrightarrow> mutex (ps_pool s) = None) \<and>
      (\<forall>t. ps_main s = Room t \<longrightarrow> length (tasks (ps_pool s)) < m) \<and>
      notifies (ps_pool s) = (if ps_main s \<in> {Pushed, Notifying} then 1 else 0))"

lemma push_task_fields [simp]:
  "mutex (push_task t s) = mutex s" "stop (push_task t s) = stop s" "pcs (push_task t s) = pcs s"
  "stop_req (push_task t s) = stop_req s" "shut (push_task t s) = shut s" "joined (push_task t s) = joined s"
  "tasks (push_task t s) = tasks s @ [t]" "accepted (push_task t s) = accepted s @ [t]"
  "notifies (push_task t s) = Suc (notifies s)" "started (push_task t s) = started s"
  "finished (push_task t s) = finished s" "active_count (push_task t s) = active_count s"
  by (simp_all add: push_task_def)

lemma pool_inv_push:
  assumes "pool_inv n s" "mutex s = None"
  shows "pool_inv n (push_task t s)"
proof -
  have "pcs s j \<noteq> Blocking" for j using assms by (force simp: pool_inv_def holds_mutex_def)
  with assms show ?thesis by (simp add: pool_inv_def)
qed

text \<open>A worker that does not get past the mutex leaves the queue alone, and a push before or after its
  step makes no difference.\<close>

lemma worker_step_outside:
  assumes inv: "pool_inv n s" and step: "worker_step i s = Some s'"
    and m: "mutex s = None" "pcs s i \<noteq> Acquire"
  shows "mutex s' = None \<and> tasks s' = tasks s \<and> worker_step i (push_task t s) = Some (push_task t s')"
proof -
  have "\<not> holds_mutex (pcs s i)" using inv m by (auto simp: pool_inv_def)
  with step m show ?thesis
    by (cases rule: worker_stepE) (simp_all add: holds_mutex_def worker_step_def push_task_def goto_def)
qed

lemma worker_step_notifies: "worker_step i s = Some s' \<Longrightarrow> notifies s' = notifies s"
  by (erule worker_stepE) simp_all

lemma push_task_commutes:
  "push_task t (goto i c s) = goto i c (push_task t s)"
  "push_task t (shutdown_exchange s) = shutdown_exchange (push_task t s)"
  "push_task t (request_stop i s) = request_stop i (push_task t s)"
  "push_task t (join_worker i s) = join_worker i (push_task t s)"
  "push_task t (s\<lparr>shut := d\<rparr>) = (push_task t s)\<lparr>shut := d\<rparr>"
  by (simp_all add: push_task_def goto_def shutdown_exchange_def request_stop_def join_worker_def)

lemma push_task_notify_all: "push_task t (notify_all s) = notify_all (push_task t s)"
  by (rule pool.equality) (simp_all add: notify_all_def cong: if_cong)

lemma handler_tasks:
  "tasks (shutdown_exchange s) = tasks s" "tasks (notify_all s) = tasks s"
  "tasks (request_stop i s) = tasks s" "tasks (join_worker i s) = tasks s"
  by (simp_all add: shutdown_exchange_def notify_all_def request_stop_def join_worker_def)

lemma enqueue_step_cases:
  assumes "main_holds s"
  obtains (stopped) t where "ps_main s = Locked t" "stop (ps_pool s)" "enqueue_step m s = s\<lparr>ps_main := Refused\<rparr>"
    | (runs) t where "ps_main s = Locked t" "\<not> stop (ps_pool s)" "enqueue_step m s = s\<lparr>ps_main := Checked t\<rparr>"
    | (full) t where "ps_main s = Checked t" "m \<le> length (tasks (ps_pool s))"
        "enqueue_step m s = s\<lparr>ps_main := Refused\<rparr>"
    | (fits) t where "ps_main s = Checked t" "length (tasks (ps_pool s)) < m"
        "enqueue_step m s = s\<lparr>ps_main := Room t\<rparr>"
    | (push) t where "ps_main s = Room t"
        "enqueue_step m s = s\<lparr>ps_pool := push_task t (ps_pool s), ps_main := Pushed\<rparr>"
    | (unlock) "ps_main s = Pushed" "enqueue_step m s = s\<lparr>ps_main := Notifying\<rparr>"
    | (refuse) "ps_main s = Refused" "enqueue_step m s = s\<lparr>ps_main := Outside\<rparr>"
proof (cases "ps_main s")
  case (Locked t)
  then show ?thesis
    by (cases "stop (ps_pool s)") (auto simp: enqueue_step_def intro: stopped runs)
next
  case (Checked t)
  then show ?thesis
    by (cases "length (tasks (ps_pool s)) < m") (auto simp: enqueue_step_def intro: full fits)
qed (use assms in \<open>auto simp: main_holds_def enqueue_step_def intro: push unlock refuse\<close>)

lemma main_inv_step: "signal_step n m s s' \<Longrightarrow> main_inv n m s \<Longrightarrow> main_inv n m s'"
proof (induction rule: signal_step.induct)
  case (worker i s p)
  have inv: "pool_inv n (ps_pool s)" using worker.prems by (simp add: main_inv_def)
  have "pool_inv n p" by (rule pool_inv_worker [OF inv worker.hyps(1,3)])
  moreover have "mutex p = None \<and> tasks p = tasks (ps_pool s)" if "main_holds s"
    using worker_step_outside [OF inv worker.hyps(3)] worker.hyps(2) worker.prems that
    by (simp add: main_inv_def)
  ultimately show ?case
    using worker.prems worker_step_notifies [OF worker.hyps(3)] by (auto simp: main_inv_def main_holds_def)
next
  case (critical s)
  from critical.hyps(2) critical.prems show ?case
    by (cases rule: enqueue_step_cases [of s m])
      (auto simp: main_inv_def main_holds_def intro: pool_inv_push)
next
  case (notify_one s i)
  then show ?case using pool_inv_wake [of n "(ps_pool s)\<lparr>notifies := 0\<rparr>" i]
    by (simp add: main_inv_def main_holds_def pool_inv_update)
next
  case (spurious i s)
  then show ?case by (simp add: main_inv_def main_holds_def pool_inv_wake)
next
  case (wake s)
  then have "pool_inv n (notify_all (ps_pool s))" by (simp add: main_inv_def pool_inv_notify_all)
  with wake show ?case by (simp add: main_inv_def main_holds_def) (simp add: notify_all_def)
next
  case (request s i)
  then have "pool_inv n (request_stop i (ps_pool s))" by (simp add: main_inv_def pool_inv_shutdown)
  with request show ?case by (simp add: main_inv_def main_holds_def) (simp add: request_stop_def)
next
  case (join s i)
  then have "pool_inv n (join_worker i (ps_pool s))" by (simp add: main_inv_def pool_inv_shutdown)
  with join show ?case by (simp add: main_inv_def main_holds_def) (simp add: join_worker_def)
next
  case (signal s)
  then have "pool_inv n (shutdown_exchange (ps_pool s))" by (simp add: main_inv_def pool_inv_shutdown)
  with signal show ?case by (simp add: main_inv_def main_holds_def) (simp add: shutdown_exchange_def)
next
  case (return s)
  then have "pool_inv n ((ps_pool s)\<lparr>shut := Shut\<rparr>)" by (simp add: main_inv_def pool_inv_shutdown)
  with return show ?case by (simp add: main_inv_def main_holds_def)
qed (auto simp: main_inv_def main_holds_def pool_inv_update)

text \<open>A step of the others, seen through the pending push.\<close>

lemma linearized_lift:
  assumes "tasks p = tasks (ps_pool s)" "pool_step n m (ps_pool s) p"
    and "\<And>t. pending_push m s = Some t \<Longrightarrow> pool_step n m (push_task t (ps_pool s)) (push_task t p)"
  shows "pool_step n m (linearized m s) (linearized m (s\<lparr>ps_pool := p\<rparr>))"
proof -
  have "pending_push m (s\<lparr>ps_pool := p\<rparr>) = pending_push m s"
    using assms(1) by (simp add: pending_push_def split: main_pc.split)
  with assms(2,3) show ?thesis by (simp add: linearized_def split: option.split)
qed

lemma linearized_outside: "\<not> main_holds s \<Longrightarrow> linearized m s = ps_pool s"
  by (simp add: linearized_def pending_push_def main_holds_def split: main_pc.splits)

lemma enqueue_step_linearized:
  assumes inv: "main_inv n m s" and h: "main_holds s"
  shows "linearized m (enqueue_step m s) = linearized m s \<or>
    pool_step n m (linearized m s) (linearized m (enqueue_step m s))"
  using h
proof (cases rule: enqueue_step_cases [of s m])
  case (runs t)
  have "mutex (ps_pool s) = None" using inv h by (simp add: main_inv_def)
  then have "pool_step n m (ps_pool s) (push_task t (ps_pool s))" if "length (tasks (ps_pool s)) < m"
    using runs that by (intro pool_step.enqueue [of m t _ True]) (simp add: enqueue_def push_task_def)
  with runs show ?thesis by (simp add: linearized_def pending_push_def)
qed (use inv in \<open>simp_all add: linearized_def pending_push_def main_inv_def\<close>)

lemma interrupting_worker:
  assumes inv: "main_inv n m s" and i: "i < n" and free: "pcs (ps_pool s) i = Acquire \<longrightarrow> \<not> main_holds s"
    and step: "worker_step i (ps_pool s) = Some p"
  shows "pool_step n m (linearized m s) (linearized m (s\<lparr>ps_pool := p\<rparr>))"
proof (cases "main_holds s")
  case True
  then have "mutex (ps_pool s) = None" "pool_inv n (ps_pool s)" using inv by (simp_all add: main_inv_def)
  from worker_step_outside [OF this(2) step this(1)] True free i step show ?thesis
    by (intro linearized_lift pool_step.worker [of i]) auto
next
  case False
  moreover from this have "\<not> main_holds (s\<lparr>ps_pool := p\<rparr>)" by (simp add: main_holds_def)
  ultimately show ?thesis using i step pool_step.worker [of i n] by (simp add: linearized_outside)
qed

lemmas under_push = push_task_commutes push_task_notify_all handler_tasks

lemma signal_step_pool:
  assumes inv: "main_inv n m s" and step: "signal_step n m s s'"
  shows "linearized m s' = linearized m s \<or> pool_step n m (linearized m s) (linearized m s')"
  using step
proof cases
  case (worker i p)
  with interrupting_worker [OF inv worker(2-4)] show ?thesis by simp
next
  case critical
  with enqueue_step_linearized [OF inv] show ?thesis by simp
next
  case (notify_one i)
  then have "0 < notifies (ps_pool s)" using inv by (simp add: main_inv_def)
  from pool_step.notify_one [OF this notify_one(4,5)] notify_one show ?thesis
    by (simp add: linearized_def pending_push_def)
next
  case notify_none
  then have "0 < notifies (ps_pool s)" using inv by (simp add: main_inv_def)
  from pool_step.notify_none [OF this notify_none(4)] notify_none show ?thesis
    by (simp add: linearized_def pending_push_def)
next
  case (spurious i)
  then show ?thesis
    unfolding spurious(1) by (intro disjI2 linearized_lift) (auto simp: under_push intro!: pool_step.spurious)
next
  case signal
  then show ?thesis
    unfolding signal(1) by (intro disjI2 linearized_lift) (auto simp: under_push intro: pool_step.exchange)
next
  case wake
  then show ?thesis
    unfolding wake(1) by (intro disjI2 linearized_lift) (auto simp: under_push intro: pool_step.wake)
next
  case (request i)
  then show ?thesis
    unfolding request(1) by (intro disjI2 linearized_lift) (auto simp: under_push intro: pool_step.request)
next
  case (join i)
  then show ?thesis
    unfolding join(1) by (intro disjI2 linearized_lift) (auto simp: under_push intro: pool_step.join)
next
  case return
  then show ?thesis
    unfolding return(1) by (intro disjI2 linearized_lift) (simp_all add: under_push pool_step.return)
qed (simp_all add: linearized_def pending_push_def)

interpretation interrupted: refinement_mapping "\<lambda>s. s = new_process" "signal_step n m" "main_inv n m"
    "\<lambda>p. p = new_pool" "pool_step n m" "linearized m" for n m
proof unfold_locales
  fix s t :: process_state
  show "main_inv n m s" "linearized m s = new_pool" if "s = new_process"
    using that pool_inv_new [of n]
    by (simp_all add: new_process_def main_inv_def main_holds_def linearized_def pending_push_def)
      (simp add: new_pool_def)
  assume inv: "main_inv n m s" and step: "signal_step n m s t"
  from main_inv_step [OF step inv] show "main_inv n m t" .
  from signal_step_pool [OF inv step]
  show "linearized m t = linearized m s \<or> pool_step n m (linearized m s) (linearized m t)" .
qed

section \<open>A signal inside \<open>enqueue\<close>\<close>

text \<open>The main thread was interrupted while it held the mutex, \<open>shutdown\<close> waits for a worker, and the worker
  waits for the mutex.\<close>

definition self_locked :: "nat \<Rightarrow> process_state \<Rightarrow> bool" where
  "self_locked i s =
     (main_holds s \<and> stop (ps_pool s) \<and> shut (ps_pool s) = Joining i \<and> pcs (ps_pool s) i = Acquire)"

lemma worker_step_other: "worker_step j s = Some s' \<Longrightarrow> i \<noteq> j \<Longrightarrow> pcs s' i = pcs s i"
  by (erule worker_stepE) simp_all

lemma worker_step_shut: "worker_step j s = Some s' \<Longrightarrow> shut s' = shut s \<and> stop s' = stop s"
  by (erule worker_stepE) simp_all

lemma self_locked_step: "signal_step n m s s' \<Longrightarrow> self_locked i s \<Longrightarrow> self_locked i s'"
proof (induction rule: signal_step.induct)
  case (worker j s p)
  then have "j \<noteq> i" by (auto simp: self_locked_def)
  with worker worker_step_other [OF worker.hyps(3), of i] worker_step_shut [OF worker.hyps(3)] show ?case
    by (simp add: self_locked_def main_holds_def)
next
  case (critical s)
  then show ?case by (simp add: self_locked_def in_handler_def)
qed (auto simp: self_locked_def in_handler_def main_holds_def shutdown_exchange_def)

lemma self_locked_for_ever:
  "(signal_step n m)\<^sup>*\<^sup>* s s' \<Longrightarrow> self_locked i s \<Longrightarrow> self_locked i s'"
  by (induction rule: rtranclp_induct) (auto intro: self_locked_step)

lemma signal_reach_call:
  assumes "signal_reach n m \<lparr>ps_pool = p, ps_main = Outside\<rparr>" "shut p = Not_called" "mutex p = None"
  shows "signal_reach n m \<lparr>ps_pool = p, ps_main = Locked t\<rparr>"
proof -
  have "signal_reach n m \<lparr>ps_pool = p, ps_main = Locking t\<rparr>"
    using assms(1) by (rule reach_step)
      (use assms signal_step.call [of "\<lparr>ps_pool = p, ps_main = Outside\<rparr>" n m t] in \<open>simp add: in_handler_def\<close>)
  then show ?thesis
    by (rule reach_step)
      (use assms signal_step.lock [of "\<lparr>ps_pool = p, ps_main = Locking t\<rparr>" t n m] in \<open>simp add: in_handler_def\<close>)
qed

lemma signal_reach_pool:
  assumes "signal_reach n m \<lparr>ps_pool = p, ps_main = c\<rparr>"
    and "signal_step n m \<lparr>ps_pool = p, ps_main = c\<rparr> (\<lparr>ps_pool = p, ps_main = c\<rparr>\<lparr>ps_pool := p'\<rparr>)"
  shows "signal_reach n m \<lparr>ps_pool = p', ps_main = c\<rparr>"
  using reach_step [OF assms] by simp

text \<open>The handler up to the first join.\<close>

lemma signal_reach_joining:
  assumes r: "signal_reach n m \<lparr>ps_pool = p, ps_main = c\<rparr>" and p: "\<not> stop p" "joined p = {}" and i: "i < n"
  shows "signal_reach n m \<lparr>ps_pool = request_stop i (notify_all (shutdown_exchange p)), ps_main = c\<rparr>"
proof -
  have "signal_reach n m \<lparr>ps_pool = shutdown_exchange p, ps_main = c\<rparr>"
    by (rule signal_reach_pool [OF r]) (use signal_step.signal [of n m "\<lparr>ps_pool = p, ps_main = c\<rparr>"] in simp)
  then have "signal_reach n m \<lparr>ps_pool = notify_all (shutdown_exchange p), ps_main = c\<rparr>"
    by (rule signal_reach_pool)
      (use p signal_step.wake [of "\<lparr>ps_pool = shutdown_exchange p, ps_main = c\<rparr>" n m] in
        \<open>simp add: shutdown_exchange_def\<close>)
  then show ?thesis
    by (rule signal_reach_pool)
      (use p i signal_step.request [of "\<lparr>ps_pool = notify_all (shutdown_exchange p), ps_main = c\<rparr>" i n m] in
        \<open>simp add: shutdown_exchange_def notify_all_def\<close>)
qed

lemma signal_reach_worker:
  assumes "signal_reach n m \<lparr>ps_pool = p, ps_main = c\<rparr>" "i < n" "pcs p i \<noteq> Acquire \<or> c = Outside"
    and "worker_step i p = Some p'"
  shows "signal_reach n m \<lparr>ps_pool = p', ps_main = c\<rparr>"
  by (rule signal_reach_pool [OF assms(1)])
    (use assms(2-) signal_step.worker [of i n "\<lparr>ps_pool = p, ps_main = c\<rparr>" p' m] in \<open>auto simp: main_holds_def\<close>)

lemma signal_reach_new: "signal_reach n m \<lparr>ps_pool = new_pool, ps_main = Outside\<rparr>"
  by (rule reach_init) (simp add: new_process_def)

lemma self_locked_reachable:
  assumes "0 < n"
  shows "\<exists>s. signal_reach n m s \<and> self_locked 0 s"
proof -
  let ?p = "goto 0 Acquire new_pool"
  let ?q = "request_stop 0 (notify_all (shutdown_exchange ?p))"
  have "signal_reach n m \<lparr>ps_pool = ?p, ps_main = Outside\<rparr>"
    by (rule signal_reach_worker [OF signal_reach_new assms]) (simp_all add: worker_step_def new_pool_def)
  then have "signal_reach n m \<lparr>ps_pool = ?p, ps_main = Locked 7\<rparr>"
    by (rule signal_reach_call) (simp_all add: new_pool_def)
  then have "signal_reach n m \<lparr>ps_pool = ?q, ps_main = Locked 7\<rparr>"
    by (rule signal_reach_joining) (use assms in \<open>simp_all add: new_pool_def\<close>)
  moreover have "self_locked 0 \<lparr>ps_pool = ?q, ps_main = Locked 7\<rparr>"
    by (simp add: self_locked_def main_holds_def request_stop_def notify_all_def shutdown_exchange_def new_pool_def)
  ultimately show ?thesis by blast
qed

section \<open>A task accepted after \<open>shutdown\<close>\<close>

text \<open>The signal comes between the test of \<open>stop_\<close> and the push, and the only worker is at the head of its
  loop: \<open>shutdown\<close> returns, then \<open>enqueue\<close> pushes the task and returns true, and no one will run it.\<close>

definition late_pool :: pool where
  "late_pool = (join_worker 0 (goto 0 Exited (request_stop 0 (notify_all (shutdown_exchange new_pool)))))\<lparr>shut := Shut\<rparr>"

lemma late_push_reachable:
  assumes "0 < m"
  shows "signal_reach 1 m \<lparr>ps_pool = late_pool, ps_main = Room t\<rparr> \<and>
    signal_reach 1 m \<lparr>ps_pool = push_task t late_pool, ps_main = Notifying\<rparr>"
proof -
  let ?p1 = "request_stop 0 (notify_all (shutdown_exchange new_pool))"
  let ?p2 = "goto 0 Exited ?p1"
  let ?p3 = "join_worker 0 ?p2"
  note def = late_pool_def join_worker_def request_stop_def notify_all_def shutdown_exchange_def new_pool_def
  have crit: "signal_reach 1 m s \<Longrightarrow> \<not> in_handler s \<Longrightarrow> main_holds s \<Longrightarrow> enqueue_step m s = s' \<Longrightarrow> signal_reach 1 m s'"
    for s s' using reach_step [of _ "signal_step 1 m" s s'] signal_step.critical [of s 1 m] by auto
  have "signal_reach 1 m \<lparr>ps_pool = new_pool, ps_main = Locked t\<rparr>"
    by (rule signal_reach_call [OF signal_reach_new]) (simp_all add: new_pool_def)
  then have "signal_reach 1 m \<lparr>ps_pool = new_pool, ps_main = Checked t\<rparr>"
    by (rule crit) (simp_all add: in_handler_def main_holds_def enqueue_step_def new_pool_def)
  then have "signal_reach 1 m \<lparr>ps_pool = new_pool, ps_main = Room t\<rparr>"
    by (rule crit) (use assms in \<open>simp_all add: in_handler_def main_holds_def enqueue_step_def new_pool_def\<close>)
  then have "signal_reach 1 m \<lparr>ps_pool = ?p1, ps_main = Room t\<rparr>"
    by (rule signal_reach_joining) (simp_all add: new_pool_def)
  then have "signal_reach 1 m \<lparr>ps_pool = ?p2, ps_main = Room t\<rparr>"
    by (rule signal_reach_worker [of _ _ _ _ 0]) (simp_all add: worker_step_def def)
  then have "signal_reach 1 m \<lparr>ps_pool = ?p3, ps_main = Room t\<rparr>"
    by (rule signal_reach_pool) (use signal_step.join [of "\<lparr>ps_pool = ?p2, ps_main = Room t\<rparr>" 0 1 m] in
      \<open>simp add: request_stop_def\<close>)
  then have r: "signal_reach 1 m \<lparr>ps_pool = late_pool, ps_main = Room t\<rparr>"
    by (rule signal_reach_pool) (use signal_step.return [of "\<lparr>ps_pool = ?p3, ps_main = Room t\<rparr>" 1 m] in
      \<open>simp add: def lessThan_Suc\<close>)
  then have "signal_reach 1 m \<lparr>ps_pool = push_task t late_pool, ps_main = Pushed\<rparr>"
    by (rule crit) (simp_all add: in_handler_def main_holds_def enqueue_step_def late_pool_def)
  then have "signal_reach 1 m \<lparr>ps_pool = push_task t late_pool, ps_main = Notifying\<rparr>"
    by (rule crit) (simp_all add: in_handler_def main_holds_def enqueue_step_def late_pool_def)
  with r show ?thesis by blast
qed

lemma late_pool_fields:
  "shut late_pool = Shut" "accepted late_pool = []" "started late_pool = []" "pcs late_pool 0 = Exited"
  by (simp_all add: late_pool_def join_worker_def request_stop_def notify_all_def shutdown_exchange_def new_pool_def)

end
