(* ===== verification/Thread_Pool_Props.thy ===== *)
theory Thread_Pool_Props
  imports Thread_Pool_Progress Thread_Pool_Signal
begin

text \<open>
  The properties of the thread pool, for any number of workers, any queue bound and any
  schedule, then the two schedules in which \<open>shutdown\<close> does not do what its users expect.
\<close>

text \<open>A state with a running task, for the witnesses: one worker, a queue of one, task 7.\<close>

definition busy_pool :: pool where
  "busy_pool = new_pool\<lparr>pcs := (\<lambda>_. At_loop)(0 := Running 7), accepted := [7], started := [7],
     notifies := 1, active_count := 1\<rparr>"

lemma busy_reach: "pool_reach 1 1 busy_pool"
proof -
  let ?s1 = "new_pool\<lparr>tasks := [7], accepted := [7], notifies := 1\<rparr>"
  let ?s2 = "goto 0 Acquire ?s1"
  let ?s3 = "goto 0 In_wait (?s2\<lparr>mutex := Some 0\<rparr>)"
  let ?s4 = "goto 0 Woken ?s3"
  let ?s5 = "goto 0 (Taken 7) (?s4\<lparr>tasks := [], started := [7], mutex := None\<rparr>)"
  let ?s6 = "goto 0 (Running 7) (?s5\<lparr>active_count := 1\<rparr>)"
  have "pool_reach 1 1 new_pool" by (rule reach_init) simp
  then have "pool_reach 1 1 ?s1"
    by (rule reach_step) (rule pool_step.enqueue [of 1 7 _ True], simp add: enqueue_def new_pool_def)
  then have "pool_reach 1 1 ?s2"
    by (rule reach_worker [of _ _ _ 0]) (simp_all add: worker_step_def new_pool_def)
  then have "pool_reach 1 1 ?s3"
    by (rule reach_worker [of _ _ _ 0]) (simp_all add: worker_step_def new_pool_def)
  then have "pool_reach 1 1 ?s4"
    by (rule reach_worker [of _ _ _ 0]) (simp_all add: worker_step_def wait_predicate_def)
  then have "pool_reach 1 1 ?s5"
    by (rule reach_worker [of _ _ _ 0]) (simp_all add: worker_step_def take_task_def new_pool_def)
  then have "pool_reach 1 1 ?s6"
    by (rule reach_worker [of _ _ _ 0]) (simp_all add: worker_step_def new_pool_def)
  moreover have "?s6 = busy_pool"
    by (simp add: busy_pool_def new_pool_def goto_def fun_eq_iff)
  ultimately show ?thesis by simp
qed

text \<open>C13. Every accepted task is started at most once and in the order of acceptance: what has been
  started, followed by what is queued, is exactly what \<open>enqueue\<close> accepted, and the queue never
  exceeds its bound.\<close>

theorem pool_fifo:
  assumes "pool_reach n m s"
  shows "accepted s = started s @ tasks s \<and> length (tasks s) \<le> m \<and>
    (mutex s = None \<longrightarrow> queue_size s = Some (length (tasks s)))"
  using pool_reach_inv [OF assms] by (simp add: pool_count_def queue_size_def)

theorem pool_fifo_witness: "accepted busy_pool = started busy_pool @ tasks busy_pool \<and> queue_size busy_pool = Some 0"
  using pool_fifo [OF busy_reach] by (simp add: busy_pool_def new_pool_def)

text \<open>At most one worker is in the critical section, and the active count is the number of workers
  that run a task.\<close>

theorem pool_mutual_exclusion:
  assumes "pool_reach n m s"
  shows "(\<forall>i j. holds_mutex (pcs s i) \<longrightarrow> holds_mutex (pcs s j) \<longrightarrow> i = j) \<and>
    active_workers s = (\<Sum>i<n. runs (pcs s i)) \<and> active_workers s \<le> n"
proof -
  have "(\<Sum>i<n. runs (pcs s i)) \<le> (\<Sum>i<n. 1)" by (rule sum_mono) (simp add: runs_def split: pc.split)
  with pool_reach_inv [OF assms] show ?thesis
    by (auto simp: pool_inv_def pool_count_def running_def active_workers_def)
qed

theorem pool_mutual_exclusion_witness: "active_workers busy_pool = (\<Sum>i<1. runs (pcs busy_pool i))"
  using pool_mutual_exclusion [OF busy_reach] by simp

text \<open>C25. A running pool serves everyone.  Left alone, it comes to rest under every schedule of its workers and
  of the notifications on their way, within eight steps per task and notification and seven per
  worker, spurious wake-ups apart; at rest every accepted task has been run to its end and all
  workers sleep, with no notification lost.\<close>

theorem pool_serves_all:
  assumes "pool_reach n m s" "is_running s" "0 < n" "(serving_step n ^^ k) s s'"
  shows "k \<le> 8 * (length (tasks s) + notifies s) + 7 * n \<and>
    ((\<forall>s''. \<not> serving_step n s' s'') \<longrightarrow>
       tasks s' = [] \<and> mset (finished s') = mset (accepted s) \<and> (\<forall>i<n. pcs s' i = Waiting))"
proof -
  have run: "\<not> stop s" using assms(2) by (simp add: is_running_def)
  note st = serving_steps [OF assms(4,1) run]
  have "tasks s' = [] \<and> mset (finished s') = mset (accepted s') \<and> (\<forall>i<n. pcs s' i = Waiting)"
    if "\<forall>s''. \<not> serving_step n s' s''"
    by (rule at_rest_done [of n m]) (use st that assms(3) in auto)
  with st to_do_bound [of n s] show ?thesis by simp
qed

theorem pool_serves_all_witness:
  "\<exists>s'. serving_step 1 busy_pool s' \<and> finished s' = [7] \<and>
     1 \<le> 8 * (length (tasks busy_pool) + notifies busy_pool) + 7 * 1"
proof -
  let ?s = "goto 0 At_loop (busy_pool\<lparr>active_count := 0, finished := [7]\<rparr>)"
  have step: "serving_step 1 busy_pool ?s"
    by (rule serving_step.worker [of 0]) (simp_all add: worker_step_def busy_pool_def new_pool_def)
  then have "(serving_step 1 ^^ 1) busy_pool ?s" by (simp only: relpowp_1)
  from pool_serves_all [OF busy_reach _ _ this] step show ?thesis
    by (auto simp: is_running_def busy_pool_def new_pool_def)
qed

text \<open>No task is forgotten while the pool runs: as long as \<open>shutdown\<close> has not been called, a task in
  the queue has a notification on its way or a worker that is awake, still in its loop, and will
  look at the queue before it sleeps.\<close>

theorem pool_no_lost_wakeup:
  assumes "pool_reach n m s" "is_running s" "tasks s \<noteq> []" "0 < n"
  shows "0 < notifies s \<or> (\<exists>i<n. pcs s i \<notin> {Waiting, Blocking, Exited})"
proof (cases "notifies s = 0")
  case True
  with assms pool_reach_inv [OF assms(1)] obtain i where "i < n" "pcs s i \<noteq> Waiting"
    by (auto simp: pool_awake_def is_running_def)
  moreover have "pcs s i \<noteq> Blocking" "pcs s i \<noteq> Exited"
    using assms pool_reach_inv [OF assms(1)] by (auto simp: pool_inv_def is_running_def)
  ultimately show ?thesis by blast
qed simp

theorem pool_no_lost_wakeup_witness:
  "0 < notifies (new_pool\<lparr>tasks := [7], accepted := [7], notifies := 1\<rparr>) \<or>
   (\<exists>i<1. pcs (new_pool\<lparr>tasks := [7], accepted := [7], notifies := 1\<rparr>) i \<notin> {Waiting, Blocking, Exited})"
proof -
  have "pool_reach 1 1 new_pool" by (rule reach_init) simp
  then have "pool_reach 1 1 (new_pool\<lparr>tasks := [7], accepted := [7], notifies := 1\<rparr>)"
    by (rule reach_step) (rule pool_step.enqueue [of 1 7 _ True], simp add: enqueue_def new_pool_def)
  then show ?thesis by (rule pool_no_lost_wakeup) (simp_all add: is_running_def new_pool_def)
qed

text \<open>C26. When \<open>shutdown\<close> has returned, all workers have returned, every task that was started has been
  run to its end, and none is active.\<close>

theorem pool_shutdown_complete:
  assumes "pool_reach n m s" "shut s = Shut"
  shows "(\<forall>i<n. pcs s i = Exited) \<and> mset (started s) = mset (finished s) \<and> active_count s = 0"
  using pool_reach_inv [OF assms(1)] shut_exited [OF _ assms(2), of n] in_hand_empty [of n s]
  by (auto simp: pool_count_def)

theorem pool_shutdown_complete_witness:
  "\<exists>s :: pool. shut s = Shut \<and> accepted s = [7] \<and> (\<forall>i<1. pcs s i = Exited) \<and> mset (started s) = mset (finished s)"
proof -
  obtain s where s: "pool_reach 1 1 s" "shut s = Shut" "accepted s = [7]"
    using dropped_task [of 1 7, OF zero_less_one] by (elim exE conjE)
  from s(3) pool_shutdown_complete [OF s(1,2)] s(2) show ?thesis by (intro exI [of _ s]) simp
qed



text \<open>C38. \<open>shutdown\<close> can hang: a worker that has found the predicate of its wait false and not yet
  blocked misses \<open>notify_all\<close>, since \<open>stop_\<close> is set without the mutex; the state in which it
  sleeps and is being joined is reachable, and nothing but a spurious wake-up leads out of it.\<close>

theorem pool_shutdown_deadlock: "\<exists>s. pool_reach 1 m s \<and> deadlocked 1 m s"
  using missed_wakeup_reachable missed_wakeup_deadlocked by blast

text \<open>\<open>shutdown\<close> can drop tasks: a worker at the head of its loop sees the stop request and returns
  without looking at the queue, so a task that was accepted is never run.\<close>

theorem pool_drops_tasks:
  "\<exists>s. pool_reach 1 (Suc m) s \<and> shut s = Shut \<and> accepted s = [t] \<and> started s = []"
  using dropped_task [of "Suc m" t] by auto

text \<open>C28. \<open>enqueue\<close> takes effect at once.  Taken apart into its calls, with signals between any two of them and
  \<open>shutdown\<close> running on the same thread in their handler, it is an atomic \<open>enqueue\<close> of the pool that
  takes effect where it finds \<open>stop_\<close> unset (the state with the task that is pending counted in is one the
  pool's own steps reach); when it is not in the critical section there is nothing pending; and while
  it is, no worker is.\<close>

theorem enqueue_atomic:
  assumes "signal_reach n m s"
  shows "pool_reach n m (linearized m s) \<and>
    (\<not> main_holds s \<longrightarrow> linearized m s = ps_pool s) \<and>
    (main_holds s \<longrightarrow> (\<forall>i. \<not> holds_mutex (pcs (ps_pool s) i)))"
proof -
  have "main_inv n m s" by (rule interrupted.conc.reach_inv [OF assms])
  then show ?thesis
    using interrupted.reach_abs [OF assms] linearized_outside [of s m]
    by (simp add: main_inv_def pool_inv_def)
qed

theorem enqueue_atomic_witness:
  "pool_reach 1 4 (push_task 7 late_pool) \<and> (\<forall>i. \<not> holds_mutex (pcs late_pool i))"
proof -
  have "signal_reach 1 4 \<lparr>ps_pool = late_pool, ps_main = Room 7\<rparr>" using late_push_reachable [of 4 7] by simp
  from enqueue_atomic [OF this] show ?thesis
    by (simp add: linearized_def pending_push_def main_holds_def)
qed

text \<open>A signal between the test of \<open>stop_\<close> and the push: \<open>shutdown\<close> returns with nothing accepted, and \<open>enqueue\<close>
  accepts a task afterwards, which no worker is left to run.\<close>

theorem enqueue_after_shutdown:
  "\<exists>s s'. signal_reach 1 (Suc m) s \<and> shut (ps_pool s) = Shut \<and> accepted (ps_pool s) = [] \<and>
     signal_step 1 (Suc m) s s' \<and> accepted (ps_pool s') = [t] \<and> pcs (ps_pool s') 0 = Exited"
proof -
  let ?s = "\<lparr>ps_pool = late_pool, ps_main = Room t\<rparr>"
  have "signal_step 1 (Suc m) ?s (enqueue_step (Suc m) ?s)"
    by (rule signal_step.critical) (simp_all add: in_handler_def main_holds_def late_pool_fields)
  then show ?thesis
    using late_push_reachable [of "Suc m" t]
    by (intro exI [of _ ?s] exI [of _ "enqueue_step (Suc m) ?s"])
      (simp add: enqueue_step_def late_pool_fields)
qed

text \<open>C37. A signal can hang the process.  There is a state, reachable with one worker or more, in which
  \<open>shutdown\<close>, in the handler of a signal that came while \<open>enqueue\<close> held the mutex, joins a worker that waits
  for that mutex; and whatever any thread does from there, spurious wake-ups and more signals included,
  the main thread keeps the mutex, the worker keeps waiting for it, and \<open>shutdown\<close> keeps joining the worker.\<close>

theorem signal_deadlock:
  assumes "0 < n"
  shows "\<exists>s. signal_reach n m s \<and>
    (\<forall>s'. (signal_step n m)\<^sup>*\<^sup>* s s' \<longrightarrow>
       main_holds s' \<and> stop (ps_pool s') \<and> shut (ps_pool s') = Joining 0 \<and> pcs (ps_pool s') 0 = Acquire)"
proof -
  obtain s where s: "signal_reach n m s" "self_locked 0 s" using self_locked_reachable [OF assms] by blast
  have "self_locked 0 s'" if "(signal_step n m)\<^sup>*\<^sup>* s s'" for s'
    by (rule self_locked_for_ever [OF that s(2)])
  with s(1) show ?thesis by (auto simp: self_locked_def)
qed

theorem signal_deadlock_witness:
  "\<exists>s. signal_reach 4 256 s \<and> main_holds s \<and> shut (ps_pool s) = Joining 0 \<and> pcs (ps_pool s) 0 = Acquire"
  using signal_deadlock [of 4 256] by auto

end
