(* ===== verification/Message_Props.thy ===== *)
theory Message_Props
  imports Http_Serializer Server_Config
begin

text \<open>
  The properties of what the program writes and what it is started with: responses read back,
  the date, the command line.
\<close>

text \<open>C36. Response framing round trip: whatever follows a serialized response on the connection, a
  client that reads lines to the empty one and then \<open>Content-Length\<close> bytes gets back the status
  line, all headers (the server's four and the response's own) and exactly the body, and is left
  at the first byte after it.\<close>

theorem serialize_read_back:
  assumes "safe_response r" "length (rs_body r) < 2 ^ 64"
  shows "read_response (serialize now r @ rest) =
    Some (status_line r, message_headers now r, rs_body r, rest)"
  using assms by (rule read_response_serialize)

theorem serialize_read_back_witness:
  "read_response (serialize 0 (json ''{}'') @ ''HTTP'') =
     Some (''HTTP/1.1 200 OK'', message_headers 0 (json ''{}''), ''{}'', ''HTTP'')"
proof -
  have "status_line (json ''{}'') = ''HTTP/1.1 200 OK''"
    by (simp add: status_line_def to_string.simps digit_char_def char_of_def bit_0)
  moreover have "safe_response (json ''{}'')" by (rule safe_factories)
  ultimately show ?thesis using serialize_read_back [of "json ''{}''" 0 "''HTTP''"] by simp
qed

text \<open>Until the year 9987 the date is one line of exactly 29 characters, as HTTP prescribes
  (\<open>Sun, 06 Nov 1994 08:49:37 GMT\<close>).\<close>

theorem date_shape:
  assumes "t < 253000000000"
  shows "length (format_date t) = 29 \<and> CR \<notin> set (format_date t)"
  using assms format_date_length format_date_no_cr by blast

theorem date_shape_witness:
  "length (format_date 784111777) = 29 \<and> format_date 784111777 = ''Sun, 06 Nov 1994 08:49:37 GMT''"
  using date_shape [of 784111777] format_date_rfc by simp

text \<open>Command line round trip: the options printed for a configuration are parsed back to it.\<close>

theorem config_round_trip:
  assumes "expressible c"
  shows "parse_args (command_line c) = Parsed c"
  using assms by (rule parse_command_line)

theorem config_round_trip_witness:
  "parse_args (command_line (default_config\<lparr>port := 65535, num_workers := 0, enable_keepalive := False\<rparr>)) =
     Parsed (default_config\<lparr>port := 65535, num_workers := 0, enable_keepalive := False\<rparr>)"
  by (rule config_round_trip) (simp add: expressible_def default_config_def)

text \<open>A port outside 16 bits is not refused but wraps: 65536 more is the same port.\<close>

theorem port_wraps:
  assumes "n < 2 ^ 31 - 2 ^ 16"
  shows "parse_args [''--port'', to_string (n + 65536)] = parse_args [''--port'', to_string n]"
proof -
  have "(of_nat (n + 65536) :: uint16_t) = of_nat n"
    by (simp only: word_of_nat_eq_iff) (simp add: take_bit_eq_mod)
  with assms show ?thesis by (simp add: parse_port_wraps)
qed

theorem port_wraps_witness:
  "parse_args [''--port'', to_string (8080 + 65536)] = parse_args [''--port'', to_string 8080]"
  by (rule port_wraps) simp

end
