(* ===== verification/Net_Props.thy ===== *)
theory Net_Props
  imports Net_Connection Net_Listener
begin

text \<open>
  The properties of the socket layer: ownership of descriptors, the three readers and the writer.
\<close>

text \<open>C34. Whatever a program does with \<open>Socket\<close> objects (construct, move, assign, close, destroy), no
  descriptor is ever closed twice or closed while not open, and every open descriptor has
  exactly one owner.\<close>

theorem socket_ownership:
  assumes "reach (\<lambda>w. w = empty_store) sock_step w"
  shows "bad_closes w = 0 \<and> (\<forall>fd\<in>open_fds w. \<exists>!i. objs w i = Some fd)"
proof -
  have inv: "own_inv w" using assms by (rule sockets.reach_inv)
  show ?thesis
  proof (intro conjI ballI)
    show "bad_closes w = 0" by (rule own_no_bad [OF inv])
  next
    fix fd
    assume fd: "fd \<in> open_fds w"
    then have "fd \<noteq> -1" using own_no_minus [OF inv] by auto
    then show "\<exists>!i. objs w i = Some fd"
      using own_owner [OF inv fd] own_unique [OF inv] by blast
  qed
qed

theorem socket_ownership_witness:
  "\<exists>!i. objs (socket_move_new 1 0 (socket_create 0 3 empty_store)) i = Some 3"
proof -
  have "reach (\<lambda>w. w = empty_store) sock_step (socket_create 0 3 empty_store)"
    by (rule reach_step, rule reach_init [where s = empty_store], simp)
      (rule sock_step.create, simp_all add: empty_store_def)
  then have "reach (\<lambda>w. w = empty_store) sock_step (socket_move_new 1 0 (socket_create 0 3 empty_store))"
    by (rule reach_step) (rule sock_step.move_new, simp_all add: empty_store_def)
  from socket_ownership [OF this] show ?thesis
    by (simp add: socket_move_new_def socket_create_def socket_new_def)
qed

text \<open>\<open>read_until\<close>: what it hands out ends at the first occurrence of the delimiter, however the
  stream was cut, and together with what the connection keeps and what the kernel still holds
  it is exactly the stream.  If it fails, nothing is lost.\<close>

theorem read_until_first_delimiter:
  assumes "is_open c" "read_until d m c io = (Returns res, c', io')"
  shows "case res of
      Some b \<Rightarrow> delimited d b \<and> read_buffer c @ pending io = b @ read_buffer c' @ pending io'
    | None \<Rightarrow> read_buffer c @ pending io = read_buffer c' @ pending io'"
proof (cases "find_str d (read_buffer c)")
  case None
  then have "read_until_loop d m c io = (Returns res, c', io')"
    using assms by (simp add: read_until_def)
  from read_until_loop_spec [OF None this] show ?thesis by (simp add: read_until_keeps_def split: option.splits)
next
  case (Some i)
  with assms find_str_cut [OF Some] show ?thesis
    by (auto simp: read_until_def append_assoc [symmetric] simp del: append_assoc)
qed

theorem read_until_first_delimiter_witness:
  "let c = \<lparr>conn_fd = 5, read_buffer = []\<rparr>;
       io = \<lparr>inq = [RBytes ''GET /'', RIntr, RBytes [CR], RBytes [LF, CHR ''x'']], outq = [], wire = [],
             rcv_timeo = 30, snd_timeo = 30, nonblock = False\<rparr> in
   \<exists>b c' io'. read_until CRLF 8192 c io = (Returns (Some b), c', io') \<and> delimited CRLF b \<and>
     b @ read_buffer c' @ pending io' = ''GET /'' @ CRLF @ ''x''"
proof -
  define c where "c = \<lparr>conn_fd = 5, read_buffer = []\<rparr>"
  define io where "io = \<lparr>inq = [RBytes ''GET /'', RIntr, RBytes [CR], RBytes [LF, CHR ''x'']], outq = [],
    wire = [], rcv_timeo = 30, snd_timeo = 30, nonblock = False\<rparr>"
  have "\<exists>b c' io'. read_until CRLF 8192 c io = (Returns (Some b), c', io')"
    by (simp add: read_until_def read_until_loop.simps is_open_def is_valid_def sys_recv_def
        CHUNK_SIZE_def c_def io_def Let_def find_str_from_def)
  then obtain b c' io' where r: "read_until CRLF 8192 c io = (Returns (Some b), c', io')" by blast
  have "is_open c" by (simp add: c_def is_open_def is_valid_def)
  from read_until_first_delimiter [OF this r] r show ?thesis
    by (auto simp: c_def [symmetric] io_def [symmetric] Let_def)
      (simp add: c_def io_def pending_def event_bytes_def)
qed

text \<open>\<open>read_all\<close> returns the next bytes of the stream in order, at most as many as asked for,
  and leaves the rest.\<close>

theorem read_all_prefix:
  assumes "read_all c n io = (Returns (Got bs), io')"
  shows "pending io = bs @ pending io' \<and> length bs \<le> n"
  using assms read_all_loop_bytes [of n "[]" io bs io']
  by (auto simp: read_all_def split: if_splits)

theorem read_all_prefix_witness:
  "let io = \<lparr>inq = [RBytes ''ab'', RBytes ''cd''], outq = [], wire = [], rcv_timeo = 0, snd_timeo = 0, nonblock = False\<rparr> in
   \<exists>bs io'. read_all \<lparr>conn_fd = 5, read_buffer = []\<rparr> 3 io = (Returns (Got bs), io') \<and>
     ''abcd'' = bs @ pending io' \<and> length bs \<le> 3"
proof -
  define io where "io = \<lparr>inq = [RBytes ''ab'', RBytes ''cd''], outq = [], wire = [], rcv_timeo = 0, snd_timeo = 0, nonblock = False\<rparr>"
  have "\<exists>bs io'. read_all \<lparr>conn_fd = 5, read_buffer = []\<rparr> 3 io = (Returns (Got bs), io')"
    by (simp add: read_all_def read_all_loop.simps is_open_def is_valid_def sys_recv_def io_def)
  then obtain bs io' where r: "read_all \<lparr>conn_fd = 5, read_buffer = []\<rparr> 3 io = (Returns (Got bs), io')"
    by blast
  moreover have "pending io = ''abcd''" by (simp add: io_def pending_def event_bytes_def)
  ultimately show ?thesis using read_all_prefix [OF r] unfolding Let_def io_def [symmetric] by auto
qed

text \<open>C35. \<open>write_all\<close> puts a prefix of the data on the wire, nothing else and nothing twice, whatever
  interruptions and partial writes it meets; if it returns true the prefix is all of it.\<close>

theorem write_all_exact:
  assumes "is_open c" "write_all c d io = (r, io')"
  shows "\<exists>n\<le>length d. wire io' = wire io @ take n d \<and> (r = Returns True \<longrightarrow> n = length d)"
  using assms write_loop_prefix [of d io r io']
  by (auto simp: write_all_def split: if_splits)

theorem write_all_exact_witness:
  "let io = \<lparr>inq = [], outq = [SRoom 2, SIntr, SRoom 1, SFail], wire = [], rcv_timeo = 0, snd_timeo = 0, nonblock = False\<rparr> in
   \<exists>n\<le>5. wire (snd (write_all \<lparr>conn_fd = 5, read_buffer = []\<rparr> ''hello'' io)) = take n ''hello''"
proof -
  define io where "io = \<lparr>inq = [], outq = [SRoom 2, SIntr, SRoom 1, SFail], wire = [], rcv_timeo = 0, snd_timeo = 0, nonblock = False\<rparr>"
  obtain r io' where w: "write_all \<lparr>conn_fd = 5, read_buffer = []\<rparr> ''hello'' io = (r, io')"
    by (cases "write_all \<lparr>conn_fd = 5, read_buffer = []\<rparr> ''hello'' io")
  have "is_open \<lparr>conn_fd = 5, read_buffer = []\<rparr>" by (simp add: is_open_def is_valid_def)
  from write_all_exact [OF this w] obtain n where "n \<le> length ''hello''" "wire io' = wire io @ take n ''hello''"
    by blast
  moreover have "wire io = []" by (simp add: io_def)
  ultimately show ?thesis
    unfolding Let_def io_def [symmetric] w snd_conv by (intro exI [of _ n]) simp
qed

text \<open>Delivery: if every call of \<open>send\<close> is interrupted or takes at least one byte, and there are
  as many taking calls as bytes, \<open>write_all\<close> returns true and everything is on the wire.\<close>

theorem write_all_progress:
  assumes "is_open c" "list_all makes_progress (outq io)" "length d \<le> rooms (outq io)"
  shows "\<exists>io'. write_all c d io = (Returns True, io') \<and> wire io' = wire io @ d"
  using write_loop_delivers [OF assms(2,3)] assms(1) by (cases "d = []") (auto simp: write_all_def)

theorem write_all_progress_witness:
  "\<exists>io'. write_all \<lparr>conn_fd = 5, read_buffer = []\<rparr> ''hi''
     \<lparr>inq = [], outq = [SIntr, SRoom 1, SIntr, SRoom 7], wire = ''x'', rcv_timeo = 0, snd_timeo = 0, nonblock = False\<rparr> =
       (Returns True, io') \<and> wire io' = ''xhi''"
  using write_all_progress [of "\<lparr>conn_fd = 5, read_buffer = []\<rparr>"
    "\<lparr>inq = [], outq = [SIntr, SRoom 1, SIntr, SRoom 7], wire = ''x'', rcv_timeo = 0, snd_timeo = 0, nonblock = False\<rparr>" "''hi''"]
  by (simp add: is_open_def is_valid_def makes_progress_def rooms_def)

text \<open>A peer that has gone kills the process: \<open>write_all\<close> calls \<open>send\<close> without \<open>MSG_NOSIGNAL\<close>, so a
  first write to it raises SIGPIPE; with the flag, as the epoll server has it, no write does.\<close>

theorem write_all_sigpipe:
  "fst (write_all \<lparr>conn_fd = 5, read_buffer = []\<rparr> (b # d) (io\<lparr>outq := [SPipe]\<rparr>)) = Killed_by_SIGPIPE \<and>
   fst (sys_send True (b # d) (io\<lparr>outq := [SPipe]\<rparr>)) = Returns (Inl EOTHER)"
  by (simp add: write_all_def is_open_def is_valid_def write_loop.simps [of "b # d"] sys_send_def)

end
