(* ===== verification/Spec2Isabelle.thy ===== *)
theory Spec2Isabelle
  imports Epoll_Props Front_End Baseline_Props Server_Props World_Props Thread_Pool_Props Http_Parser_Props Router_Props Message_Props
    Net_Props
begin

text \<open>
  A model of the HTTP/1.1 server in \<open>src/\<close> and the theorems that make it correct.

  \<^bold>\<open>The program.\<close>  A client's bytes come in through \<open>net::Connection\<close> (\<open>src/net\<close>), are parsed
  incrementally by \<open>http::HttpParser\<close> (\<open>src/http\<close>), answered by \<open>router::Router\<close> (\<open>src/router\<close>) and
  written back as \<open>http::HttpSerializer\<close> prints them.  Three servers (\<open>src/server\<close>) drive this:
  \<open>Server\<close> with a pool of workers (\<open>accept_loop\<close>, \<open>ThreadPool\<close>), \<open>Server\<close> with one thread per
  client (\<open>accept_loop_baseline\<close>), and \<open>EpollServer\<close>, one thread over non-blocking sockets.
  \<open>main\<close> reads the command line (\<open>Config\<close>), sets up the default routes and starts a \<open>Server\<close>.

  \<^bold>\<open>The model.\<close>  State is passed explicitly; a loop is a recursive function with a termination proof,
  and what can wait or throw says so in its result.  The kernel is a script: what \<open>recv\<close> and \<open>send\<close>
  will meet (\<open>net_io\<close>), what \<open>accept\<close>, \<open>socket\<close>, \<open>bind\<close> return, what \<open>epoll_wait\<close> reports.  The file
  system, the clock and the handlers of a router are arguments.  The theories, in the order of the code:

  \<^item> \<open>Prelude\<close>, \<open>Cpp_Std\<close>: bytes and lines, the invariant principle of step relations (\<open>reach\<close>, the
    locales \<open>invariant_system\<close>, \<open>layered_invariant\<close> and, for a component inside a larger system,
    \<open>refinement_mapping\<close>); the standard library's string searches,
    \<open>isspace\<close>, \<open>tolower\<close>, \<open>stoi\<close>, \<open>stoull\<close>, \<open>to_string\<close> and \<open>unordered_map\<close>.
  \<^item> \<open>Http_Status\<close>, \<open>Http_Request\<close>, \<open>Http_Response\<close>, \<open>Http_Serializer\<close>: the messages
    (\<open>src/http/status.cpp\<close>, \<open>request.cpp\<close>, \<open>response.cpp\<close>, \<open>serializer.cpp\<close>) and a client's reader of
    responses, which inverts the serializer.
  \<^item> \<open>Http_Parser\<close> (\<open>src/http/parser.cpp\<close>: \<open>feed\<close> and one function per state); \<open>Http_Parser_Inv\<close>, its
    invariant by state; \<open>Http_Parser_Chunks\<close>, feeding in pieces; \<open>Http_Grammar\<close>, the language of requests
    and the proof that \<open>feed\<close> decides it; \<open>Http_Parser_Roundtrip\<close>, a printer of requests;
    \<open>Http_Parser_Props\<close>, the properties.
  \<^item> \<open>Router\<close> (\<open>src/router/router.cpp\<close>) with the declarative \<open>route_spec\<close>, and \<open>Router_Props\<close>;
    \<open>Message_Props\<close> on messages and the command line.
  \<^item> \<open>Net_Socket\<close>, \<open>Net_Listener\<close>, \<open>Net_Connection\<close> (\<open>src/net\<close>): the store of \<open>Socket\<close> objects and open
    descriptors, with the invariant \<open>own_inv\<close> that they correspond one to one; the read and write loops
    (locale \<open>byte_source\<close> for the law of \<open>recv\<close>); \<open>Net_Props\<close>.
  \<^item> \<open>Server_Config\<close> (\<open>src/server/config.cpp\<close>); \<open>Server_Connection\<close>: \<open>setup_routes\<close>,
    \<open>handle_connection\<close>, and the specification \<open>dialogue\<close> of what one connection may say, as an
    inductive predicate free of sockets and buffers; \<open>Server_Conversation\<close>: a well-behaved client in
    segments that are fair to the parser (\<open>fair_chunks\<close>), and the locale \<open>application\<close>; \<open>Sample_Client\<close>, an example.
  \<^item> \<open>Thread_Pool\<close> (\<open>src/server/thread_pool.cpp\<close>): workers as program counters, the step relation of
    all interleavings, invariant and counting in two layers; \<open>Thread_Pool_Shutdown\<close>, how \<open>shutdown\<close>
    ends, all threads counted; \<open>Thread_Pool_Progress\<close>, a running pool left alone; \<open>Thread_Pool_Signal\<close>,
    \<open>enqueue\<close> call by call (lock, the two checks, the push, unlock, notify) with the signal handler of
    \<open>src/main.cpp\<close> between any two of them: a refinement of the pool with the effect of \<open>enqueue\<close> at its test of
    \<open>stop_\<close>; \<open>Thread_Pool_Props\<close>.
  \<^item> \<open>Server\<close> (\<open>src/server/server.cpp\<close> with the pool) and \<open>Server_Baseline\<close> (one thread per client, and
    \<open>src/main.cpp\<close>): who owns which socket at every step.  \<open>Server_Clients\<close>: every socket has exactly one
    holder, and the pool inside the server is the pool of \<open>Thread_Pool\<close>; \<open>Server_Refusal\<close>: the accept loop
    taken apart where it writes its 503, which refines \<open>Server\<close>; \<open>Server_Props\<close>.
  \<^item> \<open>Server_World\<close>: the server with the streams of its clients, each served by \<open>handle_connection\<close>
    in a worker's task; it refines \<open>Server\<close>.  \<open>World_Progress\<close>: everyone is served in
    the end; \<open>World_Props\<close>: what a client can rely on.
  \<^item> \<open>Baseline_World\<close>, \<open>Baseline_Props\<close>: the same for the server without a pool, a thread and a stream for
    every client, as a refinement of \<open>Server_Baseline\<close>; and how its loop ends.
  \<^item> \<open>Threaded_Service\<close>: what these two servers promise a client, proved once in the locale
    \<open>threaded_service\<close> and interpreted on both.
  \<^item> \<open>Epoll_Server\<close> (\<open>src/server/epoll_server.cpp\<close>, every member function, with the epoll descriptor among those
    that are open and the blocking mode of each socket); \<open>Epoll_Inv\<close>, the invariant;
    \<open>Epoll_Handlers\<close> and \<open>Epoll_Events\<close>, every handler and the loop keep it; \<open>Epoll_Props\<close>.
  \<^item> \<open>Front_End\<close>: the contract both servers owe a client (locale \<open>front_end\<close>), what follows for a
    client that reads responses, and its interpretation on both.
  \<^item> This theory: one connection end to end, both servers seen by a client, the descriptors of the server
    without a pool, the program.

  \<^bold>\<open>What is shown.\<close>  One specification, \<open>dialogue\<close>, is refined by the threaded handler
  (\<open>connection_protocol\<close>), by the whole server with all its clients and schedules (\<open>server_protocol\<close>)
  and by the event loop (\<open>epoll_protocol\<close>); a client gets exactly the application's answers
  (\<open>client_conversation\<close>, \<open>server_conversation\<close>, \<open>epoll_answers_request\<close>) and can take any stream
  apart again (\<open>both_servers_readable\<close>).  No client is lost, served twice or mixed up with another
  (\<open>clients_accounted\<close>), and nobody waits for ever (\<open>every_client_served\<close>); the server without a
  pool keeps the same promises (\<open>baseline_serves_each\<close>, \<open>baseline_loop_ends\<close>), unless an exception leaves a
  thread, which ends the process (\<open>baseline_exception_fatal\<close>).  The parser decides its grammar (\<open>feed_decides_grammar\<close>), independently of
  segmentation up to one documented fault.  Descriptors are never leaked or closed twice, in any of the
  three servers, the epoll instance included, and bounded in the one with a pool.  The pool is first-in first-out, bounded and
  runs every task it has accepted while it runs (\<open>pool_serves_all\<close>); its shutdown ends if no worker is
  just about to fall asleep (\<open>shutdown_returns\<close>), and the schedules in which it does not, or in which it
  leaves a task behind, are exhibited, two of them signals inside \<open>enqueue\<close>.  Handlers do not wait for ever: with time limits in the threaded server, without
  any in the event loop.

  \<^bold>\<open>Bounds.\<close>  There is no fuel.  Recursion ends by a measure: the buffer for the header loop, the rank of
  the state for \<open>feed\<close>, the script for the socket loops, the requests left for a connection.  \<open>size_t\<close>
  is \<open>64 word\<close> and \<open>uint16_t\<close> is \<open>16 word\<close> where they wrap (\<open>Content-Length\<close>, the port); lengths of
  strings are \<open>nat\<close>, and \<open>int\<close> counters are \<open>int\<close>: \<open>request_count\<close> stays below an \<open>int\<close> limit, and
  \<open>header_count_\<close> below 100.

  \<^bold>\<open>Not modelled.\<close>  Diagnostics on \<open>std::cerr\<close>; allocation failure; a signal that the kernel delivers to
  a worker instead of the main thread.  A step is a whole operation, except in \<open>ThreadPool\<close>, whose
  workers step between lock, wait and unlock, with \<open>enqueue\<close> taken apart call by call and signals between
  any two of its calls (\<open>Thread_Pool_Signal\<close>), and in the accept loop, which can stand in the \<open>write_all\<close> of
  its 503 (\<open>Server_Refusal\<close>); a handler is one step of \<open>Server_World\<close> and of \<open>Baseline_World\<close>, since only its thread touches its
  stream; \<open>EpollServer::stop\<close> comes between two rounds of events, since in a round it would race with
  the handlers.  The results of the calls that have no way to fail as they are made, and that the code ignores, are not
  arguments: \<open>fcntl\<close> with \<open>O_NONBLOCK\<close> and \<open>setsockopt\<close> of the two time limits on open descriptors.
  The file system does not change while the server runs.  The order of
  \<open>unordered_map\<close> is that of one list; the exact text of \<open>std::filesystem\<close>'s canonical paths is a
  parameter.  Tests, benchmarks and the build are left out.
\<close>

section \<open>One connection\<close>

text \<open>C5. End to end: a client that sends well-formed requests within the limits, no two of them in one segment,
  and reads what it is sent gets on the wire exactly the responses of the application to its requests,
  in order, each serialized once, up to the first that closes the connection or to the limit of
  requests per connection, however its segments are cut, but for one restriction: in a request of more
  than 8192 bytes no segment but the last ends in a CR (\<open>fair_chunks\<close>).\<close>

theorem client_conversation:
  assumes "client_fd \<noteq> -1" "list_all2 delivers msgs css" "inq io = map RBytes (concat css)"
    and "reply = transcript clock 0 (answers (route fs router) config
        (take (nat (max_requests_per_conn config)) (map message_request msgs)))"
    and "list_all makes_progress (outq io)" "length reply \<le> rooms (outq io)"
  shows "wire (snd (handle_connection fs clock config router client_fd io)) = wire io @ reply"
  using assms by (rule handle_connection_conversation)

theorem client_conversation_witness:
  "\<exists>reply out. wire (snd (handle_connection sample_fs (\<lambda>_. 0) default_config (default_router default_config) 5
     \<lparr>inq = [RBytes (message_bytes health_message)], outq = out, wire = [], rcv_timeo = 0, snd_timeo = 0, nonblock = False\<rparr>)) = reply \<and>
     reply = transcript (\<lambda>_. 0) 0 (answers (route sample_fs (default_router default_config)) default_config
        [message_request health_message])"
proof -
  define reply where "reply = transcript (\<lambda>_. 0) 0 (answers (route sample_fs (default_router default_config))
    default_config [message_request health_message])"
  define io where "io = \<lparr>inq = [RBytes (message_bytes health_message)],
    outq = replicate (length reply) (SRoom 1), wire = [], rcv_timeo = 0, snd_timeo = 0, nonblock = False\<rparr>"
  have "wire (snd (handle_connection sample_fs (\<lambda>_. 0) default_config (default_router default_config) 5 io)) =
      wire io @ reply"
    by (rule client_conversation [of 5 "[health_message]" "[[message_bytes health_message]]"])
      (use health_delivers in \<open>simp_all add: io_def reply_def default_config_def list_all_iff
        makes_progress_def rooms_def\<close>)
  then show ?thesis unfolding io_def reply_def by auto
qed

text \<open>C7. Protocol conformance for any client, any segmentation, any fault of the network: what is on the
  wire when the handler ends is a prefix of a transcript the specification allows, with at most
  as many responses as the limit per connection, all but the last of them keep-alive.\<close>

theorem connection_protocol:
  assumes "client_fd \<noteq> -1"
    and "handle_connection fs clock config (default_router config) client_fd io = (e, io')"
  shows "\<exists>rs k. dialogue (route fs (default_router config)) config 0 rs \<and>
    int (length rs) \<le> max 0 (max_requests_per_conn config) \<and>
    (\<forall>r\<in>set (butlast rs). rs_keep_alive r) \<and>
    wire io' = wire io @ take k (transcript clock 0 rs)"
proof -
  obtain rs k where rs: "dialogue (route fs (default_router config)) config 0 rs"
    "wire io' = wire io @ take k (transcript clock 0 rs)"
    using handle_connection_says [OF assms] .
  with dialogue_length [OF rs(1)] dialogue_keep_alive [OF rs(1)] show ?thesis by auto
qed

theorem connection_protocol_witness:
  "\<exists>rs k. dialogue (route sample_fs (default_router default_config)) default_config 0 rs \<and>
     wire (snd (handle_connection sample_fs (\<lambda>_. 0) default_config (default_router default_config) 5
       \<lparr>inq = [RBytes ''BREW / HTTP'', RIntr, RFail], outq = [], wire = [], rcv_timeo = 0, snd_timeo = 0, nonblock = False\<rparr>)) =
     take k (transcript (\<lambda>_. 0) 0 rs)"
proof -
  define io where "io = \<lparr>inq = [RBytes ''BREW / HTTP'', RIntr, RFail], outq = [], wire = [], rcv_timeo = 0, snd_timeo = 0, nonblock = False\<rparr>"
  obtain e io' where "handle_connection sample_fs (\<lambda>_. 0) default_config (default_router default_config) 5 io = (e, io')"
    by fastforce
  with connection_protocol [OF _ this] have
    "\<exists>rs k. dialogue (route sample_fs (default_router default_config)) default_config 0 rs \<and>
     wire (snd (handle_connection sample_fs (\<lambda>_. 0) default_config (default_router default_config) 5 io)) =
       wire io @ take k (transcript (\<lambda>_. 0) 0 rs)" by auto
  then show ?thesis by (simp add: io_def)
qed

text \<open>Framing: everything the specification allows can be taken apart again by a client that trusts
  \<open>Content-Length\<close>: it reads back as many responses as there are, each with its status line,
  headers and body, and nothing is left over.\<close>

theorem dialogue_reads_back:
  assumes "dialogue (route fs (default_router config)) config n rs"
    and "\<forall>r\<in>set rs. length (rs_body r) < 2 ^ 64"
  shows "read_responses (length rs) (transcript clock n rs @ rest) = Some (seen_all clock n rs, rest)"
  using assms by (rule default_app.dialogue_readable)

theorem dialogue_reads_back_witness:
  "read_responses 1 (transcript (\<lambda>_. 0) 0 [(error BadRequest [])\<lparr>rs_keep_alive := False\<rparr>]) =
     Some (seen_all (\<lambda>_. 0) 0 [(error BadRequest [])\<lparr>rs_keep_alive := False\<rparr>], [])"
proof -
  have "dialogue (route sample_fs (default_router default_config)) default_config 0
      [(error BadRequest [])\<lparr>rs_keep_alive := False\<rparr>]"
    by (rule dialogue.refused) (simp_all add: default_config_def)
  from dialogue_reads_back [OF this, of "\<lambda>_. 0" "[]"] show ?thesis by simp
qed

text \<open>C22. A silent or stuck peer cannot hold a worker for ever: with both time limits set the handler
  always ends, whatever the routes are.  It takes the process with it only if the peer has gone
  before it was written to, and an exception leaves it only if the application throws.\<close>

theorem connection_ends:
  assumes "client_fd \<noteq> -1" "read_timeout_sec config \<noteq> 0" "write_timeout_sec config \<noteq> 0"
    and "handle_connection fs clock config router client_fd io = (e, io')"
  shows "e \<noteq> Waits \<and> (SPipe \<notin> set (outq io) \<longrightarrow> e \<noteq> Died) \<and>
    ((\<forall>req. wellformed req \<longrightarrow> route fs router req \<noteq> None) \<longrightarrow> e \<noteq> Threw)"
  using handle_connection_ends [OF assms(1,4)] assms(2,3) by blast

theorem connection_ends_witness:
  "\<exists>e io'. handle_connection sample_fs (\<lambda>_. 0) default_config (default_router default_config) 5
     \<lparr>inq = [RBytes ''GET /''], outq = [], wire = [], rcv_timeo = 0, snd_timeo = 0, nonblock = False\<rparr> = (e, io') \<and>
     e \<noteq> Waits \<and> e \<noteq> Died"
proof -
  let ?io = "\<lparr>inq = [RBytes ''GET /''], outq = [], wire = [], rcv_timeo = 0, snd_timeo = 0, nonblock = False\<rparr>"
  obtain e io' where h: "handle_connection sample_fs (\<lambda>_. 0) default_config (default_router default_config) 5 ?io = (e, io')"
    by fastforce
  have "e \<noteq> Waits \<and> e \<noteq> Died"
    using connection_ends [OF _ _ _ h] by (simp add: default_config_def)
  with h show ?thesis by blast
qed

text \<open>A malformed first request is answered once, with the parser's status, and the connection is
  over.\<close>

theorem malformed_answered:
  assumes "client_fd \<noteq> -1" "0 < max_requests_per_conn config"
    and "inq io = RBytes d # es" "d \<noteq> []" "length d \<le> BUF_SIZE"
    and "feed d initial_parser = (R_ERROR, q)"
    and "reply = serialize (clock 0) ((error (p_error_code q) [])\<lparr>rs_keep_alive := False\<rparr>)"
    and "list_all makes_progress (outq io)" "length reply \<le> rooms (outq io)"
  shows "\<exists>io'. handle_connection fs clock config router client_fd io = (Returned, io') \<and>
    wire io' = wire io @ reply"
proof -
  let ?c = "new_connection client_fd"
  obtain io1 where h: "handle_connection fs clock config router client_fd io =
      connection_loop fs clock config router ?c initial_parser 0 io1"
    and io1: "inq io1 = inq io" "outq io1 = outq io" "wire io1 = wire io"
    using handle_connection_loop [OF assms(1)] by blast
  have open_c: "is_open ?c" using assms(1) by simp
  have rd: "read_request ?c initial_parser io1 = (Request_error, q, io1\<lparr>inq := es\<rparr>)"
    using read_request_once [OF open_c _ assms(4,5,6), of io1 es] assms(3) io1 by simp
  obtain io' where w: "write_all ?c reply (io1\<lparr>inq := es\<rparr>) = (Returns True, io')" "wire io' = wire io @ reply"
    unfolding assms(7)
    by (rule write_all_delivers [OF open_c, of "io1\<lparr>inq := es\<rparr>"]) (use assms(7-9) io1 in auto)
  have "connection_loop fs clock config router ?c initial_parser 0 io1 = (write_end (Returns True), io')"
    using connection_loop_refuse [OF assms(2) rd] w(1) by (simp add: assms(7))
  with h w(2) show ?thesis by (simp add: write_end_def)
qed

theorem malformed_answered_witness:
  "\<exists>q out io'. feed (''BREW / HTTP/1.1'' @ CRLF) initial_parser = (R_ERROR, q) \<and>
     handle_connection sample_fs (\<lambda>_. 0) default_config new_router 5
       \<lparr>inq = [RBytes (''BREW / HTTP/1.1'' @ CRLF)], outq = out, wire = [], rcv_timeo = 0, snd_timeo = 0, nonblock = False\<rparr> =
         (Returned, io') \<and>
     wire io' = serialize 0 ((error (p_error_code q) [])\<lparr>rs_keep_alive := False\<rparr>)"
proof -
  have "fst (feed (''BREW / HTTP/1.1'' @ CRLF) initial_parser) = R_ERROR" by code_simp
  then obtain q where q: "feed (''BREW / HTTP/1.1'' @ CRLF) initial_parser = (R_ERROR, q)"
    by (cases "feed (''BREW / HTTP/1.1'' @ CRLF) initial_parser") auto
  define reply where "reply = serialize 0 ((error (p_error_code q) [])\<lparr>rs_keep_alive := False\<rparr>)"
  define io where "io = \<lparr>inq = [RBytes (''BREW / HTTP/1.1'' @ CRLF)],
    outq = replicate (length reply) (SRoom 1), wire = [], rcv_timeo = 0, snd_timeo = 0, nonblock = False\<rparr>"
  have "\<exists>io'. handle_connection sample_fs (\<lambda>_. 0) default_config new_router 5 io = (Returned, io') \<and>
      wire io' = wire io @ reply"
    by (rule malformed_answered [OF _ _ _ _ _ q])
      (simp_all add: default_config_def io_def BUF_SIZE_def reply_def list_all_iff makes_progress_def rooms_def)
  then show ?thesis using q unfolding io_def reply_def by auto
qed

text \<open>The loop resets its parser before each request, so what a parser still holds has no influence on the rest of
  the connection.\<close>

lemma connection_loop_parser:
  "connection_loop fs clock config router c p n io = connection_loop fs clock config router c q n io"
  by (simp add: connection_loop.simps [of fs clock config router c p] connection_loop.simps [of fs clock config router c q])

lemma connection_loop_pipelined:
  assumes "is_open c" "sendable m t hs b" "length (render_request m t hs b @ rest) \<le> BUF_SIZE"
    and "n < max_requests_per_conn config"
  shows "connection_loop fs clock config router c p n (io\<lparr>inq := RBytes (render_request m t hs b @ rest) # es\<rparr>) =
    connection_loop fs clock config router c p n (io\<lparr>inq := RBytes (render_request m t hs b) # es\<rparr>)"
proof -
  have ne: "render_request m t hs b \<noteq> []" by (simp add: render_request_def)
  obtain q where q: "feed (render_request m t hs b @ rest) initial_parser = (R_COMPLETE, q)"
    "p_request q = sent_request m t hs b" using feed_printed [OF assms(2), of rest] by simp
  obtain q' where q': "feed (render_request m t hs b) initial_parser = (R_COMPLETE, q')"
    "p_request q' = sent_request m t hs b" using feed_printed [OF assms(2), of "[]"] by auto
  have rd: "read_request c initial_parser (io\<lparr>inq := RBytes (render_request m t hs b @ rest) # es\<rparr>) =
      (Request_complete, q, io\<lparr>inq := es\<rparr>)"
    using read_request_once [OF assms(1) _ _ assms(3) q(1), of _ es] ne by simp
  have rd': "read_request c initial_parser (io\<lparr>inq := RBytes (render_request m t hs b) # es\<rparr>) =
      (Request_complete, q', io\<lparr>inq := es\<rparr>)"
    using read_request_once [OF assms(1) _ ne _ q'(1), of _ es] assms(3) by simp
  let ?empty = "\<lambda>q. q\<lparr>p_request := empty_request\<rparr>"
  have got: "get_request q = (sent_request m t hs b, ?empty q)" "get_request q' = (sent_request m t hs b, ?empty q')"
    using q(2) q'(2) by (simp_all add: get_request_def)
  have again: "connection_loop fs clock config router c (?empty q) (n + 1) =
      connection_loop fs clock config router c (?empty q') (n + 1)"
    using connection_loop_parser by blast
  show ?thesis
    unfolding connection_loop.simps [of fs clock config router c p n] reset_initial rd rd' prod.case got again
    using assms(4) by simp
qed

text \<open>C39. Pipelined requests are lost: whatever follows a first request in the same read, the connection goes
  exactly as if it had not been sent, in what the client is answered and in what of its later segments
  is read, because the \<open>reset\<close> before the next request throws it away.\<close>

theorem pipelined_requests_lost:
  assumes "client_fd \<noteq> -1" "sendable m t hs b" "length (render_request m t hs b @ rest) \<le> BUF_SIZE"
    and "0 < max_requests_per_conn config"
  shows "handle_connection fs clock config router client_fd (io\<lparr>inq := RBytes (render_request m t hs b @ rest) # es\<rparr>) =
    handle_connection fs clock config router client_fd (io\<lparr>inq := RBytes (render_request m t hs b) # es\<rparr>)"
proof -
  have "is_open (new_connection client_fd)" using assms(1) by simp
  note lost = connection_loop_pipelined [OF this assms(2-4)]
  have set: "set_write_timeout c w (set_read_timeout c r (io\<lparr>inq := x\<rparr>)) =
      (set_write_timeout c w (set_read_timeout c r io))\<lparr>inq := x\<rparr>" for c w r x
    by (simp add: set_read_timeout_def set_write_timeout_def Let_def)
  show ?thesis unfolding handle_connection_def Let_def set by (rule lost)
qed

theorem pipelined_requests_lost_witness:
  "handle_connection sample_fs (\<lambda>_. 0) default_config (default_router default_config) 5
     \<lparr>inq = [RBytes (render_request ''GET'' ''/'' [] [] @ render_request ''GET'' ''/health'' [] []),
              RBytes (render_request ''GET'' ''/echo'' [] [])],
       outq = [SRoom 9000, SRoom 9000, SRoom 9000], wire = [], rcv_timeo = 0, snd_timeo = 0, nonblock = False\<rparr> =
   handle_connection sample_fs (\<lambda>_. 0) default_config (default_router default_config) 5
     \<lparr>inq = [RBytes (render_request ''GET'' ''/'' [] []), RBytes (render_request ''GET'' ''/echo'' [] [])],
       outq = [SRoom 9000, SRoom 9000, SRoom 9000], wire = [], rcv_timeo = 0, snd_timeo = 0, nonblock = False\<rparr>"
proof -
  have "length (render_request ''GET'' ''/'' [] [] @ render_request ''GET'' ''/health'' [] []) \<le> BUF_SIZE"
    by code_simp
  from pipelined_requests_lost [OF _ get_root_sendable this, where client_fd = 5 and fs = sample_fs and
      clock = "\<lambda>_. 0" and config = default_config and router = "default_router default_config" and
      es = "[RBytes (render_request ''GET'' ''/echo'' [] [])]" and
      io = "\<lparr>inq = [], outq = [SRoom 9000, SRoom 9000, SRoom 9000], wire = [], rcv_timeo = 0, snd_timeo = 0, nonblock = False\<rparr>"]
  show ?thesis by (simp add: default_config_def)
qed

section \<open>Whichever server\<close>

text \<open>C17. Framing, for both servers, at any moment and after any fault: what a connection has been sent is a
  number of whole responses, which a client that trusts \<open>Content-Length\<close> reads back with their
  status lines, headers and bodies, in order, and a proper part of one more at most.\<close>

theorem both_servers_readable:
  assumes "threaded_shows fs config (default_router cfg) w \<or> epoll_shows fs config (Some (default_router cfg)) w"
    and "\<And>p content. fs_read fs p = Some content \<Longrightarrow> length content < 2 ^ 64"
  shows "\<exists>clk rs rest. dialogue (route fs (default_router cfg)) config 0 rs \<and>
    w = transcript clk 0 rs @ rest \<and> read_responses (length rs) w = Some (seen_all clk 0 rs, rest) \<and>
    part_of_response rest"
proof -
  have small: "length (rs_body res) < 2 ^ 64"
    if "wellformed req" "route fs (default_router cfg) req = Some res" for req res
    using assms(2) that by (rule default_body_small)
  from assms(1) show ?thesis
  proof
    assume w: "threaded_shows fs config (default_router cfg) w"
    show ?thesis by (rule threaded.client_reads [OF w small]) blast+
  next
    assume w: "epoll_shows fs config (Some (default_router cfg)) w"
    show ?thesis by (rule event_driven.client_reads [OF w small]) blast+
  qed
qed

theorem both_servers_readable_witness:
  "\<exists>w clk rs rest. threaded_shows sample_fs default_config (default_router default_config) w \<and>
     read_responses (length rs) w = Some (seen_all clk 0 rs, rest) \<and> part_of_response rest"
proof -
  let ?io = "\<lparr>inq = [RBytes ''BREW / HTTP'', RIntr, RFail], outq = [SRoom 5], wire = [], rcv_timeo = 0,
    snd_timeo = 0, nonblock = False\<rparr>"
  let ?w = "wire (snd (handle_connection sample_fs (\<lambda>_. 0) default_config (default_router default_config) 5 ?io))"
  have shows_it: "threaded_shows sample_fs default_config (default_router default_config) ?w"
    unfolding threaded_shows_def
    by (rule exI [of _ "\<lambda>_. 0"], rule exI [of _ 5], rule exI [of _ ?io]) (auto simp: prod_eq_iff)
  have "length content < 2 ^ 64" if "fs_read sample_fs p = Some content" for p content
    using that by (auto simp: sample_fs_def split: if_splits)
  with both_servers_readable [of sample_fs default_config default_config ?w] shows_it show ?thesis by blast
qed

section \<open>Without a pool, and the program\<close>

text \<open>C31. The loop with one thread per client leaves nothing behind either: when it returns, every thread
  has ended, and after the listener's destructor no descriptor is open and none was closed twice.\<close>

theorem baseline_leaves_nothing_open:
  assumes "baseline_reach config s" "baseline_return s = Some sv"
  shows "list_all (\<lambda>t. t = Done_thread) (bl_threads s) \<and>
    open_fds (socket_destroy (l_socket (sv_listener sv)) (sv_store sv)) = {} \<and>
    bad_closes (socket_destroy (l_socket (sv_listener sv)) (sv_store sv)) = 0"
proof -
  have "baseline_inv s" using assms(1) by (rule baseline.reach_inv)
  with baseline_return_clean [OF this assms(2)] assms(2) show ?thesis
    by (auto simp: baseline_return_def split: if_splits)
qed

definition baseline_started_state :: baseline where
  "baseline_started_state =
     \<lparr>bl_server = started_server no_workers (\<lambda>r. r), bl_threads = []\<rparr>"

lemmas no_workers_started = baseline_started [of no_workers "\<lambda>r. r", folded baseline_started_state_def]

theorem baseline_leaves_nothing_open_witness:
  "\<exists>s sv. length (bl_threads s) = 2 \<and> baseline_return s = Some sv \<and>
     open_fds (socket_destroy (l_socket (sv_listener sv)) (sv_store sv)) = {}"
proof -
  let ?t = "baseline_started_state\<lparr>bl_threads := replicate 2 Done_thread\<rparr>"
  have n: "num_workers no_workers \<le> 0" by (simp add: no_workers_def)
  note st = no_workers_started [OF n]
  have "baseline_reach no_workers ?t"
    by (rule reach_trans_step [OF reach_init [of "baseline_init no_workers", OF st(1)]])
      (rule baseline_clients [OF st(2-)])
  then have r: "baseline_reach no_workers (baseline_stop ?t)" by (rule reach_step) (rule baseline_step.stop)
  have "baseline_return (baseline_stop ?t) = Some (bl_server (baseline_stop ?t))"
    by (simp add: baseline_return_def baseline_stop_def list_all_iff)
  with baseline_leaves_nothing_open [OF r this] show ?thesis
    by (intro exI [of _ "baseline_stop ?t"] exI [of _ "bl_server (baseline_stop ?t)"])
      (auto simp: baseline_stop_def)
qed

text \<open>That loop never gives a thread back while it runs: however many clients have come and gone, one
  after the other, their threads are all still in the vector, with only the listener open.\<close>

theorem baseline_accumulates:
  assumes "num_workers config \<le> 0"
  shows "\<exists>s. baseline_reach config s \<and> sv_running (bl_server s) \<and>
    open_fds (sv_store (bl_server s)) = {fd_of (l_socket (sv_listener (bl_server s))) (sv_store (bl_server s))} \<and>
    bl_threads s = replicate n Done_thread"
proof -
  define s where "s = \<lparr>bl_server = started_server config (\<lambda>r. r), bl_threads = []\<rparr>"
  note st = baseline_started [OF assms, of "\<lambda>r. r", folded s_def]
  have "baseline_reach config (s\<lparr>bl_threads := replicate n Done_thread\<rparr>)"
    by (rule reach_trans_step [OF reach_init [of "baseline_init config", OF st(1)]])
      (rule baseline_clients [OF st(2-)])
  with st show ?thesis
    by (intro exI [of _ "s\<lparr>bl_threads := replicate n Done_thread\<rparr>"]) (simp add: fd_of_def)
qed

theorem baseline_accumulates_witness:
  "\<exists>s. baseline_reach no_workers s \<and> length (bl_threads s) = 1000"
proof -
  have "num_workers no_workers \<le> 0" by (simp add: no_workers_def)
  from baseline_accumulates [OF this, of 1000] obtain s where
    "baseline_reach no_workers s" "bl_threads s = replicate 1000 Done_thread" by blast
  then show ?thesis by (intro exI [of _ s]) simp
qed

text \<open>C32. The program does what its command line says: from the options that print a configuration it
  starts a server with that configuration, listening on its port with the default routes, with
  the pool if it has workers and a thread per client otherwise.\<close>

theorem program_serves:
  assumes "expressible c" "tmp \<noteq> 0" "r_socket res \<noteq> -1" "r_bind res \<noteq> -1" "r_listen res \<noteq> -1"
  shows "\<exists>s. program (command_line c) tmp res =
      Runs (if num_workers c > 0 then Pool_mode else Baseline_mode) s \<and>
    sv_config s = c \<and> sv_router s = default_router c \<and> sv_running s \<and> l_port (sv_listener s) = port c \<and>
    fd_of (l_socket (sv_listener s)) (sv_store s) = r_socket res"
proof -
  obtain s where s: "server_start tmp res (server_setup_routes (new_server c)) =
      (if num_workers c > 0 then Pool_mode else Baseline_mode, s)"
    "sv_config s = c" "sv_running s" "sv_router s = default_router c" "l_port (sv_listener s) = port c"
    "fd_of (l_socket (sv_listener s)) (sv_store s) = r_socket res"
    using server_start_up [OF assms(2-5)] by metis
  have "program (command_line c) tmp res =
      Runs (if num_workers c > 0 then Pool_mode else Baseline_mode) s"
    by (simp add: program_def parse_command_line [OF assms(1)] s(1))
  with s(2-) show ?thesis by blast
qed

theorem program_serves_witness:
  "\<exists>s. program (command_line default_config) 1 started_results = Runs Pool_mode s \<and> sv_router s = default_router default_config \<and>
     sv_running s \<and> l_port (sv_listener s) = 8080"
proof -
  have "expressible default_config" "0 < num_workers default_config" "port default_config = 8080"
    by (simp_all add: expressible_def default_config_def)
  with program_serves [of default_config 1 started_results] show ?thesis
    by (auto simp: started_results_def)
qed

end
